(* ===== verification/Rust_Prelude.thy ===== *)
theory Rust_Prelude
  imports Main "HOL-Library.Word"
begin

text \<open>
  Shared vocabulary of the development: the outcome of a Rust computation that may panic,
  the integer operations of the language at their width (plain operators panic on overflow
  in the build profile the crate uses, \<open>checked_\<close> and \<open>saturating_\<close> operations
  do not), reading of slices, and the generic facts on lists and words
  the components share.
\<close>

unbundle bit_operations_syntax

type_synonym u8 = "8 word"
type_synonym u16 = "16 word"
type_synonym u32 = "32 word"
type_synonym u64 = "64 word"
type_synonym usize = "64 word"

section \<open>Outcomes\<close>

text \<open>A panic of the Rust runtime, by the check that raises it.\<close>

datatype panic =
    ArithOverflow
  | DivideByZero
  | IndexOutOfBounds
  | AssertFailed
  | Expect string
  | Explicit string

type_synonym 'a res = "panic + 'a"

definition rbind :: "'a res \<Rightarrow> ('a \<Rightarrow> 'b res) \<Rightarrow> 'b res" where
  "rbind m f = (case m of Inl e \<Rightarrow> Inl e | Inr x \<Rightarrow> f x)"

named_theorems res_simps \<open>evaluation of outcomes and checked operations\<close>

lemma rbind_Inr [simp, res_simps]: "rbind (Inr x) f = f x"
  and rbind_Inl [simp, res_simps]: "rbind (Inl e) f = Inl e"
  by (simp_all add: rbind_def)

lemma rbind_eq_Inr: "rbind m f = Inr y \<longleftrightarrow> (\<exists>x. m = Inr x \<and> f x = Inr y)"
  by (auto simp: rbind_def split: sum.splits)

lemma rbind_eq_InrE:
  assumes "rbind m f = Inr y"
  obtains x where "m = Inr x" and "f x = Inr y"
  using assms by (auto simp: rbind_eq_Inr)

lemma rbind_cong [fundef_cong]:
  "m = m' \<Longrightarrow> (\<And>x. m' = Inr x \<Longrightarrow> f x = g x) \<Longrightarrow> rbind m f = rbind m' g"
  by (auto simp: rbind_def split: sum.splits)

text \<open>\<open>assert!\<close>.\<close>

definition rassert :: "bool \<Rightarrow> unit res" where
  "rassert b = (if b then Inr () else Inl AssertFailed)"

lemma rassert_simps [simp, res_simps]:
  "rassert True = Inr ()" "rassert False = Inl AssertFailed"
  by (simp_all add: rassert_def)

lemma rassert_eq_Inr [simp]: "rassert b = Inr x \<longleftrightarrow> b"
  by (simp add: rassert_def)

section \<open>Integer operations\<close>

text \<open>\<open>+\<close>, \<open>-\<close>, \<open>*\<close>, \<open>/\<close> of an unsigned type: the debug profile checks them.\<close>

definition add_ovf :: "'a::len word \<Rightarrow> 'a word \<Rightarrow> 'a word res" where
  "add_ovf x y = (if unat x + unat y < 2 ^ LENGTH('a) then Inr (x + y) else Inl ArithOverflow)"

definition sub_ovf :: "'a::len word \<Rightarrow> 'a word \<Rightarrow> 'a word res" where
  "sub_ovf x y = (if y \<le> x then Inr (x - y) else Inl ArithOverflow)"

definition mul_ovf :: "'a::len word \<Rightarrow> 'a word \<Rightarrow> 'a word res" where
  "mul_ovf x y = (if unat x * unat y < 2 ^ LENGTH('a) then Inr (x * y) else Inl ArithOverflow)"

definition div_chk :: "'a::len word \<Rightarrow> 'a word \<Rightarrow> 'a word res" where
  "div_chk x y = (if y = 0 then Inl DivideByZero else Inr (x div y))"

definition checked_add :: "'a::len word \<Rightarrow> 'a word \<Rightarrow> 'a word option" where
  "checked_add x y = (if unat x + unat y < 2 ^ LENGTH('a) then Some (x + y) else None)"

definition saturating_sub :: "'a::len word \<Rightarrow> 'a word \<Rightarrow> 'a word" where
  "saturating_sub x y = (if y \<le> x then x - y else 0)"

definition saturating_add :: "'a::len word \<Rightarrow> 'a word \<Rightarrow> 'a word" where
  "saturating_add x y = (if unat x + unat y < 2 ^ LENGTH('a) then x + y else - 1)"

lemma unat_bound: "unat (x :: 'a::len word) < 2 ^ LENGTH('a)"
  by simp

lemma unat_add_no_ovf:
  fixes x y :: "'a::len word"
  shows "unat x + unat y < 2 ^ LENGTH('a) \<Longrightarrow> unat (x + y) = unat x + unat y"
  by (simp add: unat_word_ariths)

lemma unat_mul_no_ovf:
  fixes x y :: "'a::len word"
  shows "unat x * unat y < 2 ^ LENGTH('a) \<Longrightarrow> unat (x * y) = unat x * unat y"
  by (simp add: unat_word_ariths)

lemma add_ovf_eq_Inr:
  "add_ovf (x::'a::len word) y = Inr z \<longleftrightarrow>
     unat x + unat y < 2 ^ LENGTH('a) \<and> z = x + y"
  by (auto simp: add_ovf_def)

lemma sub_ovf_eq_Inr: "sub_ovf x y = Inr z \<longleftrightarrow> y \<le> x \<and> z = x - y"
  by (auto simp: sub_ovf_def)

lemma mul_ovf_eq_Inr:
  "mul_ovf (x::'a::len word) y = Inr z \<longleftrightarrow>
     unat x * unat y < 2 ^ LENGTH('a) \<and> z = x * y"
  by (auto simp: mul_ovf_def)

lemma div_chk_eq_Inr: "div_chk x y = Inr z \<longleftrightarrow> y \<noteq> 0 \<and> z = x div y"
  by (auto simp: div_chk_def)

lemma checked_add_eq_Some:
  "checked_add (x::'a::len word) y = Some z \<longleftrightarrow>
     unat x + unat y < 2 ^ LENGTH('a) \<and> z = x + y"
  by (auto simp: checked_add_def)

lemmas checked_eqs = add_ovf_eq_Inr sub_ovf_eq_Inr mul_ovf_eq_Inr div_chk_eq_Inr checked_add_eq_Some

lemma add_ovf_unat: "add_ovf x y = Inr z \<Longrightarrow> unat z = unat x + unat y"
  by (auto simp: add_ovf_eq_Inr unat_add_no_ovf)

lemma mul_ovf_unat: "mul_ovf x y = Inr z \<Longrightarrow> unat z = unat x * unat y"
  by (auto simp: mul_ovf_eq_Inr unat_mul_no_ovf)

lemma sub_ovf_unat: "sub_ovf x y = Inr z \<Longrightarrow> unat z = unat x - unat y"
  by (auto simp: sub_ovf_eq_Inr unat_sub)

lemma checked_add_unat: "checked_add x y = Some z \<Longrightarrow> unat z = unat x + unat y"
  by (auto simp: checked_add_eq_Some unat_add_no_ovf)

lemma div_chk_unat: "div_chk x y = Inr z \<Longrightarrow> unat z = unat x div unat y"
  by (auto simp: div_chk_eq_Inr unat_div)

lemma unat_minus_1: "unat (- 1 :: 'a::len word) = 2 ^ LENGTH('a) - 1"
proof -
  have "unat (- 1 :: 'a word) = nat (uint (- 1 :: 'a word))" by simp
  also have "uint (- 1 :: 'a word) = 2 ^ LENGTH('a) - 1"
    by (simp add: uint_word_ariths(4) [of 1, simplified] zmod_minus1)
  finally show ?thesis by (simp add: nat_diff_distrib nat_power_eq)
qed

lemma bit_unat_ge: "bit x n \<Longrightarrow> 2 ^ n \<le> unat (x :: 'a::len word)"
proof (rule ccontr)
  assume b: "bit x n" and "\<not> 2 ^ n \<le> unat x"
  then have "unat x div 2 ^ n = 0" by simp
  then have "\<not> bit (unat x) n" by (simp add: bit_iff_odd)
  with b show False by (simp add: bit_unsigned_iff possible_bit_def)
qed

lemma unat_uminus:
  "x \<noteq> 0 \<Longrightarrow> unat (- x :: 'a::len word) = 2 ^ LENGTH('a) - unat x"
  using unat_sub_if' [of 0 x] by (simp add: unat_eq_0)

lemma saturating_add_unat:
  "unat (saturating_add (x::'a::len word) y) = min (unat x + unat y) (2 ^ LENGTH('a) - 1)"
  by (auto simp: saturating_add_def unat_add_no_ovf unat_minus_1)

lemma saturating_sub_unat: "unat (saturating_sub x y) = unat x - unat y"
  by (auto simp: saturating_sub_def unat_sub word_le_nat_alt)

lemma le_saturating_add: "(x :: 'a::len word) \<le> saturating_add x y"
proof -
  have "unat x \<le> 2 ^ LENGTH('a) - 1"
    using unat_bound [of x] by linarith
  then show ?thesis
    by (simp add: word_le_nat_alt saturating_add_unat)
qed

text \<open>\<open>Iterator::sum\<close> over unsigned values, with the check of every addition.\<close>

fun sum_from :: "'a::len word \<Rightarrow> 'a word list \<Rightarrow> 'a word res" where
  "sum_from acc [] = Inr acc"
| "sum_from acc (x # xs) = rbind (add_ovf acc x) (\<lambda>acc'. sum_from acc' xs)"

definition sum_ovf :: "'a::len word list \<Rightarrow> 'a word res" where
  "sum_ovf xs = sum_from 0 xs"

lemma sum_from_unat: "sum_from acc xs = Inr s \<Longrightarrow> unat s = unat acc + sum_list (map unat xs)"
  by (induction xs arbitrary: acc) (auto simp: rbind_eq_Inr dest: add_ovf_unat)

lemma sum_from_total:
  "unat (acc :: 'a::len word) + sum_list (map unat xs) < 2 ^ LENGTH('a) \<Longrightarrow>
     \<exists>s. sum_from acc xs = Inr s"
  by (induction xs arbitrary: acc) (auto simp: add_ovf_def unat_add_no_ovf)

lemma sum_ovf_unat: "sum_ovf xs = Inr s \<Longrightarrow> unat s = sum_list (map unat xs)"
  by (simp add: sum_ovf_def sum_from_unat)

lemma sum_ovf_total:
  "sum_list (map unat (xs :: 'a::len word list)) < 2 ^ LENGTH('a) \<Longrightarrow> \<exists>s. sum_ovf xs = Inr s"
  by (simp add: sum_ovf_def sum_from_total)

text \<open>Indices modulo a length, for circular orders and ring buffers.\<close>

lemma mod_length_less [simp]: "k mod length xs < length xs \<longleftrightarrow> xs \<noteq> []"
  by (cases xs) simp_all

lemma mod_add_left_cancel:
  fixes a x y n :: nat
  assumes "(a + x) mod n = (a + y) mod n"
  shows "x mod n = y mod n"
  using assms
proof (induction x y rule: linorder_wlog)
  case (le x y)
  then have "n dvd (a + y) - (a + x)"
    by (metis add_le_cancel_left mod_eq_dvd_iff_nat)
  with le show ?case by (metis add_diff_cancel_left mod_eq_dvd_iff_nat)
next
  case (sym x y)
  then show ?case by simp
qed

section \<open>Slices\<close>

text \<open>Indexing, and the sub-slice \<open>xs[a..b]\<close>.\<close>

definition index_chk :: "'a list \<Rightarrow> nat \<Rightarrow> 'a res" where
  "index_chk xs i = (if i < length xs then Inr (xs ! i) else Inl IndexOutOfBounds)"

definition slice_chk :: "'a list \<Rightarrow> nat \<Rightarrow> nat \<Rightarrow> 'a list res" where
  "slice_chk xs a b =
     (if a \<le> b \<and> b \<le> length xs then Inr (take (b - a) (drop a xs)) else Inl IndexOutOfBounds)"

lemma index_chk_eq_Inr: "index_chk xs i = Inr x \<longleftrightarrow> i < length xs \<and> x = xs ! i"
  by (auto simp: index_chk_def)

lemma index_chk_in [simp]: "i < length xs \<Longrightarrow> index_chk xs i = Inr (xs ! i)"
  by (simp add: index_chk_def)

lemma slice_chk_eq_Inr:
  "slice_chk xs a b = Inr ys \<longleftrightarrow> a \<le> b \<and> b \<le> length xs \<and> ys = take (b - a) (drop a xs)"
  by (auto simp: slice_chk_def)

lemma length_slice_chk: "slice_chk xs a b = Inr ys \<Longrightarrow> length ys = b - a"
  by (auto simp: slice_chk_eq_Inr)

text \<open>\<open>Iterator::position\<close>.\<close>

fun position :: "('a \<Rightarrow> bool) \<Rightarrow> 'a list \<Rightarrow> nat option" where
  "position P [] = None"
| "position P (x # xs) = (if P x then Some 0 else map_option Suc (position P xs))"

lemma position_Some: "position P xs = Some i \<Longrightarrow> i < length xs \<and> P (xs ! i)"
  by (induction xs arbitrary: i) (auto split: if_splits)

lemma position_skip: "\<forall>x \<in> set xs. \<not> P x \<Longrightarrow> position P (xs @ ys) = map_option (\<lambda>i. length xs + i) (position P ys)"
  by (cases "position P ys") (induction xs; simp)+

text \<open>\<open>u32::from_le_bytes\<close> read as an index, and the bytes of an index.\<close>

definition le32 :: "u8 list \<Rightarrow> nat" where
  "le32 bs = foldr (\<lambda>b acc. unat b + 256 * acc) bs 0"

definition to_le32 :: "nat \<Rightarrow> u8 list" where
  "to_le32 n = [of_nat n, of_nat (n div 256), of_nat (n div 65536), of_nat (n div 16777216)]"

lemma le32_to_le32:
  assumes "n < 2 ^ 32"
  shows "le32 (to_le32 n) = n"
proof -
  have nested: "a + 256 * m = n \<Longrightarrow> b + 256 * k = m \<Longrightarrow> c + 256 * q = k \<Longrightarrow> a + 256 * (b + 256 * (c + 256 * q)) = n"
    for a b c k m q :: nat by simp
  have e: "n div 65536 = n div 256 div 256" "n div 16777216 = n div 256 div 256 div 256" by (simp_all flip: div_mult2_eq)
  have "n div 16777216 < 256" using assms by (simp add: less_mult_imp_div_less)
  then have top: "n div 256 div 256 div 256 mod 256 = n div 256 div 256 div 256" by (simp add: e)
  have u: "unat (of_nat m :: u8) = m mod 256" for m by (simp add: unat_of_nat)
  have "le32 [a, b, c, d] = unat a + 256 * (unat b + 256 * (unat c + 256 * unat d))" for a b c d
    by (simp add: le32_def)
  then show ?thesis
    unfolding to_le32_def e u top by (simp only: nested [OF mod_mult_div_eq mod_mult_div_eq mod_mult_div_eq] u top)
qed

lemma length_to_le32 [simp]: "length (to_le32 n) = 4"
  by (simp add: to_le32_def)

lemma concat_slice:
  assumes "i < length xs"
  shows "take (length (xs ! i)) (drop (length (concat (take i xs))) (concat xs)) = xs ! i"
proof -
  have "concat xs = concat (take i xs) @ xs ! i @ concat (drop (Suc i) xs)"
    using id_take_nth_drop [OF assms] by (metis concat.simps(2) concat_append)
  then show ?thesis by simp
qed

end
