(* ===== verification/Machine.thy ===== *)
theory Machine
  imports Rust_Prelude
begin

text \<open>
  The part of the x86-64 machine the kernel's naked functions use: byte-addressed memory
  with little-endian 64-bit accesses, the sixteen general registers, \<open>rflags\<close> and
  \<open>rip\<close>, and the instructions that occur in \<open>src/thread/context.rs\<close> and in the
  interrupt entry stubs of \<open>src/interrupts.rs\<close>. Arithmetic on addresses wraps, as it
  does on the processor.
\<close>

section \<open>Memory\<close>

type_synonym memory = "u64 \<Rightarrow> u8"

definition byte_of :: "u64 \<Rightarrow> nat \<Rightarrow> u8" where
  "byte_of v i = ucast (drop_bit (8 * i) v)"

definition read64 :: "memory \<Rightarrow> u64 \<Rightarrow> u64" where
  "read64 m a = foldr (\<lambda>i v. push_bit 8 v OR ucast (m (a + of_nat i))) [0..<8] 0"

definition write64 :: "memory \<Rightarrow> u64 \<Rightarrow> u64 \<Rightarrow> memory" where
  "write64 m a v = (\<lambda>x. if x - a < 8 then byte_of v (unat (x - a)) else m x)"

text \<open>Two eight-byte cells that do not overlap, in the circular address space.\<close>

definition sep8 :: "u64 \<Rightarrow> u64 \<Rightarrow> bool" where
  "sep8 a b \<longleftrightarrow> 8 \<le> b - a \<and> 8 \<le> a - b"

text \<open>Regions \<open>[a, a + n)\<close> and \<open>[b, b + k)\<close> that do not overlap.\<close>

definition disjoint_regions :: "u64 \<Rightarrow> u64 \<Rightarrow> u64 \<Rightarrow> u64 \<Rightarrow> bool" where
  "disjoint_regions a n b k \<longleftrightarrow> n \<le> b - a \<and> k \<le> a - b"

lemma read64_unfold:
  "read64 m a =
     (ucast (m a) OR push_bit 8 (ucast (m (a + 1)) OR push_bit 8 (ucast (m (a + 2)) OR
      push_bit 8 (ucast (m (a + 3)) OR push_bit 8 (ucast (m (a + 4)) OR
      push_bit 8 (ucast (m (a + 5)) OR push_bit 8 (ucast (m (a + 6)) OR
      push_bit 8 (ucast (m (a + 7))))))))))"
  by (simp add: read64_def upt_rec or.commute)

lemma bytes_join:
  "ucast (byte_of v 0) OR push_bit 8 (ucast (byte_of v 1) OR push_bit 8 (ucast (byte_of v 2) OR
      push_bit 8 (ucast (byte_of v 3) OR push_bit 8 (ucast (byte_of v 4) OR
      push_bit 8 (ucast (byte_of v 5) OR push_bit 8 (ucast (byte_of v 6) OR
      push_bit 8 (ucast (byte_of v 7)))))))) = (v :: u64)"
proof (rule bit_eqI)
  fix n
  assume "possible_bit TYPE(u64) n"
  then have n: "n < 64" by simp
  define q where "q = n div 8"
  define r where "r = n mod 8"
  have nqr: "n = 8 * q + r" and r: "r < 8" and q: "q < 8"
    using n by (simp_all add: q_def r_def)
  have "q \<in> {0, 1, 2, 3, 4, 5, 6, 7}" using q by auto
  then show "bit (ucast (byte_of v 0) OR push_bit 8 (ucast (byte_of v 1) OR push_bit 8 (ucast (byte_of v 2) OR
      push_bit 8 (ucast (byte_of v 3) OR push_bit 8 (ucast (byte_of v 4) OR
      push_bit 8 (ucast (byte_of v 5) OR push_bit 8 (ucast (byte_of v 6) OR
      push_bit 8 (ucast (byte_of v 7)))))))) :: u64) n = bit v n"
    using r unfolding nqr byte_of_def
    by (elim insertE emptyE; simp add: bit_simps; auto)
qed

lemma read64_write64_same [simp]: "read64 (write64 m a v) a = v"
  using bytes_join [of v] by (simp add: read64_unfold write64_def)

lemma write64_other:
  assumes "sep8 a b" and "i < 8"
  shows "write64 m a v (b + i) = m (b + i)"
proof -
  have "\<not> b + i - a < 8"
    using assms unfolding sep8_def by (simp add: diff_add_eq [symmetric]) unat_arith
  then show ?thesis by (simp add: write64_def)
qed

lemma read64_write64_sep: "sep8 a b \<Longrightarrow> read64 (write64 m a v) b = read64 m b"
  using write64_other [of a b] by (simp add: read64_unfold write64_other [of a b 0, simplified])

lemma sep8_offset [simp]:
  "sep8 (p + x) (p + y) \<longleftrightarrow> sep8 x y"
  "sep8 p (p + y) \<longleftrightarrow> sep8 0 y"
  "sep8 (p + x) p \<longleftrightarrow> sep8 x 0"
  "sep8 (p - x) p \<longleftrightarrow> sep8 (- x) 0"
  "sep8 p (p - x) \<longleftrightarrow> sep8 0 (- x)"
  by (simp_all add: sep8_def)

lemma sep8_commute: "sep8 a b \<longleftrightarrow> sep8 b a"
  by (auto simp: sep8_def)

lemma disjoint_regions_commute: "disjoint_regions a n b k \<longleftrightarrow> disjoint_regions b k a n"
  by (auto simp: disjoint_regions_def)

lemma disjoint_regions_mono:
  "disjoint_regions a n b k \<Longrightarrow> n' \<le> n \<Longrightarrow> k' \<le> k \<Longrightarrow> disjoint_regions a n' b k'"
  by (auto simp: disjoint_regions_def)

lemma disjoint_regions_sep8:
  assumes dis: "disjoint_regions a n b k"
    and x: "unat x + 8 \<le> unat n" and y: "unat y + 8 \<le> unat k"
  shows "sep8 (a + x) (b + y)"
proof -
  define d where "d = b - a"
  have nd: "unat n \<le> unat d" and kd: "unat k \<le> unat (- d)"
    using dis by (simp_all add: disjoint_regions_def d_def word_le_nat_alt)
  have d0: "d \<noteq> 0" using nd x by auto
  have neg: "unat (- d) = 2 ^ 64 - unat d"
    using d0 by (simp add: unat_uminus)
  have dy: "unat (d + y) = unat d + unat y"
    using kd y unfolding neg by (intro unat_add_no_ovf) simp
  have le: "x \<le> d + y" using nd x by (simp add: word_le_nat_alt dy)
  have e1: "unat (d + y - x) = unat d + unat y - unat x"
    using le by (simp add: unat_sub dy)
  have ne: "d + y - x \<noteq> 0" using e1 nd x by auto
  have e2: "unat (- (d + y - x)) = 2 ^ 64 - (unat d + unat y - unat x)"
    by (subst unat_uminus [OF ne]) (simp add: e1)
  have r1: "(b + y) - (a + x) = d + y - x" and r2: "(a + x) - (b + y) = - (d + y - x)"
    by (simp_all add: d_def)
  show ?thesis
    unfolding sep8_def r1 r2 word_le_nat_alt e1 e2
    using nd kd x y neg by simp linarith
qed

lemma disjoint_regions_sub:
  assumes dis: "disjoint_regions a n b k" and y: "unat y + unat j \<le> unat k" and j: "0 < unat j"
  shows "disjoint_regions a n (b + y) j"
proof -
  define d where "d = b - a"
  have nd: "unat n \<le> unat d" and kd: "unat k \<le> unat (- d)"
    using dis by (simp_all add: disjoint_regions_def d_def word_le_nat_alt)
  have d0: "d \<noteq> 0" using kd y j by auto
  have neg: "unat (- d) = 2 ^ 64 - unat d"
    using d0 by (simp add: unat_uminus)
  have lt: "unat d + unat y + unat j \<le> 2 ^ 64"
    using kd y unat_bound [of d] unfolding neg by simp
  have dy: "unat (d + y) = unat d + unat y"
    using lt j by (intro unat_add_no_ovf) simp
  have ne: "d + y \<noteq> 0" using d0 dy by (metis add_is_0 unat_eq_0)
  have r: "b + y - a = d + y" "a - (b + y) = - (d + y)" by (simp_all add: d_def)
  show ?thesis
    unfolding disjoint_regions_def r word_le_nat_alt unat_uminus [OF ne] dy
    using nd lt by simp
qed

lemma disjoint_regions_sep8_0:
  assumes "disjoint_regions a n b k" "8 \<le> unat n" "8 \<le> unat k"
  shows "sep8 a b"
  using disjoint_regions_sep8 [OF assms(1), of 0 0] assms(2,3) by simp

section \<open>Processor state\<close>

datatype reg = RAX | RCX | RDX | RBX | RSP | RBP | RSI | RDI
  | R8 | R9 | R10 | R11 | R12 | R13 | R14 | R15

record cpu =
  regs :: "reg \<Rightarrow> u64"
  rflags :: u64
  rip :: u64
  mem :: memory

definition IF_BIT :: nat where "IF_BIT = 9"

definition set_flag :: "nat \<Rightarrow> bool \<Rightarrow> u64 \<Rightarrow> u64" where
  "set_flag n b f = (if b then set_bit n f else unset_bit n f)"

lemma bit_set_flag_IF [simp]: "bit (set_flag IF_BIT b f) IF_BIT \<longleftrightarrow> b"
  by (simp add: set_flag_def IF_BIT_def bit_simps)

definition set_reg :: "reg \<Rightarrow> u64 \<Rightarrow> cpu \<Rightarrow> cpu" where
  "set_reg r v s = s\<lparr>regs := (regs s)(r := v)\<rparr>"

definition store :: "u64 \<Rightarrow> u64 \<Rightarrow> cpu \<Rightarrow> cpu" where
  "store a v s = s\<lparr>mem := write64 (mem s) a v\<rparr>"

definition push :: "u64 \<Rightarrow> cpu \<Rightarrow> cpu" where
  "push v s = store (regs s RSP - 8) v (set_reg RSP (regs s RSP - 8) s)"

definition pop :: "cpu \<Rightarrow> u64 \<times> cpu" where
  "pop s = (read64 (mem s) (regs s RSP), set_reg RSP (regs s RSP + 8) s)"

section \<open>Instructions\<close>

datatype instr =
    PushR reg
  | PopR reg
  | PushM reg u64 \<comment> \<open>\<open>push qword ptr [r + d]\<close>\<close>
  | PopM reg u64 \<comment> \<open>\<open>pop qword ptr [r + d]\<close>\<close>
  | Pushfq
  | Popfq
  | Cli
  | Sti
  | MovStore reg u64 reg \<comment> \<open>\<open>mov [r + d], s\<close>\<close>
  | MovLoad reg reg u64 \<comment> \<open>\<open>mov r, [s + d]\<close>\<close>
  | MovReg reg reg
  | BtrTop nat \<comment> \<open>\<open>btr qword ptr [rsp], n\<close>\<close>
  | Ret
  | Iretq \<comment> \<open>same privilege level: \<open>cs\<close> and \<open>ss\<close> are popped and not modelled further\<close>

fun step :: "instr \<Rightarrow> cpu \<Rightarrow> cpu" where
  "step (PushR r) s = push (regs s r) s"
| "step (PopR r) s = (let (v, s') = pop s in set_reg r v s')"
| "step (PushM r d) s = push (read64 (mem s) (regs s r + d)) s"
| "step (PopM r d) s = (let (v, s') = pop s in store (regs s' r + d) v s')"
| "step Pushfq s = push (rflags s) s"
| "step Popfq s = (let (v, s') = pop s in s'\<lparr>rflags := v\<rparr>)"
| "step Cli s = s\<lparr>rflags := set_flag IF_BIT False (rflags s)\<rparr>"
| "step Sti s = s\<lparr>rflags := set_flag IF_BIT True (rflags s)\<rparr>"
| "step (MovStore r d q) s = store (regs s r + d) (regs s q) s"
| "step (MovLoad r q d) s = set_reg r (read64 (mem s) (regs s q + d)) s"
| "step (MovReg r q) s = set_reg r (regs s q) s"
| "step (BtrTop n) s =
     (let a = regs s RSP; v = read64 (mem s) a
      in (store a (unset_bit n v) s)\<lparr>rflags := set_flag 0 (bit v n) (rflags s)\<rparr>)"
| "step Ret s = (let (v, s') = pop s in s'\<lparr>rip := v\<rparr>)"
| "step Iretq s =
     (let sp = regs s RSP; m = mem s
      in (set_reg RSP (read64 m (sp + 24)) s)\<lparr>rip := read64 m sp, rflags := read64 m (sp + 16)\<rparr>)"

primrec exec :: "instr list \<Rightarrow> cpu \<Rightarrow> cpu" where
  "exec [] s = s"
| "exec (i # is) s = exec is (step i s)"

lemma exec_append: "exec (is @ js) s = exec js (exec is s)"
  by (induction "is" arbitrary: s) simp_all

lemmas cpu_defs = set_reg_def store_def push_def pop_def

end
