(* ===== verification/Context.thy ===== *)
theory Context
  imports Machine
begin

text \<open>
  \<open>src/thread/context.rs\<close>: the saved register state of a kernel thread and the two naked
  functions that switch between threads. \<open>ThreadContext\<close> is a \<open>repr(C)\<close> struct of
  eighteen \<open>u64\<close> fields; the assembly addresses it by byte offset, so the model reads it
  out of memory at those offsets. The assembly is transcribed instruction by instruction and run on
  the machine of theory \<open>Machine\<close>.
\<close>

section \<open>The struct\<close>

record ThreadContext =
  ctx_rsp :: u64
  ctx_rip :: u64
  ctx_rbx :: u64
  ctx_rbp :: u64
  ctx_r12 :: u64
  ctx_r13 :: u64
  ctx_r14 :: u64
  ctx_r15 :: u64
  ctx_rax :: u64
  ctx_rcx :: u64
  ctx_rdx :: u64
  ctx_rsi :: u64
  ctx_rdi :: u64
  ctx_r8 :: u64
  ctx_r9 :: u64
  ctx_r10 :: u64
  ctx_r11 :: u64
  ctx_rflags :: u64

definition default_context :: ThreadContext where
  "default_context = \<lparr>ctx_rsp = 0, ctx_rip = 0,
     ctx_rbx = 0, ctx_rbp = 0, ctx_r12 = 0, ctx_r13 = 0, ctx_r14 = 0, ctx_r15 = 0,
     ctx_rax = 0, ctx_rcx = 0, ctx_rdx = 0, ctx_rsi = 0, ctx_rdi = 0,
     ctx_r8 = 0, ctx_r9 = 0, ctx_r10 = 0, ctx_r11 = 0,
     ctx_rflags = 0x202\<rparr>"

text \<open>The size of the struct in bytes.\<close>

definition CTX_SIZE :: u64 where "CTX_SIZE = 144"

definition read_ctx :: "memory \<Rightarrow> u64 \<Rightarrow> ThreadContext" where
  "read_ctx m p = \<lparr>ctx_rsp = read64 m p, ctx_rip = read64 m (p + 8),
     ctx_rbx = read64 m (p + 16), ctx_rbp = read64 m (p + 24),
     ctx_r12 = read64 m (p + 32), ctx_r13 = read64 m (p + 40),
     ctx_r14 = read64 m (p + 48), ctx_r15 = read64 m (p + 56),
     ctx_rax = read64 m (p + 64), ctx_rcx = read64 m (p + 72),
     ctx_rdx = read64 m (p + 80), ctx_rsi = read64 m (p + 88),
     ctx_rdi = read64 m (p + 96), ctx_r8 = read64 m (p + 104),
     ctx_r9 = read64 m (p + 112), ctx_r10 = read64 m (p + 120),
     ctx_r11 = read64 m (p + 128), ctx_rflags = read64 m (p + 136)\<rparr>"

text \<open>Stores to a struct at \<open>p\<close>, each given by its byte offset.\<close>

definition store_fields :: "memory \<Rightarrow> u64 \<Rightarrow> (u64 \<times> u64) list \<Rightarrow> memory" where
  "store_fields m p fs = foldl (\<lambda>m' (d, v). write64 m' (p + d) v) m fs"

definition ctx_fields :: "ThreadContext \<Rightarrow> (u64 \<times> u64) list" where
  "ctx_fields c =
     [(0, ctx_rsp c), (8, ctx_rip c), (16, ctx_rbx c), (24, ctx_rbp c),
      (32, ctx_r12 c), (40, ctx_r13 c), (48, ctx_r14 c), (56, ctx_r15 c),
      (64, ctx_rax c), (72, ctx_rcx c), (80, ctx_rdx c), (88, ctx_rsi c),
      (96, ctx_rdi c), (104, ctx_r8 c), (112, ctx_r9 c), (120, ctx_r10 c),
      (128, ctx_r11 c), (136, ctx_rflags c)]"

definition write_ctx :: "memory \<Rightarrow> u64 \<Rightarrow> ThreadContext \<Rightarrow> memory" where
  "write_ctx m p c = store_fields m p (ctx_fields c)"

lemma store_fields_frame:
  assumes "\<And>d v. (d, v) \<in> set fs \<Longrightarrow> sep8 (p + d) a"
  shows "read64 (store_fields m p fs) a = read64 m a"
  using assms
proof (induction fs arbitrary: m)
  case Nil
  then show ?case by (simp add: store_fields_def)
next
  case (Cons f fs)
  obtain d v where f: "f = (d, v)" by (cases f)
  have "read64 (store_fields (write64 m (p + d) v) p fs) a = read64 (write64 m (p + d) v) a"
    using Cons by (intro Cons.IH) auto
  also have "\<dots> = read64 m a"
    using Cons.prems f by (intro read64_write64_sep) auto
  finally show ?case by (simp add: f store_fields_def)
qed

lemma store_fields_disjoint:
  assumes dis: "disjoint_regions p n a k"
    and fields: "\<And>d v. (d, v) \<in> set fs \<Longrightarrow> unat d + 8 \<le> unat n"
    and x: "unat x + 8 \<le> unat k"
  shows "read64 (store_fields m p fs) (a + x) = read64 m (a + x)"
  by (rule store_fields_frame) (auto intro: disjoint_regions_sep8 [OF dis] fields x)

lemma read_ctx_write_ctx [simp]: "read_ctx (write_ctx m p c) p = c"
  by (cases c) (simp add: read_ctx_def write_ctx_def store_fields_def ctx_fields_def
    read64_write64_sep sep8_def)

lemma write_ctx_disjoint:
  assumes "disjoint_regions p CTX_SIZE a k" and "unat x + 8 \<le> unat k"
  shows "read64 (write_ctx m p c) (a + x) = read64 m (a + x)"
  unfolding write_ctx_def
  by (rule store_fields_disjoint [OF assms(1) _ assms(2)]) (auto simp: ctx_fields_def CTX_SIZE_def)

section \<open>The assembly\<close>

definition save_old :: "instr list" where
  "save_old =
    [Pushfq,
     PopM RDI 136,
     Cli,
     MovStore RDI 0 RSP,
     MovLoad RAX RSP 0,
     MovStore RDI 8 RAX,
     MovStore RDI 16 RBX,
     MovStore RDI 24 RBP,
     MovStore RDI 32 R12,
     MovStore RDI 40 R13,
     MovStore RDI 48 R14,
     MovStore RDI 56 R15,
     MovReg RDI RSI]"

definition context_switch_to :: "instr list" where
  "context_switch_to =
    [MovLoad RSP RDI 0,
     MovLoad RBX RDI 16,
     MovLoad RBP RDI 24,
     MovLoad R12 RDI 32,
     MovLoad R13 RDI 40,
     MovLoad R14 RDI 48,
     MovLoad R15 RDI 56,
     MovLoad RAX RDI 64,
     MovLoad RCX RDI 72,
     MovLoad RDX RDI 80,
     MovLoad RSI RDI 88,
     MovLoad R8 RDI 104,
     MovLoad R9 RDI 112,
     MovLoad R10 RDI 120,
     MovLoad R11 RDI 128,
     PushM RDI 136,
     BtrTop 9,
     Popfq,
     MovLoad RDI RDI 96,
     Sti,
     Ret]"

text \<open>
  \<open>context_switch\<close> is the save sequence followed, in the source too, by the same restore
  sequence as \<open>context_switch_to\<close>.
\<close>

definition context_switch :: "instr list" where
  "context_switch = save_old @ context_switch_to"

section \<open>What the restore sequence leaves in the registers\<close>

definition restored :: "ThreadContext \<Rightarrow> reg \<Rightarrow> u64" where
  "restored c r = (case r of RAX \<Rightarrow> ctx_rax c | RCX \<Rightarrow> ctx_rcx c | RDX \<Rightarrow> ctx_rdx c
     | RBX \<Rightarrow> ctx_rbx c | RSP \<Rightarrow> ctx_rsp c + 8 | RBP \<Rightarrow> ctx_rbp c | RSI \<Rightarrow> ctx_rsi c
     | RDI \<Rightarrow> ctx_rdi c | R8 \<Rightarrow> ctx_r8 c | R9 \<Rightarrow> ctx_r9 c | R10 \<Rightarrow> ctx_r10 c
     | R11 \<Rightarrow> ctx_r11 c | R12 \<Rightarrow> ctx_r12 c | R13 \<Rightarrow> ctx_r13 c | R14 \<Rightarrow> ctx_r14 c
     | R15 \<Rightarrow> ctx_r15 c)"

text \<open>
  The cell the flag restore uses lies just below the stack pointer that is restored; it must not
  overlap the struct.
\<close>

definition resume_ok :: "memory \<Rightarrow> u64 \<Rightarrow> bool" where
  "resume_ok m p \<longleftrightarrow> disjoint_regions p CTX_SIZE (ctx_rsp (read_ctx m p) - 8) 8"

lemma read_ctx_frame:
  assumes "disjoint_regions p CTX_SIZE a 8"
  shows "read_ctx (write64 m a v) p = read_ctx m p"
proof -
  have "sep8 a (p + x)" if "unat x + 8 \<le> 144" for x
    using disjoint_regions_sep8 [OF assms, of x 0] that by (simp add: CTX_SIZE_def sep8_commute)
  then have "read64 (write64 m a v) (p + x) = read64 m (p + x)" if "unat x + 8 \<le> 144" for x
    using that by (simp add: read64_write64_sep)
  from this [of 0] this show ?thesis by (simp add: read_ctx_def)
qed

lemma context_switch_to_restores:
  assumes ok: "resume_ok (mem s) (regs s RDI)"
  defines "c \<equiv> read_ctx (mem s) (regs s RDI)"
  shows "exec context_switch_to s =
    s\<lparr>regs := restored c,
      rflags := set_flag IF_BIT True (unset_bit 9 (ctx_rflags c)),
      rip := read64 (mem s) (ctx_rsp c),
      mem := write64 (write64 (mem s) (ctx_rsp c - 8) (ctx_rflags c))
               (ctx_rsp c - 8) (unset_bit 9 (ctx_rflags c))\<rparr>"
proof -
  let ?p = "regs s RDI" and ?sp = "read64 (mem s) (regs s RDI)"
  have c: "ctx_rsp c = ?sp" by (simp add: c_def read_ctx_def)
  have "sep8 (?sp - 8) (?p + x)" if "unat x + 8 \<le> 144" for x
    using disjoint_regions_sep8 [OF ok [unfolded resume_ok_def], of x 0] that
    by (simp add: CTX_SIZE_def sep8_commute read_ctx_def)
  then have rd: "read64 (write64 m (?sp - 8) v) (?p + x) = read64 m (?p + x)"
    if "unat x + 8 \<le> 144" for x m v
    using that by (simp add: read64_write64_sep)
  have rd': "read64 (write64 m (?sp - 8) v) ?sp = read64 m ?sp" for m v
    by (rule read64_write64_sep) (simp add: sep8_def)
  have regs: "restored c = (regs s)(RSP := ?sp + 8, RBX := ctx_rbx c, RBP := ctx_rbp c, R12 := ctx_r12 c,
     R13 := ctx_r13 c, R14 := ctx_r14 c, R15 := ctx_r15 c, RAX := ctx_rax c, RCX := ctx_rcx c,
     RDX := ctx_rdx c, RSI := ctx_rsi c, R8 := ctx_r8 c, R9 := ctx_r9 c, R10 := ctx_r10 c,
     R11 := ctx_r11 c, RDI := ctx_rdi c)"
    by (rule ext) (simp add: restored_def c split: reg.split)
  show ?thesis
    unfolding regs by (simp add: context_switch_to_def cpu_defs Let_def rd rd' c_def read_ctx_def fun_upd_twist)
qed


section \<open>What the save sequence leaves in memory\<close>

text \<open>The struct fields a cooperative switch writes, in the order of the stores.\<close>

definition saved_fields :: "cpu \<Rightarrow> (u64 \<times> u64) list" where
  "saved_fields s = [(136, rflags s), (0, regs s RSP), (8, read64 (mem s) (regs s RSP)),
     (16, regs s RBX), (24, regs s RBP), (32, regs s R12), (40, regs s R13),
     (48, regs s R14), (56, regs s R15)]"

text \<open>The struct lies outside the two stack cells around the stack pointer.\<close>

definition save_ok :: "cpu \<Rightarrow> bool" where
  "save_ok s \<longleftrightarrow> disjoint_regions (regs s RDI) CTX_SIZE (regs s RSP - 8) 16"

lemma save_ok_sep8:
  assumes "save_ok s" and "unat x + 8 \<le> 144"
  shows "sep8 (regs s RDI + x) (regs s RSP - 8)" and "sep8 (regs s RDI + x) (regs s RSP)"
  using disjoint_regions_sep8 [OF assms(1) [unfolded save_ok_def], of x 0]
    disjoint_regions_sep8 [OF assms(1) [unfolded save_ok_def], of x 8] assms(2)
  by (simp_all add: CTX_SIZE_def)

lemma save_old_saves:
  assumes ok: "save_ok s"
  shows "exec save_old s =
    s\<lparr>regs := (regs s)(RAX := read64 (mem s) (regs s RSP), RDI := regs s RSI),
      rflags := set_flag IF_BIT False (rflags s),
      mem := store_fields (write64 (mem s) (regs s RSP - 8) (rflags s)) (regs s RDI) (saved_fields s)\<rparr>"
proof -
  have rd: "read64 (write64 m (regs s RDI + x) v) (regs s RSP) = read64 m (regs s RSP)"
    if "unat x + 8 \<le> 144" for x m v
    using save_ok_sep8 [OF ok that] by (simp add: read64_write64_sep)
  have rd': "read64 (write64 m (regs s RSP - 8) v) (regs s RSP) = read64 m (regs s RSP)" for m v
    by (rule read64_write64_sep) (simp add: sep8_def)
  show ?thesis
    using rd [of 0]
    by (simp add: save_old_def cpu_defs Let_def rd rd' store_fields_def saved_fields_def fun_upd_twist)
qed


text \<open>The context a cooperative switch leaves behind: the caller-saved fields keep their old values.\<close>

definition saved_ctx :: "cpu \<Rightarrow> ThreadContext \<Rightarrow> ThreadContext" where
  "saved_ctx s c = c\<lparr>ctx_rsp := regs s RSP, ctx_rip := read64 (mem s) (regs s RSP),
     ctx_rbx := regs s RBX, ctx_rbp := regs s RBP, ctx_r12 := regs s R12, ctx_r13 := regs s R13,
     ctx_r14 := regs s R14, ctx_r15 := regs s R15, ctx_rflags := rflags s\<rparr>"

lemma read_ctx_store_fields:
  "read_ctx (store_fields m p (saved_fields s)) p = saved_ctx s (read_ctx m p)"
  by (simp add: read_ctx_def store_fields_def saved_fields_def saved_ctx_def read64_write64_sep sep8_def)

lemma read64_saved_fields_disjoint:
  assumes "disjoint_regions p CTX_SIZE a k" and "unat x + 8 \<le> unat k"
  shows "read64 (store_fields m p (saved_fields s)) (a + x) = read64 m (a + x)"
  by (rule store_fields_disjoint [OF assms(1) _ assms(2)]) (auto simp: saved_fields_def CTX_SIZE_def)

lemma read_ctx_saved_fields_disjoint:
  assumes "disjoint_regions p CTX_SIZE q CTX_SIZE"
  shows "read_ctx (store_fields m p (saved_fields s)) q = read_ctx m q"
proof -
  have "read64 (store_fields m p (saved_fields s)) (q + x) = read64 m (q + x)"
    if "unat x + 8 \<le> 144" for x
    using read64_saved_fields_disjoint [OF assms, of x] that by (simp add: CTX_SIZE_def)
  from this [of 0] this show ?thesis by (simp add: read_ctx_def)
qed

section \<open>The switch\<close>

text \<open>
  The layout a switch from the struct at \<open>rdi\<close> to the struct at \<open>rsi\<close> relies on:
  the two structs are distinct allocations, neither lies on a stack cell the switch writes or
  reads, and the two stacks are distinct.
\<close>

definition switch_ok :: "cpu \<Rightarrow> bool" where
  "switch_ok s \<longleftrightarrow>
     (let old = regs s RDI; new = regs s RSI; sp = regs s RSP; nsp = ctx_rsp (read_ctx (mem s) new)
      in save_ok s \<and> resume_ok (mem s) new
       \<and> disjoint_regions old CTX_SIZE new CTX_SIZE
       \<and> disjoint_regions new CTX_SIZE (sp - 8) 8
       \<and> disjoint_regions old CTX_SIZE (nsp - 8) 16
       \<and> sep8 (sp - 8) nsp)"

text \<open>After the save sequence the target context and its return slot are still there.\<close>

lemma save_old_keeps_target:
  assumes ok: "switch_ok s"
  defines "c \<equiv> read_ctx (mem s) (regs s RSI)"
  shows "read_ctx (mem (exec save_old s)) (regs s RSI) = c"
    and "read64 (mem (exec save_old s)) (ctx_rsp c) = read64 (mem s) (ctx_rsp c)"
proof -
  have sv: "save_ok s" using ok by (simp add: switch_ok_def Let_def)
  show "read_ctx (mem (exec save_old s)) (regs s RSI) = c"
    using ok by (simp add: save_old_saves [OF sv] c_def switch_ok_def Let_def
      read_ctx_saved_fields_disjoint read_ctx_frame)
  have "disjoint_regions (regs s RDI) CTX_SIZE (ctx_rsp c - 8) 16"
    using ok by (simp add: switch_ok_def Let_def c_def)
  from read64_saved_fields_disjoint [OF this, of 8]
  show "read64 (mem (exec save_old s)) (ctx_rsp c) = read64 (mem s) (ctx_rsp c)"
    using ok by (simp add: save_old_saves [OF sv] switch_ok_def Let_def c_def read64_write64_sep)
qed

lemma context_switch_state:
  assumes ok: "switch_ok s"
  defines "c \<equiv> read_ctx (mem s) (regs s RSI)" and "m \<equiv> mem (exec save_old s)"
  shows "exec context_switch s = s\<lparr>regs := restored c,
      rflags := set_flag IF_BIT True (unset_bit 9 (ctx_rflags c)),
      rip := read64 (mem s) (ctx_rsp c),
      mem := write64 (write64 m (ctx_rsp c - 8) (ctx_rflags c)) (ctx_rsp c - 8) (unset_bit 9 (ctx_rflags c))\<rparr>"
proof -
  let ?s1 = "exec save_old s"
  have sv: "save_ok s" using ok by (simp add: switch_ok_def Let_def)
  note keeps = save_old_keeps_target [OF ok, folded c_def]
  have rdi: "regs ?s1 RDI = regs s RSI" by (simp add: save_old_saves [OF sv])
  have rs: "resume_ok (mem ?s1) (regs ?s1 RDI)"
    using ok keeps by (simp add: resume_ok_def rdi switch_ok_def Let_def c_def)
  show ?thesis
    unfolding context_switch_def exec_append context_switch_to_restores [OF rs] m_def
    by (simp add: rdi keeps)
qed

lemma context_switch_saves:
  assumes ok: "switch_ok s"
  shows "read_ctx (mem (exec context_switch s)) (regs s RDI) = saved_ctx s (read_ctx (mem s) (regs s RDI))"
proof -
  let ?nsp = "ctx_rsp (read_ctx (mem s) (regs s RSI))"
  have sv: "save_ok s" using ok by (simp add: switch_ok_def Let_def)
  have "disjoint_regions (regs s RDI) CTX_SIZE (regs s RSP - 8) 8"
    using disjoint_regions_mono [OF sv [unfolded save_ok_def], of CTX_SIZE 8] by simp
  moreover have "disjoint_regions (regs s RDI) CTX_SIZE (?nsp - 8) 8"
    using ok disjoint_regions_mono [of "regs s RDI" CTX_SIZE "?nsp - 8" 16 CTX_SIZE 8]
    by (simp add: switch_ok_def Let_def)
  ultimately show ?thesis
    by (simp add: context_switch_state [OF ok] save_old_saves [OF sv] read_ctx_store_fields read_ctx_frame)
qed

text \<open>Everything outside the old struct and the two scratch cells below the stack pointers stays.\<close>

lemma context_switch_frame:
  assumes ok: "switch_ok s"
    and "disjoint_regions (regs s RDI) CTX_SIZE a 8"
    and "sep8 (regs s RSP - 8) a"
    and "sep8 (ctx_rsp (read_ctx (mem s) (regs s RSI)) - 8) a"
  shows "read64 (mem (exec context_switch s)) a = read64 (mem s) a"
proof -
  have sv: "save_ok s" using ok by (simp add: switch_ok_def Let_def)
  show ?thesis
    using assms(2-4) read64_saved_fields_disjoint [OF assms(2), of 0]
    by (simp add: context_switch_state [OF ok] save_old_saves [OF sv] read64_write64_sep)
qed

text \<open>
  C1. A cooperative switch stores the caller's stack pointer, return address, callee-saved
  registers and flags into the old struct and leaves the caller-saved fields of that struct alone;
  it loads every register from the new struct, resumes at the address on top of the new
  stack and always ends with interrupts enabled; outside the old struct and
  one scratch cell below each stack pointer it writes no memory.
\<close>

theorem context_switch_correct:
  assumes ok: "switch_ok s"
  defines "c \<equiv> read_ctx (mem s) (regs s RSI)" and "s' \<equiv> exec context_switch s"
  shows "read_ctx (mem s') (regs s RDI) = saved_ctx s (read_ctx (mem s) (regs s RDI))
    \<and> regs s' = restored c
    \<and> rip s' = read64 (mem s) (ctx_rsp c)
    \<and> rflags s' = set_flag IF_BIT True (unset_bit 9 (ctx_rflags c))
    \<and> bit (rflags s') IF_BIT
    \<and> (\<forall>a. disjoint_regions (regs s RDI) CTX_SIZE a 8 \<and> sep8 (regs s RSP - 8) a
          \<and> sep8 (ctx_rsp c - 8) a \<longrightarrow> read64 (mem s') a = read64 (mem s) a)"
  unfolding s'_def c_def
  by (auto simp: context_switch_saves [OF ok] context_switch_frame [OF ok])
    (simp_all add: context_switch_state [OF ok])

text \<open>A switch between two contexts at fixed addresses, the target resuming at \<open>0x401000\<close>.\<close>

definition demo_mem :: memory where
  "demo_mem = write64 (write_ctx (\<lambda>_. 0) 0x2000
     (default_context\<lparr>ctx_rsp := 0x9000, ctx_rbx := 7, ctx_rdi := 0x1000\<rparr>)) 0x9000 0x401000"

definition demo_cpu :: cpu where
  "demo_cpu = \<lparr>regs = (\<lambda>_. 3)(RDI := 0x1000, RSI := 0x2000, RSP := 0x8000),
     rflags = 0x246, rip = 0x400000, mem = demo_mem\<rparr>"

lemmas demo_defs = demo_cpu_def demo_mem_def

lemma demo_target:
  "read_ctx (mem demo_cpu) 0x2000 =
     default_context\<lparr>ctx_rsp := 0x9000, ctx_rbx := 7, ctx_rdi := 0x1000\<rparr>"
  "read64 (mem demo_cpu) 0x9000 = 0x401000"
  by (simp_all add: demo_defs write_ctx_def store_fields_def ctx_fields_def read_ctx_def default_context_def read64_write64_sep sep8_def)

lemma demo_regs:
  "regs demo_cpu RDI = 0x1000" "regs demo_cpu RSI = 0x2000" "regs demo_cpu RSP = 0x8000"
  "regs demo_cpu R12 = 3"
  by (simp_all add: demo_cpu_def)

lemma demo_switch_ok: "switch_ok demo_cpu"
  using demo_target
  by (simp add: switch_ok_def save_ok_def resume_ok_def disjoint_regions_def CTX_SIZE_def sep8_def demo_cpu_def)

theorem context_switch_correct_witness:
  "switch_ok demo_cpu \<and> rip (exec context_switch demo_cpu) = 0x401000
   \<and> regs (exec context_switch demo_cpu) RBX = 7
   \<and> regs (exec context_switch demo_cpu) RSP = 0x9008
   \<and> ctx_rsp (read_ctx (mem (exec context_switch demo_cpu)) 0x1000) = 0x8000
   \<and> bit (rflags (exec context_switch demo_cpu)) IF_BIT"
  using context_switch_correct [OF demo_switch_ok] demo_switch_ok
  by (simp add: demo_regs demo_target restored_def saved_ctx_def)


text \<open>
  C2. A thread that gave up the processor with \<open>context_switch\<close> gets it back intact: whatever ran
  meanwhile, as long as the saved struct and the return slot on the thread's own stack
  were left alone, \<open>context_switch_to\<close> on that struct resumes at the return address
  of the original call, with the stack pointer just above it and every callee-saved
  register as it was.
\<close>

theorem context_switch_round_trip:
  assumes ok: "switch_ok s"
    and ptr: "regs t RDI = regs s RDI"
    and ctx: "read_ctx (mem t) (regs s RDI) = read_ctx (mem (exec context_switch s)) (regs s RDI)"
    and ret: "read64 (mem t) (regs s RSP) = read64 (mem s) (regs s RSP)"
  defines "t' \<equiv> exec context_switch_to t"
  shows "rip t' = read64 (mem s) (regs s RSP)
    \<and> regs t' RSP = regs s RSP + 8
    \<and> (\<forall>r \<in> {RBX, RBP, R12, R13, R14, R15}. regs t' r = regs s r)
    \<and> rflags t' = set_flag IF_BIT True (unset_bit 9 (rflags s))"
proof -
  let ?c = "saved_ctx s (read_ctx (mem s) (regs s RDI))"
  have sv: "save_ok s" using ok by (simp add: switch_ok_def Let_def)
  have c: "read_ctx (mem t) (regs s RDI) = ?c"
    using ctx context_switch_saves [OF ok] by simp
  have "disjoint_regions (regs s RDI) CTX_SIZE (regs s RSP - 8) 8"
    using disjoint_regions_mono [OF sv [unfolded save_ok_def], of CTX_SIZE 8] by simp
  then have rs: "resume_ok (mem t) (regs t RDI)"
    by (simp add: resume_ok_def ptr c saved_ctx_def)
  show ?thesis
    unfolding t'_def context_switch_to_restores [OF rs]
    by (simp add: ptr c saved_ctx_def restored_def ret)
qed

lemma demo_return_slot: "read64 (mem (exec context_switch demo_cpu)) 0x8000 = read64 (mem demo_cpu) 0x8000"
  by (rule context_switch_frame [OF demo_switch_ok])
    (simp_all add: demo_regs demo_target disjoint_regions_def CTX_SIZE_def sep8_def)

theorem context_switch_round_trip_witness:
  "switch_ok demo_cpu
   \<and> rip (exec context_switch_to (exec context_switch demo_cpu)) = read64 (mem demo_cpu) 0x8000
   \<and> regs (exec context_switch_to (exec context_switch demo_cpu)) RSP = 0x8008
   \<and> regs (exec context_switch_to (exec context_switch demo_cpu)) R12 = 3"
proof -
  have rdi: "regs (exec context_switch demo_cpu) RDI = regs demo_cpu RDI"
    by (simp add: context_switch_state [OF demo_switch_ok] restored_def demo_regs demo_target)
  show ?thesis
    using context_switch_round_trip [OF demo_switch_ok rdi refl] demo_switch_ok
    by (simp add: demo_return_slot demo_regs)
qed

end
