(* ===== verification/Kernel_Stack.thy ===== *)
theory Kernel_Stack
  imports Context
begin

text \<open>
  \<open>src/thread/stack.rs\<close>: a heap-allocated kernel stack, its canary, the initial stack
  pointer and the preparation of a context for first entry. The address of the storage is the one the
  global allocator returned, an argument of the constructor.
\<close>

definition STACK_SIZE :: usize where "STACK_SIZE = 16 * 1024"

definition STACK_ALIGN :: usize where "STACK_ALIGN = 16"

definition CANARY :: u64 where "CANARY = 0xDEADC0DEDEADC0DE"

record KernelStack =
  storage_ptr :: u64
  storage_len :: usize

definition zero_fill :: "memory \<Rightarrow> u64 \<Rightarrow> usize \<Rightarrow> memory" where
  "zero_fill m p n = (\<lambda>x. if x - p < n then 0 else m x)"

definition write_canary :: "KernelStack \<Rightarrow> memory \<Rightarrow> memory" where
  "write_canary k m = (if 8 \<le> storage_len k then write64 m (storage_ptr k) CANARY else m)"

definition with_size :: "u64 \<Rightarrow> usize \<Rightarrow> memory \<Rightarrow> KernelStack \<times> memory" where
  "with_size p sz m =
     (let k = \<lparr>storage_ptr = p, storage_len = sz\<rparr> in (k, write_canary k (zero_fill m p sz)))"

definition new_stack :: "u64 \<Rightarrow> memory \<Rightarrow> KernelStack \<times> memory" where
  "new_stack p m = with_size p STACK_SIZE m"

definition check_canary :: "KernelStack \<Rightarrow> memory \<Rightarrow> bool" where
  "check_canary k m = (if storage_len k < 8 then True else read64 m (storage_ptr k) = CANARY)"

definition stack_top :: "KernelStack \<Rightarrow> u64 res" where
  "stack_top k = rbind (add_ovf (storage_ptr k) (storage_len k))
     (\<lambda>end. sub_ovf (end AND NOT STACK_ALIGN) 16)"

definition init_context ::
  "KernelStack \<Rightarrow> memory \<Rightarrow> ThreadContext \<Rightarrow> u64 \<Rightarrow> (memory \<times> ThreadContext) res" where
  "init_context k m ctx entry = rbind (stack_top k) (\<lambda>t. Inr (write64 m t entry,
     ctx\<lparr>ctx_rsp := t, ctx_rip := entry, ctx_rbx := 0, ctx_rbp := 0,
         ctx_r12 := 0, ctx_r13 := 0, ctx_r14 := 0, ctx_r15 := 0\<rparr>))"

section \<open>The initial stack pointer\<close>

lemma and_not_align: "x AND NOT STACK_ALIGN = x - (if bit x 4 then 16 else 0)"
proof -
  have "x AND NOT STACK_ALIGN = unset_bit 4 x"
    by (simp add: unset_bit_eq_and_not STACK_ALIGN_def)
  then show ?thesis by (simp add: unset_bit_eq)
qed

lemma and_not_align_unat:
  "unat (x AND NOT STACK_ALIGN) = unat x - (if bit x 4 then 16 else 0)"
proof -
  have "16 \<le> x" if "bit x 4"
    using bit_unat_ge [OF that] by (simp add: word_le_nat_alt)
  then show ?thesis by (simp add: and_not_align unat_sub)
qed

text \<open>The top lies 16 or 32 bytes below the end of the storage, whatever the end is.\<close>

lemma top_eq:
  assumes "stack_top k = Inr t"
  shows "\<exists>d \<in> {16, 32}. unat t + d = unat (storage_ptr k) + unat (storage_len k)"
proof -
  obtain e where e: "add_ovf (storage_ptr k) (storage_len k) = Inr e"
    and t: "sub_ovf (e AND NOT STACK_ALIGN) 16 = Inr t"
    using assms by (auto simp: stack_top_def elim: rbind_eq_InrE)
  have "16 \<le> unat (e AND NOT STACK_ALIGN)"
    using t by (simp add: sub_ovf_eq_Inr word_le_nat_alt)
  then show ?thesis
    using add_ovf_unat [OF e] sub_ovf_unat [OF t] bit_unat_ge [of e 4]
    by (auto simp: and_not_align_unat split: if_splits)
qed

lemma top_total:
  assumes "unat (storage_ptr k) + unat (storage_len k) < 2 ^ 64" and "32 \<le> unat (storage_len k)"
  shows "\<exists>t. stack_top k = Inr t"
proof -
  let ?e = "storage_ptr k + storage_len k"
  have "unat ?e = unat (storage_ptr k) + unat (storage_len k)"
    using assms by (simp add: unat_add_no_ovf)
  then have "16 \<le> ?e AND NOT STACK_ALIGN"
    using assms by (auto simp: word_le_nat_alt and_not_align_unat)
  with assms show ?thesis by (simp add: stack_top_def add_ovf_def sub_ovf_def)
qed

lemma top_bounds:
  assumes "unat (storage_ptr k) + unat (storage_len k) < 2 ^ 64" and "40 \<le> unat (storage_len k)"
  obtains t where "stack_top k = Inr t"
    and "unat (storage_ptr k) + 8 \<le> unat t"
    and "unat t + 16 \<le> unat (storage_ptr k) + unat (storage_len k)"
proof -
  obtain t where t: "stack_top k = Inr t" using top_total [OF assms(1)] assms(2) by auto
  with top_eq [OF t] assms(2) that show ?thesis by auto
qed

text \<open>
  The initial stack pointer of a kernel stack is inside the storage: the return
  slot it points at ends at least 8 bytes below the end of the storage and lies above the eight canary bytes
  at the bottom, for every storage of 40 bytes or more that does not wrap around the address space.
\<close>

theorem stack_top_in_bounds:
  assumes "unat (storage_ptr k) + unat (storage_len k) < 2 ^ 64" and "40 \<le> unat (storage_len k)"
  shows "\<exists>t. stack_top k = Inr t
    \<and> unat (storage_ptr k) + 8 \<le> unat t
    \<and> unat t + 16 \<le> unat (storage_ptr k) + unat (storage_len k)"
  by (rule top_bounds [OF assms]) blast

theorem stack_top_in_bounds_witness:
  "unat (storage_ptr \<lparr>storage_ptr = 0x1000, storage_len = STACK_SIZE\<rparr>)
     + unat (storage_len \<lparr>storage_ptr = 0x1000, storage_len = STACK_SIZE\<rparr>) < 2 ^ 64
   \<and> (\<exists>t. stack_top \<lparr>storage_ptr = 0x1000, storage_len = STACK_SIZE\<rparr> = Inr t \<and> 0x1008 \<le> unat t)"
  using stack_top_in_bounds [of "\<lparr>storage_ptr = 0x1000, storage_len = STACK_SIZE\<rparr>"]
  by (auto simp: STACK_SIZE_def)

text \<open>
  C40. The top of the stack is congruent to the end of the storage modulo 16: masking with the
  complement of the alignment itself clears one bit and aligns nothing, so the
  top is 16-byte aligned exactly when the allocator happened to return storage that ends on
  a 16-byte boundary.
\<close>

theorem stack_top_alignment:
  assumes "stack_top k = Inr t"
  shows "unat t mod 16 = (unat (storage_ptr k) + unat (storage_len k)) mod 16"
proof -
  obtain d where d: "d mod 16 = 0" and eq: "unat t + d = unat (storage_ptr k) + unat (storage_len k)"
    using top_eq [OF assms] by force
  show ?thesis by (simp add: eq [symmetric] mod_add_eq [symmetric, of "unat t" d 16] d)
qed

theorem stack_top_alignment_witness:
  "stack_top \<lparr>storage_ptr = 0x1008, storage_len = STACK_SIZE\<rparr> = Inr 0x4FF8
   \<and> unat (0x4FF8 :: u64) mod 16 = 8"
proof -
  have t: "stack_top \<lparr>storage_ptr = 0x1008, storage_len = STACK_SIZE\<rparr> = Inr 0x4FF8"
    by (simp add: stack_top_def add_ovf_def sub_ovf_def STACK_SIZE_def STACK_ALIGN_def)
  show ?thesis using t stack_top_alignment [OF t] by (simp add: STACK_SIZE_def)
qed

section \<open>First entry\<close>

lemma top_sep_canary:
  assumes "stack_top k = Inr t" and "40 \<le> unat (storage_len k)"
  shows "sep8 t (storage_ptr k)"
proof -
  let ?p = "storage_ptr k"
  obtain d where d: "d = 16 \<or> d = 32" "unat t + d = unat ?p + unat (storage_len k)"
    using top_eq [OF assms(1)] by auto
  have le: "?p \<le> t" and ne: "t - ?p \<noteq> 0"
    using d assms(2) by (auto simp: word_le_nat_alt)
  have "unat (t - ?p) = unat (storage_len k) - d"
    using d le by (simp add: unat_sub)
  moreover from this have "unat (?p - t) = 2 ^ 64 - (unat (storage_len k) - d)"
    using unat_uminus [OF ne] by simp
  moreover have "unat (storage_len k) < 2 ^ 64" using unat_bound [of "storage_len k"] by simp
  ultimately show ?thesis
    using d assms(2) by (auto simp: sep8_def word_le_nat_alt)
qed

text \<open>
  A stack prepared for first entry has its canary intact, holds the entry point in the
  slot the context's stack pointer names, and its context starts with cleared
  callee-saved registers and the other fields as they were.
\<close>

theorem init_context_correct:
  assumes k: "with_size p sz m = (k, m0)" and sz: "40 \<le> unat sz"
    and wrap: "unat p + unat sz < 2 ^ 64"
  shows "\<exists>m1 c t. init_context k m0 ctx entry = Inr (m1, c) \<and> stack_top k = Inr t
    \<and> check_canary k m1
    \<and> c = ctx\<lparr>ctx_rsp := t, ctx_rip := entry, ctx_rbx := 0, ctx_rbp := 0,
            ctx_r12 := 0, ctx_r13 := 0, ctx_r14 := 0, ctx_r15 := 0\<rparr>
    \<and> read64 m1 (ctx_rsp c) = entry"
proof -
  have sk: "storage_ptr k = p" "storage_len k = sz"
    and m0: "m0 = write_canary k (zero_fill m p sz)"
    using k by (auto simp: with_size_def Let_def)
  obtain t where t: "stack_top k = Inr t"
    using top_total [of k] wrap sz by (auto simp: sk)
  have sep: "sep8 t p" using top_sep_canary [OF t] sz by (simp add: sk)
  have "8 \<le> sz" using sz by (simp add: word_le_nat_alt)
  then have "check_canary k (write64 m0 t entry)"
    using sep by (simp add: check_canary_def m0 write_canary_def sk read64_write64_sep)
  with t show ?thesis by (simp add: init_context_def)
qed

theorem init_context_correct_witness:
  "\<exists>m1 c. init_context (fst (with_size 0x10000 STACK_SIZE (\<lambda>_. 0)))
      (snd (with_size 0x10000 STACK_SIZE (\<lambda>_. 0))) default_context 0x401000 = Inr (m1, c)
    \<and> check_canary (fst (with_size 0x10000 STACK_SIZE (\<lambda>_. 0))) m1
    \<and> read64 m1 (ctx_rsp c) = 0x401000"
  using init_context_correct [of "0x10000" STACK_SIZE "\<lambda>_. 0"
      "fst (with_size 0x10000 STACK_SIZE (\<lambda>_. 0))" "snd (with_size 0x10000 STACK_SIZE (\<lambda>_. 0))"
      default_context "0x401000"]
  by (auto simp: STACK_SIZE_def)

end
