(* ===== verification/Threads.thy ===== *)
theory Threads
  imports Kernel_Stack
begin

text \<open>
  \<open>src/thread/thread.rs\<close>: thread identifiers and thread creation. A thread owns its stack and a
  boxed context; both addresses come from the global allocator and are arguments of the
  constructor. The counter behind \<open>ThreadId::next\<close> is explicit state.
\<close>

type_synonym ThreadId = u64

record Thread =
  thread_id :: ThreadId
  thread_stack :: KernelStack
  context_ptr :: u64 \<comment> \<open>address of the boxed \<open>ThreadContext\<close>\<close>

definition thread_id_next :: "u64 \<Rightarrow> ThreadId \<times> u64" where
  "thread_id_next c = (c, c + 1)"

definition with_stack_size ::
  "u64 \<Rightarrow> u64 \<Rightarrow> u64 \<Rightarrow> memory \<Rightarrow> u64 \<Rightarrow> usize \<Rightarrow> (Thread \<times> u64 \<times> memory) res" where
  "with_stack_size counter p q m entry_point stack_bytes =
     (let (stack, m1) = with_size p stack_bytes m;
          m2 = write_ctx m1 q default_context
      in rbind (init_context stack m2 default_context entry_point)
           (\<lambda>(m3, ctx).
              let (i, counter') = thread_id_next counter
              in Inr (\<lparr>thread_id = i, thread_stack = stack, context_ptr = q\<rparr>,
                      counter', write_ctx m3 q ctx)))"

definition thread_new :: "u64 \<Rightarrow> u64 \<Rightarrow> u64 \<Rightarrow> memory \<Rightarrow> u64 \<Rightarrow> (Thread \<times> u64 \<times> memory) res" where
  "thread_new counter p q m entry_point = with_stack_size counter p q m entry_point STACK_SIZE"

section \<open>Identifiers\<close>

text \<open>The identifiers handed out by \<open>n\<close> calls in a row.\<close>

primrec ids_from :: "nat \<Rightarrow> u64 \<Rightarrow> ThreadId list" where
  "ids_from 0 c = []"
| "ids_from (Suc n) c = (let (i, c') = thread_id_next c in i # ids_from n c')"

lemma ids_from_eq: "ids_from n c = map (\<lambda>k. c + of_nat k) [0..<n]"
proof (induction n arbitrary: c)
  case 0
  then show ?case by simp
next
  case (Suc n)
  have "[0..<Suc n] = 0 # map Suc [0..<n]"
    by (simp add: map_Suc_upt upt_conv_Cons)
  then show ?case by (simp add: Suc.IH thread_id_next_def ac_simps)
qed

text \<open>
  Thread identifiers are unique: any \<open>2 ^ 64\<close> consecutive calls of \<open>ThreadId::next\<close>
  return pairwise different identifiers, whatever the counter was.
\<close>

theorem thread_ids_unique:
  assumes "n \<le> 2 ^ 64"
  shows "distinct (ids_from n c)"
proof -
  have "inj_on (\<lambda>k. c + of_nat k) {0..<n}"
  proof (rule inj_onI)
    fix i j
    assume i: "i \<in> {0..<n}" and j: "j \<in> {0..<n}" and eq: "c + of_nat i = (c + of_nat j :: u64)"
    have "unat (of_nat i :: u64) = unat (of_nat j :: u64)" using eq by simp
    moreover have "i < 2 ^ 64" and "j < 2 ^ 64" using i j assms by auto
    ultimately show "i = j" by (simp add: unat_of_nat)
  qed
  then show ?thesis by (simp add: ids_from_eq distinct_map)
qed

theorem thread_ids_unique_witness: "distinct (ids_from 3 (- 1)) \<and> ids_from 3 (- 1) = [- 1, 0, 1]"
  using thread_ids_unique [of 3 "- 1"] by (simp add: numeral_3_eq_3 thread_id_next_def)

section \<open>A new thread runs its entry point\<close>

text \<open>The allocator's side of the bargain: stack and box are separate, and nothing wraps.\<close>

definition alloc_ok :: "u64 \<Rightarrow> u64 \<Rightarrow> usize \<Rightarrow> bool" where
  "alloc_ok p q stack_bytes \<longleftrightarrow>
     disjoint_regions q CTX_SIZE p stack_bytes \<and> unat p + unat stack_bytes < 2 ^ 64
     \<and> 40 \<le> unat stack_bytes"

lemma in_stack_region:
  assumes "unat p + k \<le> unat a" and "unat a + 8 \<le> unat p + unat n"
  shows "\<exists>x. a = p + x \<and> unat x + 8 \<le> unat n \<and> k \<le> unat x"
proof (intro exI conjI)
  have le: "p \<le> a" using assms by (simp add: word_le_nat_alt)
  show "a = p + (a - p)" by simp
  show "unat (a - p) + 8 \<le> unat n" "k \<le> unat (a - p)"
    using assms le by (auto simp: unat_sub word_le_nat_alt)
qed

lemma with_stack_size_result:
  assumes ok: "alloc_ok p q n"
  obtains th m' t where "with_stack_size c p q m entry n = Inr (th, c + 1, m')"
    and "thread_id th = c" and "context_ptr th = q" and "stack_top (thread_stack th) = Inr t"
    and "read_ctx m' q = default_context\<lparr>ctx_rsp := t, ctx_rip := entry\<rparr>"
    and "read64 m' t = entry" and "disjoint_regions q CTX_SIZE (t - 8) 8"
    and "check_canary (thread_stack th) m'"
    and "unat p + 8 \<le> unat t" and "unat t + 16 \<le> unat p + unat n"
proof -
  define k where "k = \<lparr>storage_ptr = p, storage_len = n\<rparr>"
  define m1 where "m1 = write_canary k (zero_fill m p n)"
  define m2 where "m2 = write_ctx m1 q default_context"
  have dis: "disjoint_regions q CTX_SIZE p n" and n: "40 \<le> unat n"
    and wrap: "unat p + unat n < 2 ^ 64"
    using ok by (simp_all add: alloc_ok_def)
  obtain t where t: "stack_top k = Inr t" and lo: "unat p + 8 \<le> unat t"
    and hi: "unat t + 16 \<le> unat p + unat n"
    using top_bounds [of k] wrap n by (auto simp: k_def)
  define c' where "c' = default_context\<lparr>ctx_rsp := t, ctx_rip := entry\<rparr>"
  define m' where "m' = write_ctx (write64 m2 t entry) q c'"
  have outside: "read64 (write_ctx mm q cc) a = read64 mm a"
    if "unat p \<le> unat a" "unat a + 8 \<le> unat p + unat n" for mm cc a
    using in_stack_region [of p 0 a n] that write_ctx_disjoint [OF dis] by auto
  have sep: "sep8 t p" using top_sep_canary [OF t] n by (simp add: k_def)
  have "read64 m1 p = CANARY"
    using n by (simp add: m1_def write_canary_def k_def word_le_nat_alt)
  then have canary: "read64 m' p = CANARY"
    using n sep by (simp add: m'_def m2_def outside read64_write64_sep)
  have slot: "read64 m' t = entry"
    using lo hi by (simp add: m'_def outside)
  obtain x where x: "t = p + x" "unat x + 8 \<le> unat n" "8 \<le> unat x"
    using in_stack_region [of p 8 t n] lo hi by auto
  have below: "disjoint_regions q CTX_SIZE (t - 8) 8"
  proof -
    have "unat (x - 8) + unat (8 :: u64) \<le> unat n"
      using x by (simp add: unat_sub word_le_nat_alt)
    then have "disjoint_regions q CTX_SIZE (p + (x - 8)) 8"
      by (rule disjoint_regions_sub [OF dis]) simp
    then show ?thesis by (simp add: x(1) add_diff_eq)
  qed
  have "with_stack_size c p q m entry n =
      Inr (\<lparr>thread_id = c, thread_stack = k, context_ptr = q\<rparr>, c + 1, m')"
    using t by (simp add: with_stack_size_def with_size_def Let_def init_context_def
        thread_id_next_def k_def m'_def m2_def m1_def c'_def default_context_def)
  then show ?thesis
  proof (rule that)
    show "read_ctx m' q = default_context\<lparr>ctx_rsp := t, ctx_rip := entry\<rparr>"
      by (simp add: m'_def c'_def)
  qed (simp_all add: t slot below lo hi check_canary_def canary k_def [symmetric], simp_all add: k_def canary)
qed

text \<open>
  A thread created for an entry point runs it: creation succeeds for any two separate
  allocations, and switching to the new thread's context jumps to the entry point with the stack pointer
  eight bytes above the slot that held it, all other registers zero and interrupts
  enabled, with the canary of the stack intact.
\<close>

theorem new_thread_runs_entry:
  assumes ok: "alloc_ok p q n"
  shows "\<exists>th m' t. with_stack_size c p q m entry n = Inr (th, c + 1, m')
    \<and> context_ptr th = q \<and> stack_top (thread_stack th) = Inr t
    \<and> check_canary (thread_stack th) m'
    \<and> (\<forall>s. mem s = m' \<and> regs s RDI = q \<longrightarrow>
         (let s' = exec context_switch_to s
          in rip s' = entry \<and> regs s' = (\<lambda>_. 0)(RSP := t + 8) \<and> bit (rflags s') IF_BIT))"
proof -
  obtain th m' t where th: "with_stack_size c p q m entry n = Inr (th, c + 1, m')"
    "context_ptr th = q" "stack_top (thread_stack th) = Inr t" "check_canary (thread_stack th) m'"
    and ctx: "read_ctx m' q = default_context\<lparr>ctx_rsp := t, ctx_rip := entry\<rparr>"
    and slot: "read64 m' t = entry" and below: "disjoint_regions q CTX_SIZE (t - 8) 8"
    by (rule with_stack_size_result [OF ok, of c m entry]) auto
  have regs: "restored (default_context\<lparr>ctx_rsp := t, ctx_rip := entry\<rparr>) = (\<lambda>_. 0)(RSP := t + 8)"
    by (rule ext) (simp add: restored_def default_context_def split: reg.split)
  have "let s' = exec context_switch_to s
        in rip s' = entry \<and> regs s' = (\<lambda>_. 0)(RSP := t + 8) \<and> bit (rflags s') IF_BIT"
    if "mem s = m'" "regs s RDI = q" for s
  proof -
    have "resume_ok (mem s) (regs s RDI)"
      using that below by (simp add: resume_ok_def ctx)
    from context_switch_to_restores [OF this] show ?thesis
      using that by (simp add: Let_def ctx slot regs)
  qed
  with th show ?thesis by blast
qed

theorem new_thread_runs_entry_witness:
  "alloc_ok 0x10000 0x2000 STACK_SIZE
   \<and> (\<exists>th m'. with_stack_size 0 0x10000 0x2000 (\<lambda>_. 0) 0x401000 STACK_SIZE = Inr (th, 1, m')
        \<and> rip (exec context_switch_to
               \<lparr>regs = (\<lambda>_. 5)(RDI := 0x2000), rflags = 0, rip = 0, mem = m'\<rparr>) = 0x401000)"
proof -
  have ok: "alloc_ok 0x10000 0x2000 STACK_SIZE"
    by (simp add: alloc_ok_def disjoint_regions_def CTX_SIZE_def STACK_SIZE_def)
  obtain th m' where th: "with_stack_size 0 0x10000 0x2000 (\<lambda>_. 0) 0x401000 STACK_SIZE = Inr (th, 1, m')"
    and run: "\<And>s. mem s = m' \<Longrightarrow> regs s RDI = 0x2000 \<Longrightarrow> rip (exec context_switch_to s) = 0x401000"
    using new_thread_runs_entry [OF ok, of 0 "\<lambda>_. 0" "0x401000"] by (auto simp: Let_def)
  show ?thesis using ok th run [of "\<lparr>regs = (\<lambda>_. 5)(RDI := 0x2000), rflags = 0, rip = 0, mem = m'\<rparr>"]
    by auto
qed

end
