(* ===== verification/Scheduler_Interface.thy ===== *)
theory Scheduler_Interface
  imports Threads
begin

text \<open>
  What the rest of the kernel relies on in a scheduler, as a locale. Both schedulers of
  \<open>src/thread/schedulers/\<close> keep a vector of threads and the index of the running one; a tick
  returns the pair of context pointers to switch between. The clients proved here are
  about whole histories of calls: the context a switch saves into is always the one that was
  running.
\<close>

type_synonym switch = "u64 \<times> u64" \<comment> \<open>\<open>(from_ctx, to_ctx)\<close>\<close>

text \<open>A history of calls; the switches it returned, in order.\<close>

fun run_ops :: "('s \<Rightarrow> 'o \<Rightarrow> (switch option \<times> 's) res) \<Rightarrow> 'o list \<Rightarrow> 's \<Rightarrow> (switch list \<times> 's) res" where
  "run_ops stp [] s = Inr ([], s)"
| "run_ops stp (x # xs) s =
     rbind (stp s x) (\<lambda>(r, s'). rbind (run_ops stp xs s') (\<lambda>(rs, s'').
       Inr (case r of None \<Rightarrow> rs | Some sw \<Rightarrow> sw # rs, s'')))"

text \<open>Each switch leaves from the context the previous one went to.\<close>

fun chained :: "u64 \<Rightarrow> switch list \<Rightarrow> bool" where
  "chained p [] = True"
| "chained p ((f, t) # sws) = (f = p \<and> chained t sws)"

definition running_ctx :: "u64 \<Rightarrow> Thread list \<Rightarrow> nat option \<Rightarrow> u64" where
  "running_ctx b ts c = (case c of None \<Rightarrow> b | Some i \<Rightarrow> context_ptr (ts ! i))"

lemma running_ctx_append [simp]:
  "(\<And>i. c = Some i \<Longrightarrow> i < length ts) \<Longrightarrow> running_ctx b (ts @ us) c = running_ctx b ts c"
  by (auto simp: running_ctx_def nth_append split: option.splits)

section \<open>Sources of switches\<close>

locale switch_source =
  fixes threads :: "'s \<Rightarrow> Thread list"
    and current :: "'s \<Rightarrow> nat option"
    and invar :: "'s \<Rightarrow> bool"
    and init :: 's
    and boot :: u64
    and step :: "'s \<Rightarrow> 'o \<Rightarrow> (switch option \<times> 's) res"
  assumes init: "invar init" "threads init = []" "current init = None"
    and current_valid: "invar s \<Longrightarrow> current s = Some i \<Longrightarrow> i < length (threads s)"
    and step_invar: "invar s \<Longrightarrow> step s x = Inr (r, s') \<Longrightarrow> invar s'"
    and step_threads: "invar s \<Longrightarrow> step s x = Inr (r, s') \<Longrightarrow> \<exists>us. threads s' = threads s @ us"
    and step_None: "invar s \<Longrightarrow> step s x = Inr (None, s') \<Longrightarrow> current s' = current s"
    and step_Some: "invar s \<Longrightarrow> step s x = Inr (Some (f, p), s') \<Longrightarrow>
      f = running_ctx boot (threads s) (current s) \<and> p = running_ctx boot (threads s') (current s')"
begin

lemma run_ops_invar: "invar s \<Longrightarrow> run_ops step xs s = Inr (sws, s') \<Longrightarrow> invar s'"
proof (induction xs arbitrary: s sws)
  case Nil
  then show ?case by simp
next
  case (Cons x xs)
  then obtain r s1 rs where "step s x = Inr (r, s1)" and rest: "run_ops step xs s1 = Inr (rs, s')"
    by (auto simp: rbind_eq_Inr)
  with Cons.prems(1) have "invar s1" by (blast intro: step_invar)
  then show ?case using rest by (rule Cons.IH)
qed

lemma run_ops_chained:
  "invar s \<Longrightarrow> run_ops step xs s = Inr (sws, s') \<Longrightarrow>
     chained (running_ctx boot (threads s) (current s)) sws"
proof (induction xs arbitrary: s sws)
  case Nil
  then show ?case by simp
next
  case (Cons x xs)
  from Cons.prems(2) obtain r s1 rs where st: "step s x = Inr (r, s1)"
    and rest: "run_ops step xs s1 = Inr (rs, s')"
    and sws: "sws = (case r of None \<Rightarrow> rs | Some sw \<Rightarrow> sw # rs)"
    by (auto simp: rbind_eq_Inr)
  note ih = Cons.IH [OF step_invar [OF Cons.prems(1) st] rest]
  show ?case
  proof (cases r)
    case None
    obtain us where "threads s1 = threads s @ us" using step_threads [OF Cons.prems(1) st] by blast
    moreover have "current s1 = current s" using step_None [OF Cons.prems(1)] st None by simp
    ultimately show ?thesis
      using ih sws None current_valid [OF Cons.prems(1)] by simp
  next
    case (Some sw)
    then obtain f t where sw: "r = Some (f, t)" by (cases sw) auto
    show ?thesis
      using ih sws step_Some [OF Cons.prems(1) st [unfolded sw]] by (simp add: sw)
  qed
qed

text \<open>From the initial state the first switch leaves from the bootstrap context.\<close>

lemma boot_chained:
  assumes "run_ops step xs init = Inr (sws, s')"
  shows "chained boot sws"
  using run_ops_chained [OF init(1) assms] by (simp add: init running_ctx_def)

end

section \<open>Schedulers\<close>

datatype sched_op =
    Spawn Thread
  | SpawnWithWeight Thread u64
  | Tick u64

fun sched_step ::
  "('s \<Rightarrow> Thread \<Rightarrow> 's) \<Rightarrow> ('s \<Rightarrow> Thread \<Rightarrow> u64 \<Rightarrow> 's) \<Rightarrow>
   ('s \<Rightarrow> u64 \<Rightarrow> u64 \<Rightarrow> (switch option \<times> 's) res) \<Rightarrow>
   u64 \<Rightarrow> 's \<Rightarrow> sched_op \<Rightarrow> (switch option \<times> 's) res" where
  "sched_step sp spw tk b s (Spawn t) = Inr (None, sp s t)"
| "sched_step sp spw tk b s (SpawnWithWeight t w) = Inr (None, spw s t w)"
| "sched_step sp spw tk b s (Tick n) = tk s b n"

locale thread_scheduler =
  fixes threads :: "'s \<Rightarrow> Thread list"
    and current :: "'s \<Rightarrow> nat option"
    and invar :: "'s \<Rightarrow> bool"
    and init :: 's
    and spawn :: "'s \<Rightarrow> Thread \<Rightarrow> 's"
    and spawn_with_weight :: "'s \<Rightarrow> Thread \<Rightarrow> u64 \<Rightarrow> 's"
    and tick :: "'s \<Rightarrow> u64 \<Rightarrow> u64 \<Rightarrow> (switch option \<times> 's) res"
  assumes init: "invar init" "threads init = []" "current init = None"
    and current_valid: "invar s \<Longrightarrow> current s = Some i \<Longrightarrow> i < length (threads s)"
    and spawn: "invar s \<Longrightarrow> invar (spawn s t)" "threads (spawn s t) = threads s @ [t]"
      "current (spawn s t) = current s"
    and spawn_with_weight: "invar s \<Longrightarrow> invar (spawn_with_weight s t w)"
      "threads (spawn_with_weight s t w) = threads s @ [t]"
      "current (spawn_with_weight s t w) = current s"
    and tick_invar: "invar s \<Longrightarrow> tick s b n = Inr (r, s') \<Longrightarrow> invar s'"
    and tick_threads: "invar s \<Longrightarrow> tick s b n = Inr (r, s') \<Longrightarrow> threads s' = threads s"
    and tick_None: "invar s \<Longrightarrow> tick s b n = Inr (None, s') \<Longrightarrow> current s' = current s"
    and tick_Some: "invar s \<Longrightarrow> tick s b n = Inr (Some (f, p), s') \<Longrightarrow>
      f = running_ctx b (threads s) (current s) \<and> p = running_ctx b (threads s') (current s')
      \<and> current s' \<noteq> None"

sublocale thread_scheduler \<subseteq> hist: switch_source threads current invar init b
  "sched_step spawn spawn_with_weight tick b" for b
proof unfold_locales
  fix s s' x r f p
  assume inv: "invar s"
  show "sched_step spawn spawn_with_weight tick b s x = Inr (r, s') \<Longrightarrow> invar s'"
    using inv by (cases x) (auto simp: spawn spawn_with_weight dest: tick_invar)
  show "sched_step spawn spawn_with_weight tick b s x = Inr (r, s') \<Longrightarrow> \<exists>us. threads s' = threads s @ us"
    using inv by (cases x) (auto simp: spawn spawn_with_weight dest: tick_threads)
  show "sched_step spawn spawn_with_weight tick b s x = Inr (None, s') \<Longrightarrow> current s' = current s"
    using inv by (cases x) (auto simp: spawn spawn_with_weight dest: tick_None)
  show "sched_step spawn spawn_with_weight tick b s x = Inr (Some (f, p), s') \<Longrightarrow>
      f = running_ctx b (threads s) (current s) \<and> p = running_ctx b (threads s') (current s')"
    using inv by (cases x) (auto dest: tick_Some)
qed (simp_all add: init current_valid)

section \<open>Schedulers with blocking\<close>

text \<open>
  What sleeping locks need beyond that: a thread that blocks itself is not chosen until it is
  unblocked by its identifier, and blocking leaves the rest of the scheduler alone.
\<close>

datatype block_op =
    Sched sched_op
  | BlockCurrent u64
  | Unblock ThreadId

fun block_step ::
  "('s \<Rightarrow> sched_op \<Rightarrow> (switch option \<times> 's) res) \<Rightarrow>
   ('s \<Rightarrow> u64 \<Rightarrow> u64 \<Rightarrow> (switch option \<times> 's) res) \<Rightarrow> ('s \<Rightarrow> ThreadId \<Rightarrow> 's res) \<Rightarrow>
   u64 \<Rightarrow> 's \<Rightarrow> block_op \<Rightarrow> (switch option \<times> 's) res" where
  "block_step stp blk unb b s (Sched x) = stp s x"
| "block_step stp blk unb b s (BlockCurrent n) = blk s b n"
| "block_step stp blk unb b s (Unblock tid) = rbind (unb s tid) (\<lambda>s'. Inr (None, s'))"

locale blocking_scheduler = thread_scheduler +
  fixes is_blocked :: "'a \<Rightarrow> nat \<Rightarrow> bool"
    and block :: "'a \<Rightarrow> u64 \<Rightarrow> u64 \<Rightarrow> (switch option \<times> 'a) res"
    and unblock :: "'a \<Rightarrow> ThreadId \<Rightarrow> 'a res"
  assumes block_invar: "invar s \<Longrightarrow> block s b n = Inr (r, s') \<Longrightarrow> invar s'"
    and block_threads: "invar s \<Longrightarrow> block s b n = Inr (r, s') \<Longrightarrow> threads s' = threads s"
    and block_blocks: "invar s \<Longrightarrow> block s b n = Inr (r, s') \<Longrightarrow> j < length (threads s) \<Longrightarrow>
      is_blocked s' j \<longleftrightarrow> is_blocked s j \<or> current s = Some j"
    and block_None: "invar s \<Longrightarrow> block s b n = Inr (None, s') \<Longrightarrow> current s' = current s"
    and block_Some: "invar s \<Longrightarrow> block s b n = Inr (Some (f, p), s') \<Longrightarrow>
      f = running_ctx b (threads s) (current s) \<and> p = running_ctx b (threads s') (current s')
      \<and> (\<exists>j. current s' = Some j \<and> \<not> is_blocked s' j)"
    and unblock_total: "invar s \<Longrightarrow> \<exists>s'. unblock s tid = Inr s'"
    and unblock: "invar s \<Longrightarrow> unblock s tid = Inr s' \<Longrightarrow>
      invar s' \<and> threads s' = threads s \<and> current s' = current s"
    and unblock_unblocks: "invar s \<Longrightarrow> unblock s tid = Inr s' \<Longrightarrow>
      distinct (map thread_id (threads s)) \<Longrightarrow> j < length (threads s) \<Longrightarrow>
      is_blocked s' j \<longleftrightarrow> is_blocked s j \<and> thread_id (threads s ! j) \<noteq> tid"
begin

text \<open>A thread that blocked itself is never the one switched to.\<close>

lemma block_leaves:
  assumes "invar s" and "block s b n = Inr (Some sw, s')" and "current s = Some i"
  shows "\<exists>j. current s' = Some j \<and> j \<noteq> i \<and> \<not> is_blocked s' j"
proof -
  obtain f p where sw: "sw = (f, p)" by (cases sw)
  obtain j where j: "current s' = Some j" "\<not> is_blocked s' j"
    using block_Some [OF assms(1) assms(2) [unfolded sw]] by blast
  have "is_blocked s' i"
    using block_blocks [OF assms(1,2)] current_valid [OF assms(1,3)] assms(3) by blast
  with j show ?thesis by blast
qed

end

sublocale blocking_scheduler \<subseteq> bhist: switch_source threads current invar init b
  "block_step (sched_step spawn spawn_with_weight tick b) block unblock b" for b
proof unfold_locales
  fix s s' x r f p
  let ?st = "block_step (sched_step spawn spawn_with_weight tick b) block unblock b"
  assume inv: "invar s"
  show "?st s x = Inr (r, s') \<Longrightarrow> invar s'"
    using inv by (cases x) (auto simp: rbind_eq_Inr dest: hist.step_invar block_invar unblock)
  show "?st s x = Inr (r, s') \<Longrightarrow> \<exists>us. threads s' = threads s @ us"
    using inv by (cases x) (auto simp: rbind_eq_Inr dest: hist.step_threads block_threads unblock)
  show "?st s x = Inr (None, s') \<Longrightarrow> current s' = current s"
    using inv by (cases x) (auto simp: rbind_eq_Inr dest: hist.step_None block_None unblock)
  show "?st s x = Inr (Some (f, p), s') \<Longrightarrow>
      f = running_ctx b (threads s) (current s) \<and> p = running_ctx b (threads s') (current s')"
    using inv by (cases x) (auto simp: rbind_eq_Inr dest: hist.step_Some block_Some)
qed (simp_all add: init current_valid)

section \<open>A thread for examples\<close>

definition demo_thread :: "u64 \<Rightarrow> Thread" where
  "demo_thread i = \<lparr>thread_id = i, thread_stack = \<lparr>storage_ptr = 0, storage_len = 0\<rparr>,
     context_ptr = 0x1000 * (i + 1)\<rparr>"

end
