(* ===== verification/Eevdf.thy ===== *)
theory Eevdf
  imports Scheduler_Interface
begin

text \<open>
  \<open>src/thread/schedulers/eevdf.rs\<close>: the scheduler the kernel runs. Every arithmetic
  operation on ticks, weights and virtual times is the checked one of the debug profile, so each step
  returns an outcome; a panic is the value \<open>Inl\<close>.
\<close>

section \<open>State and operations\<close>

definition DEFAULT_WEIGHT :: u64 where "DEFAULT_WEIGHT = 1024"

definition MIN_TIME_SLICE :: u64 where "MIN_TIME_SLICE = 1"

record ThreadMeta =
  vruntime :: u64
  weight :: u64
  blocked :: bool

definition meta_new :: "nat \<Rightarrow> ThreadMeta" where
  "meta_new index = \<lparr>vruntime = 0, weight = DEFAULT_WEIGHT, blocked = False\<rparr>"

definition virtual_deadline :: "ThreadMeta \<Rightarrow> u64 \<Rightarrow> u64 \<Rightarrow> u64 res" where
  "virtual_deadline m time_slice sum_weights =
     (if weight m = 0 then Inr (- 1)
      else rbind (mul_ovf time_slice sum_weights) (\<lambda>a.
           rbind (mul_ovf a 1024) (\<lambda>b.
           rbind (div_chk b (weight m)) (\<lambda>c.
           add_ovf (vruntime m) c))))"

record EevdfScheduler =
  ev_threads :: "Thread list"
  metadata :: "ThreadMeta list"
  ev_current :: "nat option"
  min_vruntime :: u64
  last_switch_tick :: u64

definition eevdf_new :: EevdfScheduler where
  "eevdf_new = \<lparr>ev_threads = [], metadata = [], ev_current = None,
     min_vruntime = 0, last_switch_tick = 0\<rparr>"

definition eevdf_spawn :: "EevdfScheduler \<Rightarrow> Thread \<Rightarrow> EevdfScheduler" where
  "eevdf_spawn s t =
     (let index = length (ev_threads s)
      in s\<lparr>ev_threads := ev_threads s @ [t], metadata := metadata s @ [meta_new index]\<rparr>)"

definition eevdf_spawn_with_weight :: "EevdfScheduler \<Rightarrow> Thread \<Rightarrow> u64 \<Rightarrow> EevdfScheduler" where
  "eevdf_spawn_with_weight s t w =
     (let index = length (ev_threads s)
      in s\<lparr>ev_threads := ev_threads s @ [t],
           metadata := metadata s @ [(meta_new index)\<lparr>weight := max w 1\<rparr>]\<rparr>)"

definition eevdf_len :: "EevdfScheduler \<Rightarrow> nat" where
  "eevdf_len s = length (ev_threads s)"

definition current_thread_id :: "EevdfScheduler \<Rightarrow> ThreadId option res" where
  "current_thread_id s = (case ev_current s of None \<Rightarrow> Inr None
     | Some idx \<Rightarrow> rbind (index_chk (ev_threads s) idx) (\<lambda>t. Inr (Some (thread_id t))))"

text \<open>The loop of \<open>unblock_thread\<close>, from index \<open>i\<close> on: the first thread with that identifier.\<close>

fun unblock_from :: "nat \<Rightarrow> Thread list \<Rightarrow> ThreadId \<Rightarrow> ThreadMeta list \<Rightarrow> ThreadMeta list res" where
  "unblock_from i [] tid md = Inr md"
| "unblock_from i (t # ts) tid md =
     (if thread_id t = tid
      then rbind (index_chk md i) (\<lambda>m. Inr (md[i := m\<lparr>blocked := False\<rparr>]))
      else unblock_from (Suc i) ts tid md)"

definition unblock_thread :: "EevdfScheduler \<Rightarrow> ThreadId \<Rightarrow> EevdfScheduler res" where
  "unblock_thread s tid =
     rbind (unblock_from 0 (ev_threads s) tid (metadata s)) (\<lambda>md. Inr (s\<lparr>metadata := md\<rparr>))"

definition runnable :: "ThreadMeta list \<Rightarrow> ThreadMeta list" where
  "runnable md = filter (\<lambda>m. \<not> blocked m) md"

definition sum_weights :: "ThreadMeta list \<Rightarrow> u64 res" where
  "sum_weights md = sum_ovf (map weight (runnable md))"

text \<open>\<open>Iterator::min\<close>.\<close>

fun iter_min :: "'a::linorder list \<Rightarrow> 'a option" where
  "iter_min [] = None"
| "iter_min (x # xs) = Some (fold min xs x)"

text \<open>\<open>Iterator::min_by\<close> after the first element; a tie keeps the earlier one.\<close>

fun min_by_from :: "('a \<Rightarrow> u64 res) \<Rightarrow> 'a \<Rightarrow> 'a list \<Rightarrow> 'a res" where
  "min_by_from key x [] = Inr x"
| "min_by_from key x (y # ys) =
     rbind (key x) (\<lambda>a. rbind (key y) (\<lambda>b. min_by_from key (if b < a then y else x) ys))"

fun min_by :: "('a \<Rightarrow> u64 res) \<Rightarrow> 'a list \<Rightarrow> 'a option res" where
  "min_by key [] = Inr None"
| "min_by key (x # xs) = rbind (min_by_from key x xs) (\<lambda>y. Inr (Some y))"

definition time_slice_of :: "EevdfScheduler \<Rightarrow> u64 \<Rightarrow> u64" where
  "time_slice_of s current_tick =
     (case ev_current s of
        Some _ \<Rightarrow> max (saturating_sub current_tick (last_switch_tick s)) MIN_TIME_SLICE
      | None \<Rightarrow> MIN_TIME_SLICE)"

text \<open>The update of the virtual runtime of the thread being switched away from.\<close>

definition charge :: "EevdfScheduler \<Rightarrow> u64 \<Rightarrow> ThreadMeta list res" where
  "charge s time_slice =
     (case ev_current s of
        None \<Rightarrow> Inr (metadata s)
      | Some prev_idx \<Rightarrow>
          rbind (sum_weights (metadata s)) (\<lambda>sw.
            if 0 < sw
            then rbind (index_chk (metadata s) prev_idx) (\<lambda>m.
                 rbind (mul_ovf time_slice (weight m)) (\<lambda>a.
                 rbind (mul_ovf a 1024) (\<lambda>b.
                 rbind (div_chk b sw) (\<lambda>vruntime_delta.
                 rbind (add_ovf (vruntime m) vruntime_delta) (\<lambda>v.
                 Inr ((metadata s)[prev_idx := m\<lparr>vruntime := v\<rparr>]))))))
            else Inr (metadata s)))"

definition new_min_vruntime :: "ThreadMeta list \<Rightarrow> u64 \<Rightarrow> u64" where
  "new_min_vruntime md old =
     (case iter_min (map vruntime (runnable md)) of Some v \<Rightarrow> v | None \<Rightarrow> old)"

definition eligible :: "u64 \<Rightarrow> u64 \<Rightarrow> ThreadMeta \<Rightarrow> bool" where
  "eligible minv lag_tolerance m \<longleftrightarrow>
     \<not> blocked m \<and> vruntime m \<le> saturating_add minv lag_tolerance"

definition pick_next :: "ThreadMeta list \<Rightarrow> u64 \<Rightarrow> u64 \<Rightarrow> u64 \<Rightarrow> nat option res" where
  "pick_next md minv time_slice sw =
     (let lag_tolerance = max sw 1;
          cands = filter (\<lambda>(_, m). eligible minv lag_tolerance m) (List.enumerate 0 md)
      in rbind (min_by (\<lambda>(_, m). virtual_deadline m time_slice sw) cands) (\<lambda>best.
           Inr (case best of
                  Some (idx, _) \<Rightarrow> Some idx
                | None \<Rightarrow> map_option fst (List.find (\<lambda>(_, m). \<not> blocked m) (List.enumerate 0 md)))))"

definition tick_prepare ::
  "EevdfScheduler \<Rightarrow> u64 \<Rightarrow> u64 \<Rightarrow> (switch option \<times> EevdfScheduler) res" where
  "tick_prepare s bootstrap_ctx current_tick =
     (if ev_threads s = [] then Inr (None, s)
      else let time_slice = time_slice_of s current_tick
      in rbind (charge s time_slice) (\<lambda>md.
         let minv = new_min_vruntime md (min_vruntime s);
             s1 = s\<lparr>metadata := md, min_vruntime := minv\<rparr>
         in rbind (sum_weights md) (\<lambda>sw.
            rbind (pick_next md minv time_slice sw) (\<lambda>nxt.
              case nxt of
                None \<Rightarrow> Inr (None, s1)
              | Some next_idx \<Rightarrow>
                  let prev = ev_current s
                  in if prev = Some next_idx \<and> current_tick \<noteq> 0
                        \<and> saturating_sub current_tick (last_switch_tick s) < MIN_TIME_SLICE
                     then Inr (None, s1)
                     else let s2 = s1\<lparr>ev_current := Some next_idx, last_switch_tick := current_tick\<rparr>
                     in rbind (case prev of None \<Rightarrow> Inr bootstrap_ctx
                               | Some p \<Rightarrow> rbind (index_chk (ev_threads s) p) (\<lambda>t. Inr (context_ptr t)))
                          (\<lambda>from_ctx. rbind (index_chk (ev_threads s) next_idx) (\<lambda>t.
                             Inr (Some (from_ctx, context_ptr t), s2)))))))"

definition block_current_and_prepare_switch ::
  "EevdfScheduler \<Rightarrow> u64 \<Rightarrow> u64 \<Rightarrow> (switch option \<times> EevdfScheduler) res" where
  "block_current_and_prepare_switch s bootstrap_ctx current_tick =
     rbind (case ev_current s of
              None \<Rightarrow> Inr s
            | Some idx \<Rightarrow> rbind (index_chk (metadata s) idx) (\<lambda>m.
                Inr (s\<lparr>metadata := (metadata s)[idx := m\<lparr>blocked := True\<rparr>]\<rparr>)))
       (\<lambda>s'. tick_prepare s' bootstrap_ctx current_tick)"

section \<open>Invariant\<close>

definition eevdf_inv :: "EevdfScheduler \<Rightarrow> bool" where
  "eevdf_inv s \<longleftrightarrow>
     length (metadata s) = length (ev_threads s)
     \<and> (\<forall>i. ev_current s = Some i \<longrightarrow> i < length (ev_threads s))
     \<and> list_all (\<lambda>m. 1 \<le> weight m) (metadata s)"

lemma eevdf_invD:
  assumes "eevdf_inv s"
  shows "length (metadata s) = length (ev_threads s)"
    and "ev_current s = Some i \<Longrightarrow> i < length (ev_threads s)"
    and "i < length (ev_threads s) \<Longrightarrow> 1 \<le> weight (metadata s ! i)"
  using assms by (auto simp: eevdf_inv_def list_all_length)

text \<open>Charging changes nothing but one virtual runtime.\<close>

lemma charge_frame:
  assumes "charge s ts = Inr md"
  shows "length md = length (metadata s)"
    and "map weight md = map weight (metadata s)"
    and "map blocked md = map blocked (metadata s)"
    and "ev_current s \<noteq> Some j \<Longrightarrow> md ! j = metadata s ! j"
  using assms
  by (auto simp: charge_def rbind_eq_Inr index_chk_eq_Inr map_update list_update_same_conv
      split: option.splits if_splits)

lemma charge_inv:
  assumes inv: "eevdf_inv s" and ch: "charge s ts = Inr md"
  shows "length md = length (ev_threads s)" and "list_all (\<lambda>m. 1 \<le> weight m) md"
proof -
  show "length md = length (ev_threads s)"
    using inv charge_frame(1) [OF ch] by (simp add: eevdf_inv_def)
  have "list_all (\<lambda>w. 1 \<le> w) (map weight md)"
    using inv unfolding charge_frame(2) [OF ch] by (simp add: eevdf_inv_def list_all_iff)
  then show "list_all (\<lambda>m. 1 \<le> weight m) md" by (simp add: list_all_iff)
qed

section \<open>Selection\<close>

lemma min_by_from_spec:
  assumes "min_by_from key x ys = Inr y"
  shows "\<exists>pre post. x # ys = pre @ y # post
    \<and> (\<forall>z \<in> set pre. \<exists>k a. key y = Inr k \<and> key z = Inr a \<and> k < a)
    \<and> (\<forall>z \<in> set post. \<exists>k a. key y = Inr k \<and> key z = Inr a \<and> k \<le> a)"
  using assms
proof (induction ys arbitrary: x)
  case Nil
  then show ?case by (intro exI [of _ "[]"] exI [of _ "[]"]) simp
next
  case (Cons z zs)
  then obtain a b where a: "key x = Inr a" and b: "key z = Inr b"
    and rest: "min_by_from key (if b < a then z else x) zs = Inr y"
    by (auto simp: rbind_eq_Inr)
  from Cons.IH [OF rest] obtain pre post where
    dec: "(if b < a then z else x) # zs = pre @ y # post"
    and pre: "\<forall>z \<in> set pre. \<exists>k a. key y = Inr k \<and> key z = Inr a \<and> k < a"
    and post: "\<forall>z \<in> set post. \<exists>k a. key y = Inr k \<and> key z = Inr a \<and> k \<le> a"
    by blast
  show ?case
  proof (cases "b < a")
    case True
    have "\<exists>k c. key y = Inr k \<and> key x = Inr c \<and> k < c"
      using True dec pre a b by (cases pre) auto
    with True dec pre post show ?thesis
      by (intro exI [of _ "x # pre"] exI [of _ post]) auto
  next
    case False
    show ?thesis
    proof (cases pre)
      case Nil
      with False dec have "y = x" "post = zs" by auto
      with False a b post show ?thesis
        by (intro exI [of _ "[]"] exI [of _ "z # zs"]) auto
    next
      case (Cons c pre')
      with False dec have "c = x" "zs = pre' @ y # post" by auto
      moreover obtain k where "key y = Inr k" "k < a"
        using pre Cons \<open>c = x\<close> a by auto
      ultimately show ?thesis
        using False pre post Cons b
        by (intro exI [of _ "x # z # pre'"] exI [of _ post]) auto
    qed
  qed
qed

lemma min_by_SomeE:
  assumes "min_by key xs = Inr (Some y)"
  obtains pre post where "xs = pre @ y # post"
    and "\<And>z. z \<in> set pre \<Longrightarrow> \<exists>k a. key y = Inr k \<and> key z = Inr a \<and> k < a"
    and "\<And>z. z \<in> set post \<Longrightarrow> \<exists>k a. key y = Inr k \<and> key z = Inr a \<and> k \<le> a"
proof (cases xs)
  case Nil
  with assms show ?thesis by simp
next
  case (Cons x ys)
  with assms have "min_by_from key x ys = Inr y" by (auto simp: rbind_eq_Inr)
  from min_by_from_spec [OF this] that show ?thesis by (auto simp: Cons)
qed

lemma min_by_None: "min_by key xs = Inr None \<longleftrightarrow> xs = []"
  by (cases xs) (auto simp: rbind_eq_Inr)

lemma iter_min_Some:
  assumes "iter_min xs = Some m"
  shows "m \<in> set xs" and "y \<in> set xs \<Longrightarrow> m \<le> y"
proof -
  have "m = Min (set xs)" and "xs \<noteq> []"
    using assms by (cases xs; simp add: Min.set_eq_fold [symmetric])+
  then show "m \<in> set xs" and "y \<in> set xs \<Longrightarrow> m \<le> y" by auto
qed

lemma iter_min_None [simp]: "iter_min xs = None \<longleftrightarrow> xs = []"
  by (cases xs) auto

lemma new_min_vruntime_spec:
  assumes "m \<in> set md" and "\<not> blocked m"
  shows "\<exists>m' \<in> set md. \<not> blocked m' \<and> vruntime m' = new_min_vruntime md old"
    and "new_min_vruntime md old \<le> vruntime m"
proof -
  have "map vruntime (runnable md) \<noteq> []" using assms by (auto simp: runnable_def filter_empty_conv)
  then obtain v where v: "iter_min (map vruntime (runnable md)) = Some v"
    by (cases "iter_min (map vruntime (runnable md))") auto
  from iter_min_Some [OF v] assms v show "\<exists>m' \<in> set md. \<not> blocked m' \<and> vruntime m' = new_min_vruntime md old"
    and "new_min_vruntime md old \<le> vruntime m"
    by (auto simp: new_min_vruntime_def runnable_def)
qed

lemma set_candidates:
  "(i, m) \<in> set (filter (\<lambda>(_, m). P m) (List.enumerate 0 md)) \<longleftrightarrow> i < length md \<and> m = md ! i \<and> P m"
  by (auto simp: in_set_enumerate_eq)

lemma sorted_candidates: "sorted_wrt (<) (map fst (filter Q (List.enumerate n md)))"
proof -
  have "sorted_wrt (<) (map fst (List.enumerate n md))" by simp
  then show ?thesis by (simp only: sorted_wrt_map sorted_wrt_filter)
qed

text \<open>
  The specification of the choice: an eligible thread none of whose eligible competitors has an
  earlier virtual deadline, the one with the lowest index among equals.
\<close>

definition earliest :: "ThreadMeta list \<Rightarrow> u64 \<Rightarrow> u64 \<Rightarrow> u64 \<Rightarrow> nat \<Rightarrow> bool" where
  "earliest md minv ts sw i \<longleftrightarrow>
     i < length md \<and> eligible minv (max sw 1) (md ! i)
     \<and> (\<forall>j < length md. j \<noteq> i \<and> eligible minv (max sw 1) (md ! j) \<longrightarrow>
          (\<exists>di dj. virtual_deadline (md ! i) ts sw = Inr di \<and> virtual_deadline (md ! j) ts sw = Inr dj
             \<and> (if j < i then di < dj else di \<le> dj)))"

lemma candidates_exist:
  assumes "m \<in> set md" and "\<not> blocked m"
  shows "\<exists>i < length md. eligible (new_min_vruntime md old) lag (md ! i)"
proof -
  obtain m' where "m' \<in> set md" "\<not> blocked m'" "vruntime m' = new_min_vruntime md old"
    using new_min_vruntime_spec(1) [OF assms] by blast
  then have "eligible (new_min_vruntime md old) lag m'"
    by (simp add: eligible_def le_saturating_add)
  with \<open>m' \<in> set md\<close> show ?thesis by (metis in_set_conv_nth)
qed

lemma pick_next_spec:
  assumes pick: "pick_next md (new_min_vruntime md old) ts sw = Inr r"
  shows "case r of None \<Rightarrow> list_all blocked md | Some i \<Rightarrow> earliest md (new_min_vruntime md old) ts sw i"
proof -
  let ?minv = "new_min_vruntime md old"
  define cands where "cands = filter (\<lambda>(_, m). eligible ?minv (max sw 1) m) (List.enumerate 0 md)"
  have mem: "(i, m) \<in> set cands \<longleftrightarrow> i < length md \<and> m = md ! i \<and> eligible ?minv (max sw 1) m" for i m
    by (simp add: cands_def set_candidates del: set_filter)
  obtain best where best: "min_by (\<lambda>(_, m). virtual_deadline m ts sw) cands = Inr best"
    and r: "r = (case best of Some (idx, _) \<Rightarrow> Some idx
       | None \<Rightarrow> map_option fst (List.find (\<lambda>(_, m). \<not> blocked m) (List.enumerate 0 md)))"
    using pick by (auto simp: pick_next_def Let_def rbind_eq_Inr cands_def)
  show ?thesis
  proof (cases best)
    case None
    with best have "cands = []" by (simp add: min_by_None)
    then have "blocked m" if "m \<in> set md" for m
      using candidates_exist [OF that] mem by (metis empty_iff list.set(1))
    then have "list_all blocked md" by (simp add: list_all_iff)
    moreover from this have "List.find (\<lambda>(_, m). \<not> blocked m) (List.enumerate 0 md) = None"
      by (auto simp: find_None_iff in_set_enumerate_eq list_all_length)
    ultimately show ?thesis by (simp add: r None)
  next
    case (Some b)
    then obtain i m where b: "best = Some (i, m)" by (cases b) auto
    obtain pre post where dec: "cands = pre @ (i, m) # post"
      and pre: "\<And>z. z \<in> set pre \<Longrightarrow> \<exists>k a. virtual_deadline (snd (i, m)) ts sw = Inr k
          \<and> virtual_deadline (snd z) ts sw = Inr a \<and> k < a"
      and post: "\<And>z. z \<in> set post \<Longrightarrow> \<exists>k a. virtual_deadline (snd (i, m)) ts sw = Inr k
          \<and> virtual_deadline (snd z) ts sw = Inr a \<and> k \<le> a"
      by (rule min_by_SomeE [OF best [unfolded b case_prod_unfold]]) (rule that)
    have i: "i < length md" "m = md ! i" "eligible ?minv (max sw 1) m"
      using mem [of i m] dec by auto
    have "sorted_wrt (<) (map fst cands)" unfolding cands_def by (rule sorted_candidates)
    then have lo: "\<And>z. z \<in> set pre \<Longrightarrow> fst z < i" and hi: "\<And>z. z \<in> set post \<Longrightarrow> i < fst z"
      by (auto simp: dec sorted_wrt_append)
    have "\<exists>di dj. virtual_deadline (md ! i) ts sw = Inr di \<and> virtual_deadline (md ! j) ts sw = Inr dj
             \<and> (if j < i then di < dj else di \<le> dj)"
      if "j < length md" "j \<noteq> i" "eligible ?minv (max sw 1) (md ! j)" for j
    proof -
      have "(j, md ! j) \<in> set pre \<or> (j, md ! j) \<in> set post"
        using mem [of j "md ! j"] that dec by auto
      then show ?thesis
        using pre [of "(j, md ! j)"] post [of "(j, md ! j)"] lo [of "(j, md ! j)"] hi [of "(j, md ! j)"] i(2)
        by fastforce
    qed
    with i show ?thesis by (auto simp: r b earliest_def)
  qed
qed

section \<open>The tick\<close>

text \<open>What a tick that does not panic went through.\<close>

lemma tick_prepareE:
  assumes tick: "tick_prepare s b n = Inr (r, s')" and inv: "eevdf_inv s"
  obtains (no_threads) "ev_threads s = []" "r = None" "s' = s"
  | (all_blocked) md where "charge s (time_slice_of s n) = Inr md" "list_all blocked md"
      "ev_threads s \<noteq> []" "r = None"
      "s' = s\<lparr>metadata := md, min_vruntime := new_min_vruntime md (min_vruntime s)\<rparr>"
  | (keep) md sw i where "charge s (time_slice_of s n) = Inr md" "sum_weights md = Inr sw"
      "earliest md (new_min_vruntime md (min_vruntime s)) (time_slice_of s n) sw i"
      "ev_current s = Some i" "n \<noteq> 0" "n \<le> last_switch_tick s" "r = None"
      "s' = s\<lparr>metadata := md, min_vruntime := new_min_vruntime md (min_vruntime s)\<rparr>"
  | (switch) md sw i where "charge s (time_slice_of s n) = Inr md" "sum_weights md = Inr sw"
      "earliest md (new_min_vruntime md (min_vruntime s)) (time_slice_of s n) sw i"
      "\<not> (ev_current s = Some i \<and> n \<noteq> 0 \<and> n \<le> last_switch_tick s)"
      "r = Some (running_ctx b (ev_threads s) (ev_current s), context_ptr (ev_threads s ! i))"
      "s' = s\<lparr>metadata := md, min_vruntime := new_min_vruntime md (min_vruntime s),
             ev_current := Some i, last_switch_tick := n\<rparr>"
proof -
  have sat: "saturating_sub n (last_switch_tick s) < MIN_TIME_SLICE \<longleftrightarrow> n \<le> last_switch_tick s"
    by (simp add: word_less_nat_alt word_le_nat_alt saturating_sub_unat MIN_TIME_SLICE_def)
  show ?thesis
  proof (cases "ev_threads s = []")
    case True
    have "r = None" and "s' = s" using tick unfolding tick_prepare_def by (auto simp: True)
    then show ?thesis by (rule no_threads [OF True])
  next
    case False
    let ?ts = "time_slice_of s n"
    obtain md sw nxt where md: "charge s ?ts = Inr md" and sw: "sum_weights md = Inr sw"
      and nxt: "pick_next md (new_min_vruntime md (min_vruntime s)) ?ts sw = Inr nxt"
      using tick False by (auto simp: tick_prepare_def Let_def rbind_eq_Inr)
    have len: "length md = length (ev_threads s)" using charge_inv(1) [OF inv md] .
    have cur: "i < length (ev_threads s)" if "ev_current s = Some i" for i
      using eevdf_invD(2) [OF inv that] .
    show ?thesis
    proof (cases nxt)
      case None
      with tick False md sw nxt have "r = None"
        "s' = s\<lparr>metadata := md, min_vruntime := new_min_vruntime md (min_vruntime s)\<rparr>"
        by (simp_all add: tick_prepare_def Let_def)
      with all_blocked [OF md _ False] pick_next_spec [OF nxt] None show ?thesis by simp
    next
      case (Some i)
      with pick_next_spec [OF nxt]
      have e: "earliest md (new_min_vruntime md (min_vruntime s)) ?ts sw i" by simp
      then have i: "i < length (ev_threads s)" using len by (simp add: earliest_def)
      show ?thesis
      proof (cases "ev_current s = Some i \<and> n \<noteq> 0 \<and> n \<le> last_switch_tick s")
        case True
        with tick False md sw nxt Some have "r = None"
          "s' = s\<lparr>metadata := md, min_vruntime := new_min_vruntime md (min_vruntime s)\<rparr>"
          by (simp_all add: tick_prepare_def Let_def sat)
        with keep [OF md sw e] True show ?thesis by simp
      next
        case noskip: False
        have frm: "(case ev_current s of None \<Rightarrow> Inr b
            | Some p \<Rightarrow> rbind (index_chk (ev_threads s) p) (\<lambda>t. Inr (context_ptr t)))
          = Inr (running_ctx b (ev_threads s) (ev_current s))"
          using cur by (auto simp: running_ctx_def split: option.splits)
        have "tick_prepare s b n = Inr (Some (running_ctx b (ev_threads s) (ev_current s), context_ptr (ev_threads s ! i)),
            s\<lparr>metadata := md, min_vruntime := new_min_vruntime md (min_vruntime s),
             ev_current := Some i, last_switch_tick := n\<rparr>)"
          using noskip i
          by (simp add: tick_prepare_def Let_def sat False md sw nxt Some frm)
        with tick switch [OF md sw e noskip] show ?thesis by simp
      qed
    qed
  qed
qed

section \<open>The scheduler meets its interface\<close>

definition is_blocked :: "EevdfScheduler \<Rightarrow> nat \<Rightarrow> bool" where
  "is_blocked s j = blocked (metadata s ! j)"

text \<open>Marking the current thread, the first half of \<open>block_current_and_prepare_switch\<close>.\<close>

definition block_current :: "EevdfScheduler \<Rightarrow> EevdfScheduler" where
  "block_current s = (case ev_current s of None \<Rightarrow> s
     | Some i \<Rightarrow> s\<lparr>metadata := (metadata s)[i := (metadata s ! i)\<lparr>blocked := True\<rparr>]\<rparr>)"

lemma block_current_eq:
  "eevdf_inv s \<Longrightarrow> block_current_and_prepare_switch s b n = tick_prepare (block_current s) b n"
  by (auto simp: block_current_and_prepare_switch_def block_current_def eevdf_inv_def split: option.splits)

lemma block_current_inv: "eevdf_inv s \<Longrightarrow> eevdf_inv (block_current s)"
  by (auto simp: eevdf_inv_def block_current_def list_all_length nth_list_update split: option.splits)

lemma block_current_simps [simp]:
  "ev_threads (block_current s) = ev_threads s"
  "ev_current (block_current s) = ev_current s"
  "last_switch_tick (block_current s) = last_switch_tick s"
  by (simp_all add: block_current_def split: option.splits)

lemma is_blocked_block_current:
  "eevdf_inv s \<Longrightarrow> j < length (ev_threads s) \<Longrightarrow>
     is_blocked (block_current s) j \<longleftrightarrow> is_blocked s j \<or> ev_current s = Some j"
  by (auto simp: eevdf_inv_def block_current_def is_blocked_def nth_list_update split: option.splits)

lemma tick_prepare_frame:
  assumes tick: "tick_prepare s b n = Inr (r, s')" and inv: "eevdf_inv s"
  shows "ev_threads s' = ev_threads s" and "eevdf_inv s'"
    and "map weight (metadata s') = map weight (metadata s)"
    and "map blocked (metadata s') = map blocked (metadata s)"
proof -
  have "ev_threads s' = ev_threads s \<and> eevdf_inv s' \<and> map weight (metadata s') = map weight (metadata s)
    \<and> map blocked (metadata s') = map blocked (metadata s)"
    using tick inv
  proof (cases rule: tick_prepareE)
    case no_threads
    with inv show ?thesis by simp
  next
    case (all_blocked md)
    with charge_inv [OF inv all_blocked(1)] charge_frame(2,3) [OF all_blocked(1)] inv
    show ?thesis by (simp add: eevdf_inv_def)
  next
    case (keep md sw i)
    with charge_inv [OF inv keep(1)] charge_frame(2,3) [OF keep(1)] inv
    show ?thesis by (simp add: eevdf_inv_def)
  next
    case (switch md sw i)
    with charge_inv [OF inv switch(1)] charge_frame(2,3) [OF switch(1)] inv
    show ?thesis by (simp add: eevdf_inv_def earliest_def)
  qed
  then show "ev_threads s' = ev_threads s" and "eevdf_inv s'"
    and "map weight (metadata s') = map weight (metadata s)"
    and "map blocked (metadata s') = map blocked (metadata s)" by simp_all
qed

lemma is_blocked_tick:
  assumes "tick_prepare s b n = Inr (r, s')" and "eevdf_inv s" and "j < length (ev_threads s)"
  shows "is_blocked s' j \<longleftrightarrow> is_blocked s j"
proof -
  note fr = tick_prepare_frame [OF assms(1,2)]
  have "length (metadata s') = length (ev_threads s)" "length (metadata s) = length (ev_threads s)"
    using fr assms(2) by (simp_all add: eevdf_inv_def)
  then show ?thesis
    using arg_cong [OF fr(4), of "\<lambda>bs. bs ! j"] assms(3) by (simp add: is_blocked_def)
qed

lemma tick_prepare_None:
  "tick_prepare s b n = Inr (None, s') \<Longrightarrow> eevdf_inv s \<Longrightarrow> ev_current s' = ev_current s"
  by (cases rule: tick_prepareE) auto

lemma tick_prepare_Some:
  assumes "tick_prepare s b n = Inr (Some (f, p), s')" and "eevdf_inv s"
  obtains i where "ev_current s' = Some i" and "i < length (ev_threads s)" and "\<not> is_blocked s' i"
    and "f = running_ctx b (ev_threads s) (ev_current s)" and "p = context_ptr (ev_threads s ! i)"
  using assms(1,2)
proof (cases rule: tick_prepareE)
  case (switch md sw i)
  then show ?thesis
    using that [of i] charge_inv(1) [OF assms(2) switch(1)]
    by (simp add: earliest_def eligible_def is_blocked_def)
qed simp_all

lemma unblock_from_spec:
  assumes "i + length ts \<le> length md"
  shows "\<exists>md'. unblock_from i ts tid md = Inr md' \<and> length md' = length md
    \<and> (\<forall>j < length md. weight (md' ! j) = weight (md ! j) \<and> vruntime (md' ! j) = vruntime (md ! j))
    \<and> (distinct (map thread_id ts) \<longrightarrow> (\<forall>j < length md. blocked (md' ! j) \<longleftrightarrow>
         blocked (md ! j) \<and> \<not> (i \<le> j \<and> j < i + length ts \<and> thread_id (ts ! (j - i)) = tid)))"
  using assms
proof (induction ts arbitrary: i)
  case Nil
  then show ?case by simp
next
  case (Cons t ts)
  show ?case
  proof (cases "thread_id t = tid")
    case True
    have only: "j = i" if "distinct (map thread_id (t # ts))" "i \<le> j" "j < i + length (t # ts)"
      "thread_id ((t # ts) ! (j - i)) = tid" for j
    proof (rule ccontr)
      assume "j \<noteq> i"
      with that obtain k where k: "j - i = Suc k" "k < length ts" by (cases "j - i") auto
      with that True have "thread_id (ts ! k) = thread_id t" by simp
      with that k show False by (metis distinct.simps(2) image_eqI list.map(2) list.set_map nth_mem)
    qed
    let ?md = "md[i := (md ! i)\<lparr>blocked := False\<rparr>]"
    have "unblock_from i (t # ts) tid md = Inr ?md" using True Cons.prems by simp
    moreover have "\<forall>j < length md. weight (?md ! j) = weight (md ! j) \<and> vruntime (?md ! j) = vruntime (md ! j)"
      using Cons.prems by (simp add: nth_list_update)
    moreover have "blocked (?md ! j) \<longleftrightarrow> blocked (md ! j)
        \<and> \<not> (i \<le> j \<and> j < i + length (t # ts) \<and> thread_id ((t # ts) ! (j - i)) = tid)"
      if "distinct (map thread_id (t # ts))" "j < length md" for j
    proof (cases "j = i")
      case j: True
      with True that show ?thesis by simp
    next
      case False
      with only [OF that(1), of j] show ?thesis by auto
    qed
    ultimately show ?thesis by (intro exI [of _ ?md]) simp
  next
    case False
    have "i \<le> j \<and> j < i + length (t # ts) \<and> thread_id ((t # ts) ! (j - i)) = tid \<longleftrightarrow>
        Suc i \<le> j \<and> j < Suc i + length ts \<and> thread_id (ts ! (j - Suc i)) = tid" for j
      using False by (cases "j = i") (auto simp: nth_Cons')
    with Cons.IH [of "Suc i"] Cons.prems False show ?thesis by simp blast
  qed
qed

lemma unblock_thread_spec:
  assumes inv: "eevdf_inv s"
  shows "\<exists>s'. unblock_thread s tid = Inr s' \<and> eevdf_inv s' \<and> ev_threads s' = ev_threads s
    \<and> ev_current s' = ev_current s
    \<and> (distinct (map thread_id (ev_threads s)) \<longrightarrow> (\<forall>j < length (ev_threads s).
         is_blocked s' j \<longleftrightarrow> is_blocked s j \<and> thread_id (ev_threads s ! j) \<noteq> tid))"
proof -
  obtain md' where "unblock_from 0 (ev_threads s) tid (metadata s) = Inr md'"
    and "length md' = length (metadata s)"
    and "\<forall>j < length (metadata s). weight (md' ! j) = weight (metadata s ! j)"
    and "distinct (map thread_id (ev_threads s)) \<longrightarrow> (\<forall>j < length (metadata s). blocked (md' ! j) \<longleftrightarrow>
         blocked (metadata s ! j) \<and> \<not> (j < length (ev_threads s) \<and> thread_id (ev_threads s ! j) = tid))"
    using unblock_from_spec [of 0 "ev_threads s" "metadata s" tid] inv
    by (auto simp: eevdf_inv_def)
  with inv show ?thesis
    by (auto simp: unblock_thread_def eevdf_inv_def list_all_length is_blocked_def)
qed

interpretation ev: blocking_scheduler ev_threads ev_current eevdf_inv eevdf_new eevdf_spawn
  eevdf_spawn_with_weight tick_prepare is_blocked block_current_and_prepare_switch unblock_thread
proof unfold_locales
  fix s s' :: EevdfScheduler and b n r f p i j tid
  assume inv: "eevdf_inv s"
  show "ev_current s = Some i \<Longrightarrow> i < length (ev_threads s)"
    by (rule eevdf_invD(2) [OF inv])
  show "eevdf_inv (eevdf_spawn s t)" "eevdf_inv (eevdf_spawn_with_weight s t w)" for t w
    using inv by (auto simp: eevdf_inv_def eevdf_spawn_def eevdf_spawn_with_weight_def meta_new_def
      DEFAULT_WEIGHT_def Let_def split: option.splits)
  show "tick_prepare s b n = Inr (r, s') \<Longrightarrow> eevdf_inv s'"
    and "tick_prepare s b n = Inr (r, s') \<Longrightarrow> ev_threads s' = ev_threads s"
    using inv by (auto dest: tick_prepare_frame)
  show "tick_prepare s b n = Inr (None, s') \<Longrightarrow> ev_current s' = ev_current s"
    using inv by (auto dest: tick_prepare_None)
  show "tick_prepare s b n = Inr (Some (f, p), s') \<Longrightarrow>
      f = running_ctx b (ev_threads s) (ev_current s) \<and> p = running_ctx b (ev_threads s') (ev_current s')
      \<and> ev_current s' \<noteq> None"
    by (frule tick_prepare_frame(1) [OF _ inv], erule tick_prepare_Some [OF _ inv])
      (simp add: running_ctx_def)
  note blk = block_current_eq [OF inv] and binv = block_current_inv [OF inv]
  show "block_current_and_prepare_switch s b n = Inr (r, s') \<Longrightarrow> eevdf_inv s'"
    and "block_current_and_prepare_switch s b n = Inr (r, s') \<Longrightarrow> ev_threads s' = ev_threads s"
    using binv by (auto simp: blk dest: tick_prepare_frame)
  show "block_current_and_prepare_switch s b n = Inr (r, s') \<Longrightarrow> j < length (ev_threads s) \<Longrightarrow>
      is_blocked s' j \<longleftrightarrow> is_blocked s j \<or> ev_current s = Some j"
    using binv by (simp add: blk is_blocked_tick is_blocked_block_current inv)
  show "block_current_and_prepare_switch s b n = Inr (None, s') \<Longrightarrow> ev_current s' = ev_current s"
    using tick_prepare_None [OF _ binv] by (simp add: blk)
  show "block_current_and_prepare_switch s b n = Inr (Some (f, p), s') \<Longrightarrow>
      f = running_ctx b (ev_threads s) (ev_current s) \<and> p = running_ctx b (ev_threads s') (ev_current s')
      \<and> (\<exists>j. ev_current s' = Some j \<and> \<not> is_blocked s' j)"
    unfolding blk
    by (frule tick_prepare_frame(1) [OF _ binv], erule tick_prepare_Some [OF _ binv])
      (simp add: running_ctx_def)
  show "\<exists>s'. unblock_thread s tid = Inr s'"
    using unblock_thread_spec [OF inv] by blast
  show "unblock_thread s tid = Inr s' \<Longrightarrow>
      eevdf_inv s' \<and> ev_threads s' = ev_threads s \<and> ev_current s' = ev_current s"
    using unblock_thread_spec [OF inv, of tid] by auto
  show "unblock_thread s tid = Inr s' \<Longrightarrow> distinct (map thread_id (ev_threads s)) \<Longrightarrow>
      j < length (ev_threads s) \<Longrightarrow>
      is_blocked s' j \<longleftrightarrow> is_blocked s j \<and> thread_id (ev_threads s ! j) \<noteq> tid"
    using unblock_thread_spec [OF inv, of tid] by auto
qed (auto simp: eevdf_inv_def eevdf_new_def eevdf_spawn_def eevdf_spawn_with_weight_def Let_def)

section \<open>Panics\<close>

text \<open>A total outcome: no panic other than arithmetic overflow.\<close>

definition only_overflow :: "'a res \<Rightarrow> bool" where
  "only_overflow m \<longleftrightarrow> (\<forall>e. m = Inl e \<longrightarrow> e = ArithOverflow)"

lemma only_overflow_Inr [simp]: "only_overflow (Inr x)"
  and only_overflow_Inl [simp]: "only_overflow (Inl e) \<longleftrightarrow> e = ArithOverflow"
  by (simp_all add: only_overflow_def)

lemma only_overflow_bind:
  "only_overflow m \<Longrightarrow> (\<And>x. m = Inr x \<Longrightarrow> only_overflow (f x)) \<Longrightarrow> only_overflow (rbind m f)"
  by (cases m) simp_all

lemma only_overflow_arith [simp]:
  "only_overflow (add_ovf x y)" "only_overflow (mul_ovf x y)" "only_overflow (sub_ovf x y)"
  "only_overflow (sum_ovf xs)" "d \<noteq> 0 \<Longrightarrow> only_overflow (div_chk x d)"
proof -
  have "only_overflow (sum_from acc xs)" for acc
    by (induction xs arbitrary: acc) (auto simp: add_ovf_def intro: only_overflow_bind)
  then show "only_overflow (sum_ovf xs)" by (simp add: sum_ovf_def)
qed (simp_all add: add_ovf_def mul_ovf_def sub_ovf_def div_chk_def)

lemma only_overflow_deadline: "only_overflow (virtual_deadline m ts sw)"
  by (simp add: virtual_deadline_def only_overflow_bind)

lemma only_overflow_min_by:
  assumes "\<And>x. only_overflow (key x)"
  shows "only_overflow (min_by key xs)"
proof -
  have "only_overflow (min_by_from key x ys)" for x ys
    by (induction ys arbitrary: x) (auto intro!: only_overflow_bind assms)
  then show ?thesis by (cases xs) (simp_all add: only_overflow_bind)
qed

lemma only_overflow_charge: "eevdf_inv s \<Longrightarrow> only_overflow (charge s ts)"
  by (auto simp: charge_def sum_weights_def eevdf_inv_def intro!: only_overflow_bind split: option.splits)

lemma only_overflow_pick: "only_overflow (pick_next md minv ts sw)"
  unfolding pick_next_def Let_def
  by (rule only_overflow_bind [OF only_overflow_min_by])
    (auto simp: only_overflow_deadline split: prod.splits)

text \<open>
  The bound below which no operation of a tick overflows: the slice times the sum of all weights,
  scaled, fits twice on top of every virtual runtime.
\<close>

definition total_weight :: "ThreadMeta list \<Rightarrow> nat" where
  "total_weight md = sum_list (map (unat \<circ> weight) md)"

definition headroom :: "ThreadMeta list \<Rightarrow> u64 \<Rightarrow> bool" where
  "headroom md ts \<longleftrightarrow> list_all (\<lambda>m. unat (vruntime m) + 2 * (unat ts * total_weight md * 1024) < 2 ^ 64) md"

lemma total_weight_bounds:
  "sum_list (map unat (map weight (filter P md))) \<le> total_weight md"
  "m \<in> set md \<Longrightarrow> unat (weight m) \<le> total_weight md"
proof -
  show "sum_list (map unat (map weight (filter P md))) \<le> total_weight md"
    unfolding total_weight_def by (induction md) auto
  show "m \<in> set md \<Longrightarrow> unat (weight m) \<le> total_weight md"
    unfolding total_weight_def by (induction md) auto
qed

lemma sum_weights_total:
  assumes "total_weight md < 2 ^ 64"
  shows "\<exists>sw. sum_weights md = Inr sw \<and> unat sw \<le> total_weight md"
proof -
  have b: "sum_list (map unat (map weight (runnable md))) \<le> total_weight md"
    unfolding runnable_def by (rule total_weight_bounds)
  then obtain sw where sw: "sum_weights md = Inr sw"
    using assms sum_ovf_total [of "map weight (runnable md)"] by (auto simp: sum_weights_def)
  with b sum_ovf_unat [of "map weight (runnable md)" sw] show ?thesis by (simp add: sum_weights_def)
qed

text \<open>Both formulas scale \<open>slice * weight * 1024\<close>; neither product overflows below the bound.\<close>

lemma scaled_total:
  assumes "unat ts * W * 1024 < 2 ^ 64" and "unat w \<le> W" and "(d :: u64) \<noteq> 0"
  shows "\<exists>c. rbind (mul_ovf ts w) (\<lambda>a. rbind (mul_ovf a 1024) (\<lambda>b. div_chk b d)) = Inr c
    \<and> unat c \<le> unat ts * W * 1024 \<and> unat c = unat ts * unat w * 1024 div unat d"
proof -
  have "unat ts * unat w \<le> unat ts * W" using assms(2) by simp
  then have le: "unat ts * unat w * 1024 \<le> unat ts * W * 1024" and lt: "unat ts * unat w < 2 ^ 64"
    using assms(1) by linarith+
  have m1: "mul_ovf ts w = Inr (ts * w)" and u1: "unat (ts * w) = unat ts * unat w"
    using lt by (simp_all add: mul_ovf_def unat_mul_no_ovf)
  have "unat (ts * w) * unat (1024 :: u64) < 2 ^ LENGTH(64)" using le_less_trans [OF le assms(1)] by (simp add: u1)
  then have m2: "mul_ovf (ts * w) 1024 = Inr (ts * w * 1024)"
    and u2: "unat (ts * w * 1024) = unat ts * unat w * 1024"
    by (simp_all add: mul_ovf_def unat_mul_no_ovf u1)
  have "unat (ts * w * 1024 div d) = unat ts * unat w * 1024 div unat d"
    by (simp only: unat_div u2)
  moreover have "unat ts * unat w * 1024 div unat d \<le> unat ts * W * 1024"
    using le div_le_dividend le_trans by blast
  ultimately show ?thesis using assms(3) by (simp add: m1 m2 div_chk_def)
qed

lemma headroomD:
  assumes "headroom md ts" and "0 < ts" and "md \<noteq> []"
  shows "unat ts * total_weight md * 1024 < 2 ^ 64" and "total_weight md < 2 ^ 64"
proof -
  obtain m where "m \<in> set md" using assms(3) by (cases md) auto
  with assms(1) have *: "unat (vruntime m) + 2 * (unat ts * total_weight md * 1024) < 2 ^ 64"
    by (auto simp: headroom_def list_all_iff)
  then show "unat ts * total_weight md * 1024 < 2 ^ 64" by linarith
  have "1 * total_weight md \<le> unat ts * total_weight md"
    using assms(2) by (intro mult_right_mono) (simp_all add: word_less_nat_alt)
  with * show "total_weight md < 2 ^ 64" by linarith
qed

lemma charge_total:
  assumes inv: "eevdf_inv s" and ne: "metadata s \<noteq> []" and ts: "0 < ts" and hd: "headroom (metadata s) ts"
  shows "\<exists>md. charge s ts = Inr md \<and> (\<forall>m \<in> set md.
    unat (vruntime m) + unat ts * total_weight (metadata s) * 1024 < 2 ^ 64)"
proof (cases "ev_current s")
  case None
  with hd show ?thesis by (fastforce simp: charge_def headroom_def list_all_iff)
next
  case (Some i)
  let ?W = "total_weight (metadata s)" and ?m = "metadata s ! i"
  have i: "i < length (metadata s)" using inv Some by (simp add: eevdf_inv_def)
  obtain sw where sw: "sum_weights (metadata s) = Inr sw" using sum_weights_total headroomD(2) [OF hd ts ne] by blast
  show ?thesis
  proof (cases "0 < sw")
    case False
    with hd show ?thesis by (fastforce simp: charge_def Some sw headroom_def list_all_iff)
  next
    case True
    obtain c where c: "rbind (mul_ovf ts (weight ?m)) (\<lambda>a. rbind (mul_ovf a 1024) (\<lambda>b. div_chk b sw)) = Inr c"
      and le: "unat c \<le> unat ts * ?W * 1024"
      using scaled_total [OF headroomD(1) [OF hd ts ne] total_weight_bounds(2) [OF nth_mem [OF i]], of sw] True
      by blast
    have v: "unat (vruntime m) + 2 * (unat ts * ?W * 1024) < 2 ^ 64" if "m \<in> set (metadata s)" for m
      using hd that by (simp add: headroom_def list_all_iff)
    have add: "add_ovf (vruntime ?m) c = Inr (vruntime ?m + c)"
      and u: "unat (vruntime ?m + c) = unat (vruntime ?m) + unat c"
      using v [of ?m] le i by (simp_all add: add_ovf_def unat_add_no_ovf)
    have "charge s ts = Inr ((metadata s)[i := ?m\<lparr>vruntime := vruntime ?m + c\<rparr>])"
      using c True i by (auto simp: charge_def Some sw rbind_eq_Inr add)
    moreover have "unat (vruntime m) + unat ts * ?W * 1024 < 2 ^ 64"
      if "m \<in> set ((metadata s)[i := ?m\<lparr>vruntime := vruntime ?m + c\<rparr>])" for m
      using set_update_subset_insert [THEN subsetD, OF that] v [of ?m] v [of m] i le by (auto simp: u)
    ultimately show ?thesis by blast
  qed
qed

lemma virtual_deadline_total:
  assumes "unat (vruntime m) + unat ts * W * 1024 < 2 ^ 64" and "unat sw \<le> W"
  shows "\<exists>d. virtual_deadline m ts sw = Inr d"
proof (cases "weight m = 0")
  case True
  then show ?thesis by (simp add: virtual_deadline_def)
next
  case False
  obtain c where c: "rbind (mul_ovf ts sw) (\<lambda>a. rbind (mul_ovf a 1024) (\<lambda>b. div_chk b (weight m))) = Inr c"
    and "unat c \<le> unat ts * W * 1024"
    using scaled_total [OF le_less_trans [OF le_add2 assms(1)] assms(2) False] by blast
  then have "add_ovf (vruntime m) c = Inr (vruntime m + c)" using assms(1) by (simp add: add_ovf_def)
  with c False show ?thesis by (auto simp: virtual_deadline_def rbind_eq_Inr)
qed

lemma min_by_total:
  assumes "\<And>x. x \<in> set xs \<Longrightarrow> \<exists>k. key x = Inr k"
  shows "\<exists>r. min_by key xs = Inr r"
proof -
  have "\<exists>r. min_by_from key x ys = Inr r" if "\<And>z. z \<in> set (x # ys) \<Longrightarrow> \<exists>k. key z = Inr k" for x ys
    using that
  proof (induction ys arbitrary: x)
    case (Cons y ys)
    obtain a b where "key x = Inr a" "key y = Inr b" using Cons.prems [of x] Cons.prems [of y] by auto
    with Cons.IH [of x] Cons.IH [of y] Cons.prems show ?case by auto
  qed simp
  with assms show ?thesis by (cases xs) (auto simp: rbind_eq_Inr)
qed

lemma time_slice_pos: "0 < time_slice_of s n"
  by (auto simp: time_slice_of_def MIN_TIME_SLICE_def word_less_nat_alt max_def word_le_nat_alt split: option.splits)

lemma total_weight_charge: "charge s ts = Inr md \<Longrightarrow> total_weight md = total_weight (metadata s)"
  by (drule charge_frame(2)) (simp add: total_weight_def flip: map_map)

lemma pick_next_total:
  assumes "\<And>m. m \<in> set md \<Longrightarrow> unat (vruntime m) + unat ts * W * 1024 < 2 ^ 64" and "unat sw \<le> W"
  shows "\<exists>r. pick_next md minv ts sw = Inr r"
proof -
  have "\<exists>r. min_by (\<lambda>(_, m). virtual_deadline m ts sw)
      (filter (\<lambda>(_, m). eligible minv (max sw 1) m) (List.enumerate 0 md)) = Inr r"
    by (rule min_by_total) (auto simp: in_set_enumerate_eq intro!: virtual_deadline_total [OF assms])
  then show ?thesis by (auto simp: pick_next_def Let_def)
qed

lemma tick_prepare_eq_pick:
  assumes inv: "eevdf_inv s" and "charge s (time_slice_of s n) = Inr md" and "sum_weights md = Inr sw"
    and "pick_next md (new_min_vruntime md (min_vruntime s)) (time_slice_of s n) sw = Inr r"
  shows "\<exists>out. tick_prepare s b n = Inr out"
proof -
  have len: "length md = length (ev_threads s)" using charge_inv(1) [OF inv assms(2)] .
  have "i < length (ev_threads s)" if "r = Some i" for i
    using pick_next_spec [OF assms(4)] len that by (simp add: earliest_def)
  then show ?thesis
    using assms eevdf_invD(2) [OF inv]
    by (auto simp: tick_prepare_def Let_def rbind_eq_Inr split: option.splits)
qed

text \<open>When a tick returns no switch.\<close>

lemma idle_iff:
  assumes "eevdf_inv s" and "tick_prepare s b n = Inr (r, s')"
  shows "r = None \<longleftrightarrow> list_all blocked (metadata s)
    \<or> (n \<noteq> 0 \<and> n \<le> last_switch_tick s \<and> (\<exists>i sw. ev_current s = Some i \<and> sum_weights (metadata s') = Inr sw
         \<and> earliest (metadata s') (min_vruntime s') (time_slice_of s n) sw i))"
  using assms(2,1)
proof (cases rule: tick_prepareE)
  case no_threads
  then show ?thesis using assms(1) by (simp add: eevdf_inv_def)
next
  case (all_blocked md)
  have "map blocked md = map blocked (metadata s)" by (rule charge_frame(3) [OF all_blocked(1)])
  then have "list_all id (map blocked md) = list_all id (map blocked (metadata s))" by simp
  with all_blocked show ?thesis by (simp add: list.pred_map)
next
  case (keep md sw i)
  then show ?thesis by auto
next
  case (switch md sw i)
  have "i < length md" "\<not> blocked (md ! i)" using switch(3) by (simp_all add: earliest_def eligible_def)
  then have "\<not> list_all id (map blocked md)" by (auto simp: list_all_length)
  then have nb: "\<not> list_all blocked (metadata s)"
    unfolding charge_frame(3) [OF switch(1)] by (simp add: list.pred_map)
  have "j = i" if "earliest md mv ts sw i" "earliest md mv ts sw j" for j mv ts
    using that unfolding earliest_def by (metis linorder_neqE_nat not_less order.asym sum.inject(2))
  with switch nb show ?thesis by auto
qed

text \<open>How a call that blocks the running thread ends.\<close>

lemma block_current_outcome:
  assumes "eevdf_inv s" and "ev_current s = Some i"
    and "block_current_and_prepare_switch s b n = Inr (r, s')"
  shows "(\<forall>j < length (ev_threads s). is_blocked s' j \<longleftrightarrow> is_blocked s j \<or> j = i)
    \<and> (case r of
          None \<Rightarrow> (\<forall>j < length (ev_threads s). j \<noteq> i \<longrightarrow> is_blocked s j) \<and> ev_current s' = Some i
        | Some (f, p) \<Rightarrow> \<exists>j < length (ev_threads s). j \<noteq> i \<and> \<not> is_blocked s j \<and> ev_current s' = Some j
            \<and> f = context_ptr (ev_threads s ! i) \<and> p = context_ptr (ev_threads s ! j))"
proof -
  have blk: "is_blocked s' j \<longleftrightarrow> is_blocked s j \<or> j = i" if "j < length (ev_threads s)" for j
    using ev.block_blocks [OF assms(1,3) that] assms(2) by auto
  have tick: "tick_prepare (block_current s) b n = Inr (r, s')" and inv: "eevdf_inv (block_current s)"
    using assms(1,3) by (simp_all add: block_current_eq block_current_inv)
  have i: "i < length (ev_threads s)" by (rule eevdf_invD(2) [OF assms(1,2)])
  show ?thesis
  proof (cases r)
    case None
    have "\<not> earliest (metadata s') mv ts sw i" for mv ts sw
      using blk [OF i] by (simp add: earliest_def eligible_def is_blocked_def)
    then have "list_all blocked (metadata (block_current s))"
      using idle_iff [OF inv tick] None assms(2) by auto
    then have "is_blocked (block_current s) j" if "j < length (ev_threads s)" for j
      using that eevdf_invD(1) [OF inv] by (simp add: list_all_length is_blocked_def)
    moreover have "ev_current s' = Some i" using ev.block_None [OF assms(1)] assms(2,3) None by simp
    ultimately show ?thesis
      using blk None is_blocked_block_current [OF assms(1)] assms(2) by auto
  next
    case (Some sw)
    obtain f p where sw: "r = Some (f, p)" using Some by (cases sw) auto
    obtain j where j: "ev_current s' = Some j" "j < length (ev_threads s)" "\<not> is_blocked s' j"
      "f = running_ctx b (ev_threads s) (Some i)" "p = context_ptr (ev_threads s ! j)"
      by (rule tick_prepare_Some [OF tick [unfolded sw] inv]) (simp add: assms(2))
    with blk show ?thesis by (auto simp: sw running_ctx_def)
  qed
qed

section \<open>Properties\<close>

text \<open>
  C4. Earliest eligible virtual deadline first. When a tick switches, the thread it switches to is runnable,
  lies within the lag tolerance of the smallest runnable virtual runtime (which the tick has just
  recomputed), and no other eligible thread has an earlier virtual deadline; among equal
  deadlines the lowest index wins. The switch saves into the context that was running.
\<close>

theorem eevdf_picks_earliest:
  assumes "eevdf_inv s" and "tick_prepare s b n = Inr (Some (f, p), s')"
  shows "\<exists>i sw. ev_current s' = Some i \<and> p = context_ptr (ev_threads s' ! i)
    \<and> f = running_ctx b (ev_threads s) (ev_current s)
    \<and> sum_weights (metadata s') = Inr sw
    \<and> earliest (metadata s') (min_vruntime s') (time_slice_of s n) sw i
    \<and> list_all (\<lambda>m. min_vruntime s' \<le> vruntime m) (runnable (metadata s'))"
  using assms(2,1)
proof (cases rule: tick_prepareE)
  case (switch md sw i)
  have "list_all (\<lambda>m. new_min_vruntime md (min_vruntime s) \<le> vruntime m) (runnable md)"
    using new_min_vruntime_spec(2) by (auto simp: list_all_iff runnable_def)
  with switch show ?thesis by (intro exI [of _ i] exI [of _ sw]) simp
qed simp_all

text \<open>
  A tick declines to switch in exactly two situations: no thread is runnable (or there is none), or
  the running thread is still the best choice and the tick counter has not advanced since the
  last switch. So the processor never idles on a blocked thread while another one could run.
\<close>

theorem eevdf_idle_iff:
  assumes "eevdf_inv s" and "tick_prepare s b n = Inr (r, s')"
  shows "r = None \<longleftrightarrow> list_all blocked (metadata s)
    \<or> (n \<noteq> 0 \<and> n \<le> last_switch_tick s \<and> (\<exists>i sw. ev_current s = Some i \<and> sum_weights (metadata s') = Inr sw
         \<and> earliest (metadata s') (min_vruntime s') (time_slice_of s n) sw i))"
  by (rule idle_iff [OF assms])

text \<open>
  A tick never indexes out of bounds and never divides by zero, whatever the weights, ticks and
  virtual runtimes: the only way it can panic is the overflow of an arithmetic operation.
\<close>

theorem eevdf_panics_only_on_overflow:
  assumes "eevdf_inv s" and "tick_prepare s b n = Inl e"
  shows "e = ArithOverflow"
proof -
  have "only_overflow (tick_prepare s b n)"
  proof (cases "charge s (time_slice_of s n)")
    case (Inl e)
    with only_overflow_charge [OF assms(1), of "time_slice_of s n"] show ?thesis by (simp add: tick_prepare_def)
  next
    case (Inr md)
    show ?thesis
    proof (cases "sum_weights md")
      case sw: (Inl e)
      have "only_overflow (sum_weights md)" by (simp add: sum_weights_def)
      with Inr sw show ?thesis by (simp add: tick_prepare_def Let_def)
    next
      case sw: (Inr sw)
      let ?p = "pick_next md (new_min_vruntime md (min_vruntime s)) (time_slice_of s n) sw"
      show ?thesis
      proof (cases ?p)
        case (Inl e)
        with only_overflow_pick [of md "new_min_vruntime md (min_vruntime s)" "time_slice_of s n" sw] Inr sw
        show ?thesis by (simp add: tick_prepare_def Let_def)
      next
        case pk: (Inr r)
        from tick_prepare_eq_pick [OF assms(1) Inr sw pk, of b] show ?thesis by auto
      qed
    qed
  qed
  with assms(2) show ?thesis by simp
qed

text \<open>
  Below the headroom bound a tick does not panic at all: if twice the time slice times the sum of all
  weights, scaled by 1024, still fits on top of every virtual runtime, the tick returns.
\<close>

theorem eevdf_tick_total:
  assumes "eevdf_inv s" and "headroom (metadata s) (time_slice_of s n)"
  shows "\<exists>r s'. tick_prepare s b n = Inr (r, s')"
proof (cases "metadata s = []")
  case True
  with assms(1) have "ev_threads s = []" by (simp add: eevdf_inv_def)
  then show ?thesis by (simp add: tick_prepare_def)
next
  case False
  let ?ts = "time_slice_of s n"
  obtain md where md: "charge s ?ts = Inr md"
    and v: "\<forall>m \<in> set md. unat (vruntime m) + unat ?ts * total_weight (metadata s) * 1024 < 2 ^ 64"
    using charge_total [OF assms(1) False time_slice_pos assms(2)] by blast
  have W: "total_weight md = total_weight (metadata s)" by (rule total_weight_charge [OF md])
  obtain sw where sw: "sum_weights md = Inr sw" "unat sw \<le> total_weight md"
    using sum_weights_total [of md] headroomD(2) [OF assms(2) time_slice_pos False] W by auto
  obtain r where "pick_next md (new_min_vruntime md (min_vruntime s)) ?ts sw = Inr r"
    using pick_next_total [of md ?ts "total_weight md" sw] v sw(2) W by auto
  from tick_prepare_eq_pick [OF assms(1) md sw(1) this] show ?thesis by auto
qed

text \<open>
  C5. Blocking the running thread. The call marks exactly that thread, and then either switches to a different
  thread that is not blocked, or returns without a switch, which happens exactly when every
  other thread is blocked already; in that case the blocked thread stays current.
\<close>

theorem eevdf_block_leaves:
  assumes "eevdf_inv s" and "ev_current s = Some i"
    and "block_current_and_prepare_switch s b n = Inr (r, s')"
  shows "(\<forall>j < length (ev_threads s). is_blocked s' j \<longleftrightarrow> is_blocked s j \<or> j = i)
    \<and> (case r of
          None \<Rightarrow> (\<forall>j < length (ev_threads s). j \<noteq> i \<longrightarrow> is_blocked s j) \<and> ev_current s' = Some i
        | Some (f, p) \<Rightarrow> \<exists>j < length (ev_threads s). j \<noteq> i \<and> \<not> is_blocked s j \<and> ev_current s' = Some j
            \<and> f = context_ptr (ev_threads s ! i) \<and> p = context_ptr (ev_threads s ! j))"
  by (rule block_current_outcome [OF assms])

text \<open>
  C31. Whatever sequence of spawns, ticks, blocks and unblocks the kernel performs, the switches the
  scheduler hands out form a chain: the first leaves the bootstrap context and each later one saves into
  the context the previous one entered, so no thread's context is ever overwritten by another's registers.
\<close>

theorem eevdf_switches_chained:
  assumes "run_ops (block_step (sched_step eevdf_spawn eevdf_spawn_with_weight tick_prepare b)
      block_current_and_prepare_switch unblock_thread b) os eevdf_new = Inr (sws, s')"
  shows "chained b sws"
  by (rule ev.bhist.boot_chained [OF assms])

section \<open>Examples\<close>

definition demo_eevdf :: EevdfScheduler where
  "demo_eevdf = \<lparr>ev_threads = [demo_thread 0, demo_thread 1],
     metadata = [\<lparr>vruntime = 0, weight = 1024, blocked = False\<rparr>, \<lparr>vruntime = 0, weight = 1024, blocked = False\<rparr>],
     ev_current = Some 0, min_vruntime = 0, last_switch_tick = 1\<rparr>"

definition demo_eevdf' :: EevdfScheduler where
  "demo_eevdf' = demo_eevdf\<lparr>metadata := [\<lparr>vruntime = 512, weight = 1024, blocked = False\<rparr>,
     \<lparr>vruntime = 0, weight = 1024, blocked = False\<rparr>], ev_current := Some 1, last_switch_tick := 2\<rparr>"

lemmas eevdf_eval = sched_step.simps tick_prepare_def time_slice_of_def charge_def
  sum_weights_def runnable_def new_min_vruntime_def pick_next_def eligible_def virtual_deadline_def
  eevdf_spawn_def eevdf_spawn_with_weight_def meta_new_def DEFAULT_WEIGHT_def MIN_TIME_SLICE_def
  add_ovf_def mul_ovf_def sub_ovf_def div_chk_def saturating_sub_def saturating_add_def
  sum_ovf_def index_chk_def Let_def enumerate_simps demo_thread_def

lemma demo_inv: "eevdf_inv demo_eevdf"
  by (simp add: eevdf_inv_def demo_eevdf_def)

lemma demo_tick: "tick_prepare demo_eevdf b 2 = Inr (Some (0x1000, 0x2000), demo_eevdf')"
  by (simp add: eevdf_eval demo_eevdf_def demo_eevdf'_def)

theorem eevdf_picks_earliest_witness:
  "eevdf_inv demo_eevdf \<and> tick_prepare demo_eevdf 0 2 = Inr (Some (0x1000, 0x2000), demo_eevdf')
   \<and> (\<exists>i sw. ev_current demo_eevdf' = Some i \<and> sum_weights (metadata demo_eevdf') = Inr sw
        \<and> earliest (metadata demo_eevdf') (min_vruntime demo_eevdf') (time_slice_of demo_eevdf 2) sw i)"
  using eevdf_picks_earliest [OF demo_inv demo_tick, of 0] demo_inv demo_tick by blast

theorem eevdf_idle_iff_witness:
  "eevdf_inv demo_eevdf \<and> tick_prepare demo_eevdf 0 2 = Inr (Some (0x1000, 0x2000), demo_eevdf')
   \<and> \<not> list_all blocked (metadata demo_eevdf)"
  using eevdf_idle_iff [OF demo_inv demo_tick] demo_inv demo_tick by blast

definition overflow_eevdf :: EevdfScheduler where
  "overflow_eevdf = demo_eevdf\<lparr>metadata := [\<lparr>vruntime = - 1, weight = 1024, blocked = False\<rparr>,
     \<lparr>vruntime = 0, weight = 1024, blocked = False\<rparr>]\<rparr>"

theorem eevdf_panics_only_on_overflow_witness:
  "eevdf_inv overflow_eevdf \<and> tick_prepare overflow_eevdf 0 2 = Inl ArithOverflow"
proof -
  have i: "eevdf_inv overflow_eevdf" by (simp add: eevdf_inv_def overflow_eevdf_def demo_eevdf_def)
  obtain e where e: "tick_prepare overflow_eevdf 0 2 = Inl e"
    by (simp add: eevdf_eval overflow_eevdf_def demo_eevdf_def unat_minus_1)
  with eevdf_panics_only_on_overflow [OF i e] i show ?thesis by simp
qed

theorem eevdf_tick_total_witness:
  "eevdf_inv demo_eevdf \<and> headroom (metadata demo_eevdf) (time_slice_of demo_eevdf 2)
   \<and> (\<exists>r s'. tick_prepare demo_eevdf 0 2 = Inr (r, s'))"
proof -
  have "headroom (metadata demo_eevdf) (time_slice_of demo_eevdf 2)"
    by (simp add: headroom_def total_weight_def demo_eevdf_def time_slice_of_def MIN_TIME_SLICE_def saturating_sub_def)
  with eevdf_tick_total [OF demo_inv this, of 0] demo_inv show ?thesis by blast
qed

theorem eevdf_block_leaves_witness:
  "\<exists>s'. block_current_and_prepare_switch demo_eevdf 0 2 = Inr (Some (0x1000, 0x2000), s')
     \<and> ev_current s' = Some 1 \<and> is_blocked s' 0"
proof -
  obtain s' where s: "block_current_and_prepare_switch demo_eevdf 0 2 = Inr (Some (0x1000, 0x2000), s')"
    and "ev_current s' = Some 1"
    by (simp add: eevdf_eval demo_eevdf_def block_current_and_prepare_switch_def)
  moreover have "ev_current demo_eevdf = Some 0" and "0 < length (ev_threads demo_eevdf)"
    by (simp_all add: demo_eevdf_def)
  ultimately show ?thesis using eevdf_block_leaves [OF demo_inv _ s] by blast
qed

theorem eevdf_switches_chained_witness:
  "\<exists>sws s'. run_ops (block_step (sched_step eevdf_spawn eevdf_spawn_with_weight tick_prepare 0)
      block_current_and_prepare_switch unblock_thread 0)
      [Sched (Spawn (demo_thread 0)), Sched (Spawn (demo_thread 1)), Sched (Tick 1), BlockCurrent 2, Unblock 0]
      eevdf_new = Inr (sws, s') \<and> length sws = 2 \<and> chained 0 sws"
proof -
  obtain sws s' where r: "run_ops (block_step (sched_step eevdf_spawn eevdf_spawn_with_weight tick_prepare 0)
      block_current_and_prepare_switch unblock_thread 0)
      [Sched (Spawn (demo_thread 0)), Sched (Spawn (demo_thread 1)), Sched (Tick 1), BlockCurrent 2, Unblock 0]
      eevdf_new = Inr (sws, s')" and "length sws = 2"
    by (simp add: eevdf_eval eevdf_new_def block_current_and_prepare_switch_def unblock_thread_def)
  with eevdf_switches_chained [OF r] show ?thesis by blast
qed

end
