(* ===== verification/Eevdf_Fairness.thy ===== *)
theory Eevdf_Fairness
  imports Eevdf
begin

text \<open>
  What the EEVDF scheduler of theory \<open>Eevdf\<close> does over time: how far virtual runtimes can
  drift apart, and what weights do to the share of the processor a thread gets.
\<close>

section \<open>Bounded lag\<close>

text \<open>
  \<open>W\<close> bounds the weight of the runnable threads, \<open>K\<close> the charge of one tick: no runnable
  thread is more than \<open>W + K\<close> ahead of the slowest one, and the running one not more than
  \<open>W\<close>, having been eligible when it was chosen.
\<close>

definition lag_inv :: "nat \<Rightarrow> nat \<Rightarrow> EevdfScheduler \<Rightarrow> bool" where
  "lag_inv W K s \<longleftrightarrow> 1 \<le> W \<and> total_weight (metadata s) \<le> W
     \<and> list_all (\<lambda>m. unat (vruntime m) \<le> unat (min_vruntime s) + W + K) (runnable (metadata s))
     \<and> list_all (\<lambda>m. min_vruntime s \<le> vruntime m) (runnable (metadata s))
     \<and> (\<forall>i. ev_current s = Some i \<and> \<not> is_blocked s i \<longrightarrow>
          unat (vruntime (metadata s ! i)) \<le> unat (min_vruntime s) + W)"

lemma charge_vruntime:
  assumes inv: "eevdf_inv s" and ch: "charge s ts = Inr md" and j: "j < length md" "\<not> is_blocked s j"
  shows "unat (vruntime (metadata s ! j)) \<le> unat (vruntime (md ! j))"
    and "ev_current s = Some j \<Longrightarrow> unat (vruntime (md ! j)) \<le> unat (vruntime (metadata s ! j)) + 1024 * unat ts"
proof -
  have len: "length md = length (metadata s)" by (rule charge_frame(1) [OF ch])
  have "unat (vruntime (metadata s ! j)) \<le> unat (vruntime (md ! j))
    \<and> (ev_current s = Some j \<longrightarrow> unat (vruntime (md ! j)) \<le> unat (vruntime (metadata s ! j)) + 1024 * unat ts)"
  proof (cases "ev_current s = Some j")
    case False
    then show ?thesis using charge_frame(4) [OF ch] by simp
  next
    case True
    obtain sw where sw: "sum_weights (metadata s) = Inr sw" using ch True by (auto simp: charge_def rbind_eq_Inr)
    show ?thesis
    proof (cases "0 < sw")
      case False
      with ch True sw show ?thesis by (simp add: charge_def)
    next
      case pos: True
      let ?w = "weight (metadata s ! j)"
      have "metadata s ! j \<in> set (runnable (metadata s))"
        using j len by (simp add: runnable_def is_blocked_def)
      then have "unat ?w \<le> unat sw"
        using sum_ovf_unat [OF sw [unfolded sum_weights_def]]
          member_le_sum_list [of "unat ?w" "map unat (map weight (runnable (metadata s)))"] by auto
      then have "unat ts * unat ?w * 1024 \<le> 1024 * unat ts * unat sw" by simp
      from div_le_mono [OF this, of "unat sw"]
      have le: "unat ts * unat ?w * 1024 div unat sw \<le> 1024 * unat ts"
        using pos by (simp add: word_less_nat_alt)
      obtain a b d v where steps: "mul_ovf ts ?w = Inr a" "mul_ovf a 1024 = Inr b" "div_chk b sw = Inr d"
        "add_ovf (vruntime (metadata s ! j)) d = Inr v" and md: "md = (metadata s)[j := (metadata s ! j)\<lparr>vruntime := v\<rparr>]"
        using ch True sw pos j len by (auto simp: charge_def rbind_eq_Inr)
      have "unat d = unat ts * unat ?w * 1024 div unat sw"
        using mul_ovf_unat [OF steps(1)] mul_ovf_unat [OF steps(2)] div_chk_unat [OF steps(3)] by simp
      then show ?thesis using le add_ovf_unat [OF steps(4)] md j len by simp
    qed
  qed
  then show "unat (vruntime (metadata s ! j)) \<le> unat (vruntime (md ! j))"
    and "ev_current s = Some j \<Longrightarrow> unat (vruntime (md ! j)) \<le> unat (vruntime (metadata s ! j)) + 1024 * unat ts"
    by simp_all
qed

lemma list_all_runnable:
  "list_all P (runnable md) \<longleftrightarrow> (\<forall>j < length md. \<not> blocked (md ! j) \<longrightarrow> P (md ! j))"
  by (auto simp: list_all_iff runnable_def in_set_conv_nth)

text \<open>What charging and recomputing the minimum do to the bounds.\<close>

lemma lag_charge:
  assumes inv: "eevdf_inv s" and lag: "lag_inv W K s" and ch: "charge s ts = Inr md"
    and K: "1024 * unat ts \<le> K" and j: "j < length md" "\<not> blocked (md ! j)"
  shows "unat (vruntime (md ! j)) \<le> unat (new_min_vruntime md (min_vruntime s)) + W + K"
    and "new_min_vruntime md (min_vruntime s) \<le> vruntime (md ! j)"
proof -
  let ?min = "new_min_vruntime md (min_vruntime s)"
  have len: "length md = length (metadata s)" and bl: "map blocked md = map blocked (metadata s)"
    by (rule charge_frame [OF ch])+
  have nb: "\<not> is_blocked s k" if "k < length md" "\<not> blocked (md ! k)" for k
    using that len arg_cong [OF bl, of "\<lambda>bs. bs ! k"] by (simp add: is_blocked_def)
  have lo: "unat (min_vruntime s) \<le> unat (vruntime (metadata s ! k))"
    and hi: "unat (vruntime (metadata s ! k)) \<le> unat (min_vruntime s) + W + K"
    if "k < length md" "\<not> blocked (md ! k)" for k
    using lag nb [OF that] that len
    by (auto simp: lag_inv_def list_all_runnable is_blocked_def word_le_nat_alt)
  obtain m' where "m' \<in> set md" "\<not> blocked m'" "vruntime m' = ?min"
    using new_min_vruntime_spec(1) [OF nth_mem [OF j(1)] j(2)] by blast
  then obtain k where k: "k < length md" "\<not> blocked (md ! k)" "vruntime (md ! k) = ?min"
    by (metis in_set_conv_nth)
  have mono: "unat (min_vruntime s) \<le> unat ?min"
    using lo [OF k(1,2)] charge_vruntime(1) [OF inv ch k(1) nb [OF k(1,2)]] k(3) by simp
  show "?min \<le> vruntime (md ! j)" by (rule new_min_vruntime_spec(2) [OF nth_mem [OF j(1)] j(2)])
  show "unat (vruntime (md ! j)) \<le> unat ?min + W + K"
  proof (cases "ev_current s = Some j")
    case True
    then have "unat (vruntime (metadata s ! j)) \<le> unat (min_vruntime s) + W"
      using lag nb [OF j] by (simp add: lag_inv_def)
    with charge_vruntime(2) [OF inv ch j(1) nb [OF j] True] mono K show ?thesis by linarith
  next
    case False
    with charge_frame(4) [OF ch] hi [OF j] mono show ?thesis by simp
  qed
qed

lemma tick_lag:
  assumes inv: "eevdf_inv s" and lag: "lag_inv W K s" and tick: "tick_prepare s b n = Inr (r, s')"
    and K: "1024 * unat (time_slice_of s n) \<le> K"
  shows "lag_inv W K s'"
proof -
  have W: "1 \<le> W" "total_weight (metadata s) \<le> W" using lag by (simp_all add: lag_inv_def)
  have go: "lag_inv W K s'"
    if md: "charge s (time_slice_of s n) = Inr md" and s': "metadata s' = md"
      "min_vruntime s' = new_min_vruntime md (min_vruntime s)"
      and cur: "\<And>i. ev_current s' = Some i \<Longrightarrow> \<not> blocked (md ! i) \<Longrightarrow>
        \<exists>sw ts. sum_weights md = Inr sw \<and> earliest md (new_min_vruntime md (min_vruntime s)) ts sw i" for md
  proof -
    have tw: "total_weight md \<le> W" using total_weight_charge [OF md] W by simp
    have "unat (vruntime (md ! i)) \<le> unat (new_min_vruntime md (min_vruntime s)) + W"
      if i: "ev_current s' = Some i" "\<not> blocked (md ! i)" for i
    proof -
      obtain sw ts where sw: "sum_weights md = Inr sw"
        and e: "earliest md (new_min_vruntime md (min_vruntime s)) ts sw i" using cur [OF i] by blast
      have "unat sw \<le> total_weight md"
        using sum_ovf_unat [OF sw [unfolded sum_weights_def]] total_weight_bounds(1) by (simp add: runnable_def)
      then have "unat (max sw 1) \<le> W" using tw W(1) by (simp add: max_def)
      with e show ?thesis
        by (auto simp: earliest_def eligible_def word_le_nat_alt saturating_add_unat)
    qed
    then show ?thesis
      using lag_charge [OF inv lag md K] W tw
      by (simp add: lag_inv_def s' list_all_runnable is_blocked_def)
  qed
  show ?thesis
    using tick inv
  proof (cases rule: tick_prepareE)
    case no_threads
    with lag show ?thesis by simp
  next
    case (all_blocked md)
    have "i < length md" if "ev_current s = Some i" for i
      using charge_inv(1) [OF inv all_blocked(1)] eevdf_invD(2) [OF inv that] by simp
    with all_blocked show ?thesis by (intro go [OF all_blocked(1)]) (auto simp: list_all_length)
  next
    case (keep md sw i)
    then show ?thesis by (intro go [OF keep(1)]) auto
  next
    case (switch md sw i)
    then show ?thesis by (intro go [OF switch(1)]) auto
  qed
qed

text \<open>Tick numbers that do not decrease and are at most \<open>d\<close> apart, from \<open>l\<close> on.\<close>

fun paced :: "u64 \<Rightarrow> nat \<Rightarrow> u64 list \<Rightarrow> bool" where
  "paced l d [] = True"
| "paced l d (n # ns) = (l \<le> n \<and> unat n - unat l \<le> d \<and> paced n d ns)"

lemma tick_last_switch:
  assumes "eevdf_inv s" and "list_all (\<lambda>m. \<not> blocked m) (metadata s)"
    and "tick_prepare s b n = Inr (r, s')" and "ev_current s = None \<or> last_switch_tick s \<le> n"
  shows "ev_current s' = None \<or> last_switch_tick s' = n"
  using assms(3,1)
proof (cases rule: tick_prepareE)
  case no_threads
  with assms(1) show ?thesis by (auto simp: eevdf_inv_def)
next
  case (all_blocked md)
  have "length md = length (ev_threads s)" by (rule charge_inv(1) [OF assms(1) all_blocked(1)])
  then have "md ! 0 \<in> set md" using all_blocked(3) by simp
  then have "True \<in> set (map blocked md)" using all_blocked(2) by (force simp: list_all_iff)
  then have False using assms(2) unfolding charge_frame(3) [OF all_blocked(1)] by (auto simp: list_all_iff)
  then show ?thesis ..
next
  case (keep md sw i)
  with assms(4) show ?thesis by auto
qed simp

lemma ticks_lag:
  assumes "eevdf_inv s" and "list_all (\<lambda>m. \<not> blocked m) (metadata s)" and "lag_inv W (1024 * d) s"
    and "1 \<le> d" and "ev_current s = None \<or> last_switch_tick s = l" and "paced l d ns"
    and "run_ops (sched_step eevdf_spawn eevdf_spawn_with_weight tick_prepare b) (map Tick ns) s = Inr (sws, s')"
  shows "lag_inv W (1024 * d) s'"
  using assms
proof (induction ns arbitrary: s l sws)
  case Nil
  then show ?case by simp
next
  case (Cons n ns)
  then obtain r s1 rs where t: "tick_prepare s b n = Inr (r, s1)"
    and rest: "run_ops (sched_step eevdf_spawn eevdf_spawn_with_weight tick_prepare b) (map Tick ns) s1 = Inr (rs, s')"
    by (auto simp: rbind_eq_Inr)
  note fr = tick_prepare_frame [OF t Cons.prems(1)]
  have "list_all (\<lambda>b. \<not> b) (map blocked (metadata s1))"
    unfolding fr(4) using Cons.prems(2) by (simp add: list.pred_map comp_def)
  then have nb: "list_all (\<lambda>m. \<not> blocked m) (metadata s1)" by (simp add: list.pred_map comp_def)
  have last: "ev_current s1 = None \<or> last_switch_tick s1 = n"
    using tick_last_switch [OF Cons.prems(1,2) t] Cons.prems(5,6) by auto
  have "unat (time_slice_of s n) \<le> d"
    using Cons.prems(4,5,6)
    by (auto simp: time_slice_of_def MIN_TIME_SLICE_def max_def saturating_sub_unat split: option.splits)
  then have "lag_inv W (1024 * d) s1" by (intro tick_lag [OF Cons.prems(1,3) t]) simp
  from Cons.IH [OF fr(2) nb this Cons.prems(4) last _ rest] Cons.prems(6) show ?case by simp
qed

lemma ticks_blocked:
  assumes "eevdf_inv s"
    and "run_ops (sched_step eevdf_spawn eevdf_spawn_with_weight tick_prepare b) (map Tick ns) s = Inr (sws, s')"
  shows "map blocked (metadata s') = map blocked (metadata s)"
  using assms
proof (induction ns arbitrary: s sws)
  case Nil
  then show ?case by simp
next
  case (Cons n ns)
  then obtain r s1 rs where t: "tick_prepare s b n = Inr (r, s1)"
    and rest: "run_ops (sched_step eevdf_spawn eevdf_spawn_with_weight tick_prepare b) (map Tick ns) s1 = Inr (rs, s')"
    by (auto simp: rbind_eq_Inr)
  note fr = tick_prepare_frame [OF t Cons.prems(1)]
  from Cons.IH [OF fr(2) rest] fr(4) show ?case by simp
qed

text \<open>Threads spawned before the first tick.\<close>

primrec spawn_all :: "(Thread \<times> u64) list \<Rightarrow> EevdfScheduler \<Rightarrow> EevdfScheduler" where
  "spawn_all [] s = s"
| "spawn_all (tw # tws) s = spawn_all tws (eevdf_spawn_with_weight s (fst tw) (snd tw))"

lemma spawn_all_state:
  "spawn_all tws s = s\<lparr>ev_threads := ev_threads s @ map fst tws,
     metadata := metadata s @ map (\<lambda>tw. \<lparr>vruntime = 0, weight = max (snd tw) 1, blocked = False\<rparr>) tws\<rparr>"
  by (induction tws arbitrary: s) (simp_all add: eevdf_spawn_with_weight_def meta_new_def Let_def)

text \<open>
  C32. Bounded lag. Start any number of threads with any weights, then let the timer tick at
  intervals of at most \<open>d\<close>: at every moment each thread's virtual runtime lies between the scheduler's
  \<open>min_vruntime\<close> and \<open>min_vruntime\<close> plus the sum of the weights plus
  \<open>1024 * d\<close>. So in virtual time no thread gets arbitrarily far ahead of another.
\<close>

theorem eevdf_lag_bounded:
  assumes "run_ops (sched_step eevdf_spawn eevdf_spawn_with_weight tick_prepare b) (map Tick ns)
      (spawn_all tws eevdf_new) = Inr (sws, s')"
    and "paced 0 d ns" and "1 \<le> d" and "tws \<noteq> []"
  shows "\<forall>m \<in> set (metadata s'). min_vruntime s' \<le> vruntime m \<and>
    unat (vruntime m) \<le> unat (min_vruntime s') + sum_list (map (\<lambda>tw. unat (max (snd tw) 1)) tws) + 1024 * d"
proof -
  let ?s = "spawn_all tws eevdf_new" and ?W = "sum_list (map (\<lambda>tw. unat (max (snd tw) 1)) tws)"
  have inv: "eevdf_inv ?s"
    by (auto simp: spawn_all_state eevdf_new_def eevdf_inv_def list_all_iff)
  have nb: "list_all (\<lambda>m. \<not> blocked m) (metadata ?s)"
    by (simp add: spawn_all_state eevdf_new_def list_all_iff)
  have "unat (max (snd (hd tws)) 1) \<le> ?W"
    using assms(4) by (cases tws) simp_all
  moreover have "1 \<le> unat (max (snd (hd tws)) 1)"
    by (simp add: max_def word_le_nat_alt)
  ultimately have W: "1 \<le> ?W" by linarith
  have "lag_inv ?W (1024 * d) ?s"
    using W by (auto simp: lag_inv_def spawn_all_state eevdf_new_def total_weight_def comp_def list_all_runnable)
  then have lag: "lag_inv ?W (1024 * d) s'"
    by (rule ticks_lag [OF inv nb _ assms(3) _ assms(2,1)]) (simp add: spawn_all_state eevdf_new_def)
  have bl: "map blocked (metadata s') = map blocked (metadata ?s)"
    by (rule ticks_blocked [OF inv assms(1)])
  have "list_all (\<lambda>b. \<not> b) (map blocked (metadata s'))"
    unfolding bl using nb by (simp add: list.pred_map comp_def)
  then have "runnable (metadata s') = metadata s'" by (simp add: runnable_def list_all_iff filter_id_conv)
  with lag show ?thesis by (simp add: lag_inv_def list_all_iff)
qed

theorem eevdf_lag_bounded_witness:
  "\<exists>sws s'. run_ops (sched_step eevdf_spawn eevdf_spawn_with_weight tick_prepare 0) (map Tick [1, 2, 4])
      (spawn_all [(demo_thread 0, 2048), (demo_thread 1, 512)] eevdf_new) = Inr (sws, s')
    \<and> (\<forall>m \<in> set (metadata s'). unat (vruntime m) \<le> unat (min_vruntime s') + 4608)"
proof -
  obtain sws s' where r: "run_ops (sched_step eevdf_spawn eevdf_spawn_with_weight tick_prepare 0) (map Tick [1, 2, 4])
      (spawn_all [(demo_thread 0, 2048), (demo_thread 1, 512)] eevdf_new) = Inr (sws, s')"
    by (simp add: eevdf_eval eevdf_new_def)
  have "paced 0 2 [1, 2, 4]" by (simp add: word_le_nat_alt)
  from eevdf_lag_bounded [OF r this]
  have "\<forall>m \<in> set (metadata s'). unat (vruntime m) \<le> unat (min_vruntime s') + 4608"
    by (auto simp: max_def word_le_nat_alt)
  with r show ?thesis by blast
qed

section \<open>Weights and starvation\<close>

definition two_threads :: "u64 \<Rightarrow> u64 \<Rightarrow> sched_op list" where
  "two_threads w0 w1 = [SpawnWithWeight (demo_thread 0) w0, SpawnWithWeight (demo_thread 1) w1]"

definition ticks :: "nat \<Rightarrow> nat \<Rightarrow> sched_op list" where
  "ticks i j = map (\<lambda>k. Tick (of_nat k)) [i..<j]"

definition eevdf_run :: "u64 \<Rightarrow> sched_op list \<Rightarrow> EevdfScheduler \<Rightarrow> (switch list \<times> EevdfScheduler) res" where
  "eevdf_run b = run_ops (sched_step eevdf_spawn eevdf_spawn_with_weight tick_prepare b)"

lemma run_ops_append:
  "run_ops stp (xs @ ys) s = rbind (run_ops stp xs s) (\<lambda>(r1, s1).
     rbind (run_ops stp ys s1) (\<lambda>(r2, s2). Inr (r1 @ r2, s2)))"
proof (induction xs arbitrary: s)
  case Nil
  then show ?case by (auto simp: rbind_def split: sum.splits)
next
  case (Cons x xs)
  then show ?case by (auto simp: rbind_def split: sum.splits option.splits)
qed


text \<open>The state in which the heavy thread is stuck.\<close>

definition starved :: "u64 \<Rightarrow> EevdfScheduler" where
  "starved t = \<lparr>ev_threads = [demo_thread 0, demo_thread 1],
     metadata = [\<lparr>vruntime = 2046, weight = 2000, blocked = False\<rparr>,
                 \<lparr>vruntime = 0, weight = 1, blocked = False\<rparr>],
     ev_current = Some 1, min_vruntime = 0, last_switch_tick = t\<rparr>"

lemma starved_reached:
  "eevdf_run b (two_threads 2000 1 @ ticks 1 4) eevdf_new =
     Inr ([(b, 0x1000), (0x1000, 0x1000), (0x1000, 0x2000)], starved 3)"
  by (simp add: eevdf_run_def eevdf_eval two_threads_def ticks_def eevdf_new_def starved_def upt_rec)

lemma starved_step:
  assumes "t + 1 \<noteq> 0"
  shows "tick_prepare (starved t) b (t + 1) = Inr (Some (0x2000, 0x2000), starved (t + 1))"
proof -
  have "unat (t + 1) = Suc (unat t)" using unatSuc [of t] assms by (simp add: add.commute)
  then have "t \<le> t + 1" and "\<not> t + 1 \<le> t" by (simp_all add: word_le_nat_alt)
  then show ?thesis by (simp add: eevdf_run_def eevdf_eval starved_def)
qed

lemma starved_forever:
  assumes "unat t + k < 2 ^ 64"
  shows "\<exists>s'. eevdf_run b (ticks (Suc (unat t)) (Suc (unat t) + k)) (starved t)
     = Inr (replicate k (0x2000, 0x2000), s')"
  using assms
proof (induction k arbitrary: t)
  case 0
  then show ?case by (simp add: ticks_def eevdf_run_def)
next
  case (Suc k)
  have ne: "t + 1 \<noteq> 0"
  proof
    assume "t + 1 = 0"
    then have "t = - 1" by (simp add: eq_neg_iff_add_eq_0)
    with Suc.prems show False by (simp add: unat_minus_1)
  qed
  then have u: "unat (t + 1) = Suc (unat t)" using unatSuc [of t] by (simp add: add.commute)
  have tk: "ticks (Suc (unat t)) (Suc (unat t) + Suc k) =
      Tick (t + 1) # ticks (Suc (unat (t + 1))) (Suc (unat (t + 1)) + k)"
    by (simp add: ticks_def u upt_conv_Cons add.commute [of 1] del: upt_Suc)
  from Suc.IH [of "t + 1"] Suc.prems u obtain s' where
    "eevdf_run b (ticks (Suc (unat (t + 1))) (Suc (unat (t + 1)) + k)) (starved (t + 1))
       = Inr (replicate k (0x2000, 0x2000), s')"
    by auto
  then show ?case
    unfolding tk by (simp add: eevdf_run_def starved_step [OF ne])
qed

text \<open>
  C35. A thread can starve for ever. With weights 2000 and 1 the first thread runs for two ticks,
  leaves the eligibility window, and from then on every tick runs the second thread, whose
  charge of \<open>1024 / 2001\<close> truncates to zero: the minimum virtual runtime never moves
  and the first thread never becomes eligible again, for any number of ticks the counter can hold.
\<close>

theorem eevdf_starvation:
  assumes "3 + k < 2 ^ 64"
  shows "\<exists>s'. eevdf_run b (two_threads 2000 1 @ ticks 1 (4 + k)) eevdf_new =
    Inr ([(b, 0x1000), (0x1000, 0x1000), (0x1000, 0x2000)] @ replicate k (0x2000, 0x2000), s')"
proof -
  obtain s' where rest: "eevdf_run b (ticks 4 (4 + k)) (starved 3) = Inr (replicate k (0x2000, 0x2000), s')"
    using starved_forever [of 3 k b] assms by auto
  have "ticks 1 (4 + k) = ticks 1 4 @ ticks 4 (4 + k)"
    by (simp add: ticks_def upt_add_eq_append [symmetric] flip: map_append)
  then have "eevdf_run b (two_threads 2000 1 @ ticks 1 (4 + k)) eevdf_new =
      rbind (eevdf_run b (two_threads 2000 1 @ ticks 1 4) eevdf_new) (\<lambda>(r1, s1).
        rbind (eevdf_run b (ticks 4 (4 + k)) s1) (\<lambda>(r2, s2). Inr (r1 @ r2, s2)))"
    unfolding eevdf_run_def by (simp only: append_assoc [symmetric] run_ops_append)
  with rest show ?thesis by (simp only: starved_reached rbind_Inr prod.case) blast
qed

theorem eevdf_starvation_witness:
  "(3 :: nat) + 1000000 < 2 ^ 64
   \<and> (\<exists>s'. eevdf_run 0 (two_threads 2000 1 @ ticks 1 1000004) eevdf_new =
    Inr ([(0, 0x1000), (0x1000, 0x1000), (0x1000, 0x2000)] @ replicate 1000000 (0x2000, 0x2000), s'))"
  using eevdf_starvation [of 1000000 0] by simp

end
