(* ===== verification/Round_Robin.thy ===== *)
theory Round_Robin
  imports Scheduler_Interface
begin

text \<open>
  \<open>src/thread/schedulers/round_robin.rs\<close>: threads run in a fixed circular order.
\<close>

record RoundRobinScheduler =
  rr_threads :: "Thread list"
  rr_current :: "nat option"

definition rr_new :: RoundRobinScheduler where
  "rr_new = \<lparr>rr_threads = [], rr_current = None\<rparr>"

definition rr_spawn :: "RoundRobinScheduler \<Rightarrow> Thread \<Rightarrow> RoundRobinScheduler" where
  "rr_spawn s t = s\<lparr>rr_threads := rr_threads s @ [t]\<rparr>"

definition rr_spawn_with_weight :: "RoundRobinScheduler \<Rightarrow> Thread \<Rightarrow> u64 \<Rightarrow> RoundRobinScheduler" where
  "rr_spawn_with_weight s t w = s\<lparr>rr_threads := rr_threads s @ [t]\<rparr>"

definition rr_len :: "RoundRobinScheduler \<Rightarrow> nat" where
  "rr_len s = length (rr_threads s)"

definition rr_tick_prepare ::
  "RoundRobinScheduler \<Rightarrow> u64 \<Rightarrow> u64 \<Rightarrow> (switch option \<times> RoundRobinScheduler) res" where
  "rr_tick_prepare s bootstrap_ctx current_tick =
     (let n = length (rr_threads s)
      in if n = 0 then Inr (None, s)
         else let prev = rr_current s;
                  nxt = (case prev of None \<Rightarrow> 0 | Some i \<Rightarrow> (i + 1) mod n);
                  s' = s\<lparr>rr_current := Some nxt\<rparr>
              in rbind (case prev of None \<Rightarrow> Inr bootstrap_ctx
                        | Some p \<Rightarrow> rbind (index_chk (rr_threads s) p) (\<lambda>t. Inr (context_ptr t)))
                   (\<lambda>from_ctx. rbind (index_chk (rr_threads s) nxt)
                     (\<lambda>t. Inr (Some (from_ctx, context_ptr t), s'))))"

definition rr_invar :: "RoundRobinScheduler \<Rightarrow> bool" where
  "rr_invar s \<longleftrightarrow> (\<forall>i. rr_current s = Some i \<longrightarrow> i < length (rr_threads s))"

lemma rr_tick_cases:
  assumes "rr_invar s"
  shows "rr_tick_prepare s b n =
    (if rr_threads s = [] then Inr (None, s)
     else let nxt = (case rr_current s of None \<Rightarrow> 0 | Some i \<Rightarrow> (i + 1) mod length (rr_threads s))
          in Inr (Some (running_ctx b (rr_threads s) (rr_current s), context_ptr (rr_threads s ! nxt)),
                  s\<lparr>rr_current := Some nxt\<rparr>))"
  using assms
  by (auto simp: rr_tick_prepare_def rr_invar_def running_ctx_def Let_def index_chk_def
      split: option.splits)

interpretation rr: thread_scheduler rr_threads rr_current rr_invar rr_new rr_spawn
  rr_spawn_with_weight rr_tick_prepare
proof unfold_locales
  fix s s' :: RoundRobinScheduler and b n r f t
  assume inv: "rr_invar s"
  show "rr_tick_prepare s b n = Inr (r, s') \<Longrightarrow> rr_invar s'"
    and "rr_tick_prepare s b n = Inr (r, s') \<Longrightarrow> rr_threads s' = rr_threads s"
    and "rr_tick_prepare s b n = Inr (None, s') \<Longrightarrow> rr_current s' = rr_current s"
    and "rr_tick_prepare s b n = Inr (Some (f, t), s') \<Longrightarrow>
      f = running_ctx b (rr_threads s) (rr_current s)
      \<and> t = running_ctx b (rr_threads s') (rr_current s') \<and> rr_current s' \<noteq> None"
    using inv by (auto simp: rr_tick_cases Let_def rr_invar_def running_ctx_def split: if_splits option.splits)
qed (auto simp: rr_invar_def rr_new_def rr_spawn_def rr_spawn_with_weight_def)

text \<open>
  Whatever threads are spawned and however often the timer ticks, the switches the round-robin
  scheduler returns form a chain: the first leaves from the bootstrap context and each
  later one leaves from the context the previous one entered.
\<close>

theorem rr_switches_chained:
  assumes "run_ops (sched_step rr_spawn rr_spawn_with_weight rr_tick_prepare b) os rr_new = Inr (sws, s')"
  shows "chained b sws"
  by (rule rr.hist.boot_chained [OF assms])

theorem rr_switches_chained_witness:
  "run_ops (sched_step rr_spawn rr_spawn_with_weight rr_tick_prepare 0x500)
     [Spawn (demo_thread 0), Spawn (demo_thread 1), Tick 1, Tick 2, Tick 3] rr_new =
     Inr ([(0x500, 0x1000), (0x1000, 0x2000), (0x2000, 0x1000)],
          \<lparr>rr_threads = [demo_thread 0, demo_thread 1], rr_current = Some 0\<rparr>)
   \<and> chained 0x500 [(0x500, 0x1000), (0x1000, 0x2000), (0x2000, 0x1000)]"
proof -
  have r: "run_ops (sched_step rr_spawn rr_spawn_with_weight rr_tick_prepare 0x500)
     [Spawn (demo_thread 0), Spawn (demo_thread 1), Tick 1, Tick 2, Tick 3] rr_new =
     Inr ([(0x500, 0x1000), (0x1000, 0x2000), (0x2000, 0x1000)],
          \<lparr>rr_threads = [demo_thread 0, demo_thread 1], rr_current = Some 0\<rparr>)"
    by (simp add: rr_tick_prepare_def rr_spawn_def rr_new_def demo_thread_def index_chk_def Let_def)
  show ?thesis using r rr_switches_chained [OF r] by simp
qed

section \<open>Fairness\<close>

text \<open>The indices that run in the next \<open>k\<close> ticks.\<close>

fun rr_schedule :: "nat \<Rightarrow> RoundRobinScheduler \<Rightarrow> nat list res" where
  "rr_schedule 0 s = Inr []"
| "rr_schedule (Suc k) s = rbind (rr_tick_prepare s 0 0) (\<lambda>(r, s').
     rbind (rr_schedule k s') (\<lambda>is. Inr (case rr_current s' of None \<Rightarrow> is | Some i \<Rightarrow> i # is)))"

lemma rr_schedule_eq:
  assumes "rr_threads s \<noteq> []" and "rr_current s = Some i" and "i < length (rr_threads s)"
  shows "rr_schedule k s = Inr (map (\<lambda>j. Suc (i + j) mod length (rr_threads s)) [0..<k])"
  using assms
proof (induction k arbitrary: s i)
  case 0
  then show ?case by simp
next
  case (Suc k)
  let ?n = "length (rr_threads s)"
  let ?s = "s\<lparr>rr_current := Some (Suc i mod ?n)\<rparr>"
  have tk: "rr_tick_prepare s 0 0 = Inr (Some (context_ptr (rr_threads s ! i),
      context_ptr (rr_threads s ! (Suc i mod ?n))), ?s)"
    using Suc.prems by (simp add: rr_tick_cases rr_invar_def Let_def running_ctx_def)
  have shift: "Suc (Suc i mod ?n + j) mod ?n = Suc (Suc (i + j)) mod ?n" for j
    using mod_add_left_eq [of "Suc i" ?n "Suc j"] by simp
  have "rr_schedule k ?s = Inr (map (\<lambda>j. Suc (Suc (i + j)) mod ?n) [0..<k])"
    using Suc.prems by (subst Suc.IH [of ?s "Suc i mod ?n"]) (simp_all add: shift)
  moreover have "[0..<Suc k] = 0 # map Suc [0..<k]"
    by (simp add: map_Suc_upt upt_conv_Cons)
  ultimately show ?case
    by (simp add: tk del: upt_Suc)
qed



end
