(* ===== verification/Global_Scheduler.thy ===== *)
theory Global_Scheduler
  imports Eevdf
begin

text \<open>
  \<open>src/thread/scheduler.rs\<close> and \<open>src/thread/mod.rs\<close>: the global scheduler, which wraps the
  EEVDF scheduler and owns the bootstrap context, and the two cooperative entries into it,
  \<open>enter_scheduler\<close> and \<open>block_and_yield\<close>, down to the registers. The bootstrap
  context lives in memory; the wrapper knows its address.
\<close>

section \<open>The wrapper\<close>

record Scheduler =
  eevdf :: EevdfScheduler
  bootstrap_ptr :: u64 \<comment> \<open>address of the field \<open>bootstrap_ctx\<close>\<close>

definition scheduler_new :: "u64 \<Rightarrow> memory \<Rightarrow> Scheduler \<times> memory" where
  "scheduler_new p m =
     (\<lparr>eevdf = eevdf_new, bootstrap_ptr = p\<rparr>,
      write_ctx m p \<lparr>ctx_rsp = 0, ctx_rip = 0,
        ctx_rbx = 0, ctx_rbp = 0, ctx_r12 = 0, ctx_r13 = 0, ctx_r14 = 0, ctx_r15 = 0,
        ctx_rax = 0, ctx_rcx = 0, ctx_rdx = 0, ctx_rsi = 0, ctx_rdi = 0,
        ctx_r8 = 0, ctx_r9 = 0, ctx_r10 = 0, ctx_r11 = 0,
        ctx_rflags = 0x202\<rparr>)"

definition scheduler_spawn :: "Scheduler \<Rightarrow> Thread \<Rightarrow> Scheduler" where
  "scheduler_spawn s t = s\<lparr>eevdf := eevdf_spawn (eevdf s) t\<rparr>"

definition scheduler_spawn_with_weight :: "Scheduler \<Rightarrow> Thread \<Rightarrow> u64 \<Rightarrow> Scheduler" where
  "scheduler_spawn_with_weight s t w = s\<lparr>eevdf := eevdf_spawn_with_weight (eevdf s) t w\<rparr>"

definition scheduler_len :: "Scheduler \<Rightarrow> nat" where
  "scheduler_len s = eevdf_len (eevdf s)"

definition scheduler_current_thread_id :: "Scheduler \<Rightarrow> ThreadId option res" where
  "scheduler_current_thread_id s = current_thread_id (eevdf s)"

definition scheduler_unblock_thread :: "Scheduler \<Rightarrow> ThreadId \<Rightarrow> Scheduler res" where
  "scheduler_unblock_thread s tid = rbind (unblock_thread (eevdf s) tid) (\<lambda>e. Inr (s\<lparr>eevdf := e\<rparr>))"

definition scheduler_tick_prepare :: "Scheduler \<Rightarrow> u64 \<Rightarrow> (switch option \<times> Scheduler) res" where
  "scheduler_tick_prepare s current_tick =
     rbind (tick_prepare (eevdf s) (bootstrap_ptr s) current_tick) (\<lambda>(r, e). Inr (r, s\<lparr>eevdf := e\<rparr>))"

definition scheduler_block_current ::
  "Scheduler \<Rightarrow> u64 \<Rightarrow> (switch option \<times> Scheduler) res" where
  "scheduler_block_current s current_tick =
     rbind (block_current_and_prepare_switch (eevdf s) (bootstrap_ptr s) current_tick)
       (\<lambda>(r, e). Inr (r, s\<lparr>eevdf := e\<rparr>))"

text \<open>The calls other code makes on the global scheduler, as one step function.\<close>

fun scheduler_step :: "Scheduler \<Rightarrow> block_op \<Rightarrow> (switch option \<times> Scheduler) res" where
  "scheduler_step s (Sched (Spawn t)) = Inr (None, scheduler_spawn s t)"
| "scheduler_step s (Sched (SpawnWithWeight t w)) = Inr (None, scheduler_spawn_with_weight s t w)"
| "scheduler_step s (Sched (Tick n)) = scheduler_tick_prepare s n"
| "scheduler_step s (BlockCurrent n) = scheduler_block_current s n"
| "scheduler_step s (Unblock tid) = rbind (scheduler_unblock_thread s tid) (\<lambda>s'. Inr (None, s'))"

text \<open>The wrapper does to its EEVDF scheduler what the scheduler's own operations do.\<close>

lemma scheduler_step_eevdf:
  "scheduler_step s x = rbind
     (block_step (sched_step eevdf_spawn eevdf_spawn_with_weight tick_prepare (bootstrap_ptr s))
        block_current_and_prepare_switch unblock_thread (bootstrap_ptr s) (eevdf s) x)
     (\<lambda>(r, e). Inr (r, s\<lparr>eevdf := e\<rparr>))"
proof (cases x)
  case (Sched y)
  then show ?thesis
    by (cases y) (simp_all add: scheduler_spawn_def scheduler_spawn_with_weight_def scheduler_tick_prepare_def)
next
  case (BlockCurrent n)
  then show ?thesis by (simp add: scheduler_block_current_def)
next
  case (Unblock tid)
  then show ?thesis by (simp add: scheduler_unblock_thread_def rbind_def split: sum.splits)
qed

definition scheduler_inv :: "u64 \<Rightarrow> Scheduler \<Rightarrow> bool" where
  "scheduler_inv p s \<longleftrightarrow> bootstrap_ptr s = p \<and> eevdf_inv (eevdf s)"

interpretation global: switch_source "\<lambda>s. ev_threads (eevdf s)" "\<lambda>s. ev_current (eevdf s)" "scheduler_inv p"
  "\<lparr>eevdf = eevdf_new, bootstrap_ptr = p\<rparr>" p scheduler_step for p
proof unfold_locales
  fix s s' :: Scheduler and x r f t
  let ?step = "block_step (sched_step eevdf_spawn eevdf_spawn_with_weight tick_prepare p)
        block_current_and_prepare_switch unblock_thread p"
  assume "scheduler_inv p s"
  then have p: "bootstrap_ptr s = p" and inv: "eevdf_inv (eevdf s)" by (simp_all add: scheduler_inv_def)
  have st: "?step (eevdf s) x = Inr (r', eevdf s1) \<and> bootstrap_ptr s1 = p" if "scheduler_step s x = Inr (r', s1)" for r' s1
    using that p by (auto simp: scheduler_step_eevdf rbind_eq_Inr)
  show "scheduler_step s x = Inr (r, s') \<Longrightarrow> scheduler_inv p s'"
    by (drule st) (auto simp: scheduler_inv_def dest: ev.bhist.step_invar [OF inv])
  show "scheduler_step s x = Inr (r, s') \<Longrightarrow> \<exists>us. ev_threads (eevdf s') = ev_threads (eevdf s) @ us"
    by (drule st) (auto dest: ev.bhist.step_threads [OF inv])
  show "scheduler_step s x = Inr (None, s') \<Longrightarrow> ev_current (eevdf s') = ev_current (eevdf s)"
    by (drule st) (auto dest: ev.bhist.step_None [OF inv])
  show "scheduler_step s x = Inr (Some (f, t), s') \<Longrightarrow>
      f = running_ctx p (ev_threads (eevdf s)) (ev_current (eevdf s))
      \<and> t = running_ctx p (ev_threads (eevdf s')) (ev_current (eevdf s'))"
    by (drule st) (auto dest: ev.bhist.step_Some [OF inv])
qed (auto simp: scheduler_inv_def ev.init intro: ev.current_valid)

section \<open>Entering the scheduler\<close>

text \<open>A call of \<open>context_switch(from, to)\<close> that will return to \<open>ret\<close>.\<close>

definition call_context_switch :: "u64 \<Rightarrow> switch \<Rightarrow> cpu \<Rightarrow> cpu" where
  "call_context_switch ret sw c = exec context_switch (push ret (set_reg RSI (snd sw) (set_reg RDI (fst sw) c)))"

text \<open>
  How one iteration of \<open>enter_scheduler\<close>, or a call of \<open>block_and_yield\<close>, ends:
  in another thread, halted after an error message, or halted until the next interrupt.
\<close>

datatype yield =
    Switched cpu
  | ErrorHalt string
  | WaitForInterrupt cpu

text \<open>Taking the scheduler lock clears the interrupt flag; it is released without restoring it.\<close>

definition enter_scheduler_iter :: "u64 \<Rightarrow> u64 \<Rightarrow> Scheduler \<Rightarrow> cpu \<Rightarrow> (yield \<times> Scheduler) res" where
  "enter_scheduler_iter ret now s c =
     (let c1 = step Cli c
      in rbind (scheduler_tick_prepare s now) (\<lambda>(sw, s').
           case sw of
             Some (frm, tgt) \<Rightarrow>
               if tgt = 0 \<or> ctx_rsp (read_ctx (mem c1) tgt) = 0
               then Inr (ErrorHalt ''ERROR: null/zeroed context in enter_scheduler'', s')
               else Inr (Switched (call_context_switch ret (frm, tgt) c1), s')
           | None \<Rightarrow> Inr (WaitForInterrupt (step Sti c1), s')))"

definition block_and_yield :: "u64 \<Rightarrow> u64 \<Rightarrow> Scheduler \<Rightarrow> cpu \<Rightarrow> (yield \<times> Scheduler) res" where
  "block_and_yield ret now s c =
     (let c1 = step Cli c
      in rbind (scheduler_block_current s now) (\<lambda>(sw, s').
           case sw of
             Some sw' \<Rightarrow> Inr (Switched (call_context_switch ret sw' c1), s')
           | None \<Rightarrow> Inr (ErrorHalt ''DEADLOCK: block_and_yield with no runnable threads'', s')))"

text \<open>
  The memory the first switch touches: the bootstrap struct, the stack the kernel booted on (the two
  cells below its stack pointer), the boxed context of the thread and its stack.
\<close>

definition boot_layout :: "u64 \<Rightarrow> u64 \<Rightarrow> u64 \<Rightarrow> usize \<Rightarrow> u64 \<Rightarrow> bool" where
  "boot_layout bp p q n sp \<longleftrightarrow>
     disjoint_regions bp CTX_SIZE q CTX_SIZE \<and> disjoint_regions bp CTX_SIZE p n
     \<and> disjoint_regions bp CTX_SIZE (sp - 16) 16 \<and> disjoint_regions q CTX_SIZE (sp - 16) 16
     \<and> disjoint_regions (sp - 16) 16 p n"

lemma first_tick:
  "\<exists>e. tick_prepare (eevdf_spawn eevdf_new th) bp now = Inr (Some (bp, context_ptr th), e)"
  by (simp add: eevdf_eval eevdf_new_def)

text \<open>The cell of a stack slot lies inside the region of the stack.\<close>

lemma stack_slot_region:
  assumes dis: "disjoint_regions a k p n" and lo: "unat p \<le> unat t" and hi: "unat t + unat j \<le> unat p + unat n"
    and j: "0 < unat j"
  shows "disjoint_regions a k t j"
proof -
  have le: "p \<le> t" using lo by (simp add: word_le_nat_alt)
  have "unat (t - p) + unat j \<le> unat n" using hi lo le by (simp add: unat_sub)
  from disjoint_regions_sub [OF dis this j] show ?thesis by simp
qed

lemma first_switch_ok:
  fixes c :: cpu and ret :: u64
  assumes lay: "boot_layout bp p q n (regs c RSP)"
    and ctx: "read_ctx (mem c) q = default_context\<lparr>ctx_rsp := t, ctx_rip := entry\<rparr>"
    and box: "disjoint_regions q CTX_SIZE (t - 8) 8"
    and lo: "unat p + 8 \<le> unat t" and hi: "unat t + 16 \<le> unat p + unat n"
  defines "s \<equiv> push ret (set_reg RSI q (set_reg RDI bp c))"
  shows "switch_ok s" and "read_ctx (mem s) q = read_ctx (mem c) q"
    and "read64 (mem s) t = read64 (mem c) t"
proof -
  let ?sp = "regs c RSP"
  have d: "disjoint_regions bp CTX_SIZE q CTX_SIZE" "disjoint_regions bp CTX_SIZE p n"
    "disjoint_regions bp CTX_SIZE (?sp - 16) 16" "disjoint_regions q CTX_SIZE (?sp - 16) 16"
    "disjoint_regions (?sp - 16) 16 p n"
    using lay by (simp_all add: boot_layout_def)
  have t8: "unat (t - 8) = unat t - 8" using lo by (simp add: unat_sub word_le_nat_alt)
  have b1: "disjoint_regions bp CTX_SIZE (t - 8) 16"
    by (rule stack_slot_region [OF d(2)]) (use lo hi t8 in simp_all)
  have b2: "disjoint_regions (?sp - 16) 16 t 8"
    by (rule stack_slot_region [OF d(5)]) (use lo hi in simp_all)
  have b3: "disjoint_regions q CTX_SIZE (?sp - 16) 8"
    using disjoint_regions_mono [OF d(4), of CTX_SIZE 8] by simp
  have e8: "?sp - 16 + 8 = ?sp - 8" by simp
  have b4: "disjoint_regions q CTX_SIZE (?sp - 8) 8"
    using disjoint_regions_sub [OF d(4), of 8 8] by (simp add: e8)
  have s1: "sep8 (?sp - 16) t" using disjoint_regions_sep8_0 [OF b2] by simp
  have s2: "sep8 (?sp - 8) t" using disjoint_regions_sep8 [OF b2, of 8 0] by (simp add: e8)
  have s: "s = c\<lparr>regs := (regs c)(RDI := bp, RSI := q, RSP := ?sp - 8), mem := write64 (mem c) (?sp - 8) ret\<rparr>"
    by (simp add: s_def cpu_defs)
  show rc: "read_ctx (mem s) q = read_ctx (mem c) q"
    by (simp add: s read_ctx_frame [OF b4])
  show "read64 (mem s) t = read64 (mem c) t"
    by (simp add: s read64_write64_sep [OF s2])
  show "switch_ok s"
    using rc d b1 b3 box s1
    by (simp add: switch_ok_def Let_def save_ok_def resume_ok_def ctx s diff_diff_eq)
qed

text \<open>
  C37. The kernel starts its first thread. Create a thread for an entry point, spawn it into a new global
  scheduler and enter the scheduler: for any tick count and any register state of the
  bootstrap code, the iteration switches, the processor continues at the entry point on the
  thread's own stack with interrupts enabled, the stack's canary is intact, and the
  bootstrap context holds the stack pointer and return address of \<open>enter_scheduler\<close>.
\<close>

theorem boot_runs_entry:
  fixes c :: cpu
  assumes ok: "alloc_ok p q n" and lay: "boot_layout bp p q n (regs c RSP)" and q: "q \<noteq> 0"
    and th: "with_stack_size cnt p q (snd (scheduler_new bp m0)) entry n = Inr (th, cnt', mem c)"
  shows "\<exists>c' s' t. enter_scheduler_iter ret now (scheduler_spawn (fst (scheduler_new bp m0)) th) c
      = Inr (Switched c', s')
    \<and> rip c' = entry \<and> stack_top (thread_stack th) = Inr t \<and> regs c' RSP = t + 8
    \<and> bit (rflags c') IF_BIT
    \<and> ctx_rsp (read_ctx (mem c') bp) = regs c RSP - 8 \<and> ctx_rip (read_ctx (mem c') bp) = ret"
proof -
  obtain t where t: "context_ptr th = q" "stack_top (thread_stack th) = Inr t"
    and ctx: "read_ctx (mem c) q = default_context\<lparr>ctx_rsp := t, ctx_rip := entry\<rparr>"
    and slot: "read64 (mem c) t = entry" and box: "disjoint_regions q CTX_SIZE (t - 8) 8"
    and bnd: "unat p + 8 \<le> unat t" "unat t + 16 \<le> unat p + unat n"
    by (rule with_stack_size_result [OF ok, of cnt "snd (scheduler_new bp m0)" entry]) (use th in auto)
  obtain e where e: "tick_prepare (eevdf_spawn eevdf_new th) bp now = Inr (Some (bp, q), e)"
    using first_tick [of th bp now] t(1) by auto
  define s where "s = push ret (set_reg RSI q (set_reg RDI bp (step Cli c)))"
  have lay': "boot_layout bp p q n (regs (step Cli c) RSP)" and ctx': "read_ctx (mem (step Cli c)) q =
      default_context\<lparr>ctx_rsp := t, ctx_rip := entry\<rparr>"
    using lay ctx by simp_all
  note ready = first_switch_ok [OF lay' ctx' box bnd, of ret, folded s_def]
  have rs: "regs s RSI = q" "regs s RDI = bp" "regs s RSP = regs c RSP - 8" "read64 (mem s) (regs c RSP - 8) = ret"
    by (simp_all add: s_def cpu_defs)
  have "t \<noteq> 0" using bnd(1) by auto
  then have it: "enter_scheduler_iter ret now (scheduler_spawn (fst (scheduler_new bp m0)) th) c =
      Inr (Switched (exec context_switch s), \<lparr>eevdf = e, bootstrap_ptr = bp\<rparr>)"
    using q by (simp add: enter_scheduler_iter_def scheduler_tick_prepare_def scheduler_spawn_def scheduler_new_def
        e ctx call_context_switch_def s_def Let_def)
  have c: "read_ctx (mem s) (regs s RSI) = default_context\<lparr>ctx_rsp := t, ctx_rip := entry\<rparr>"
    using ready(2) ctx by (simp add: rs)
  note fin = context_switch_state [OF ready(1), unfolded c]
  have "rip (exec context_switch s) = entry" "regs (exec context_switch s) RSP = t + 8"
    "bit (rflags (exec context_switch s)) IF_BIT"
    using ready(3) slot by (simp_all add: fin restored_def)
  moreover have "read_ctx (mem (exec context_switch s)) bp = saved_ctx s (read_ctx (mem s) bp)"
    using context_switch_saves [OF ready(1)] by (simp add: rs)
  ultimately show ?thesis using it t by (simp add: saved_ctx_def rs)
qed

theorem boot_runs_entry_witness:
  "\<exists>th m c' s'. with_stack_size 0 0x10000 0x2000 (snd (scheduler_new 0x1000 (\<lambda>_. 0))) 0x401000 STACK_SIZE
      = Inr (th, 1, m)
    \<and> enter_scheduler_iter 0x400abc 7 (scheduler_spawn (fst (scheduler_new 0x1000 (\<lambda>_. 0))) th)
        \<lparr>regs = (\<lambda>_. 0)(RSP := 0x8000), rflags = 0x202, rip = 0x400000, mem = m\<rparr> = Inr (Switched c', s')
    \<and> rip c' = 0x401000"
proof -
  have ok: "alloc_ok 0x10000 0x2000 STACK_SIZE"
    by (simp add: alloc_ok_def disjoint_regions_def CTX_SIZE_def STACK_SIZE_def)
  obtain th m where th: "with_stack_size 0 0x10000 0x2000 (snd (scheduler_new 0x1000 (\<lambda>_. 0))) 0x401000 STACK_SIZE
      = Inr (th, 1, m)"
    by (rule with_stack_size_result [OF ok, of 0 "snd (scheduler_new 0x1000 (\<lambda>_. 0))" "0x401000"]) simp
  define c where "c = \<lparr>regs = (\<lambda>_. 0)(RSP := 0x8000), rflags = 0x202, rip = 0x400000, mem = m\<rparr>"
  have lay: "boot_layout 0x1000 0x10000 0x2000 STACK_SIZE (regs c RSP)"
    by (simp add: c_def boot_layout_def disjoint_regions_def CTX_SIZE_def STACK_SIZE_def)
  have "with_stack_size 0 0x10000 0x2000 (snd (scheduler_new 0x1000 (\<lambda>_. 0))) 0x401000 STACK_SIZE = Inr (th, 1, mem c)"
    by (simp add: th c_def)
  from boot_runs_entry [OF ok lay _ this, of "0x400abc" 7] th show ?thesis by (auto simp: c_def)
qed

end
