(* ===== verification/Interrupts.thy ===== *)
theory Interrupts
  imports Global_Scheduler
begin

text \<open>
  \<open>src/interrupts.rs\<close>: the naked interrupt stubs, the frame they build, and the timer handler, at
  the level of registers and memory. The stubs are transcribed instruction by
  instruction; the inner handlers are functions on the kernel state. What the compiled Rust code does with its
  own stack below the frame is not modelled, except that it may leave
  anything in the caller-saved registers.
\<close>

section \<open>The frame\<close>

record IrqFrame =
  f_rax :: u64
  f_rcx :: u64
  f_rdx :: u64
  f_rbx :: u64
  f_rbp :: u64
  f_rsi :: u64
  f_rdi :: u64
  f_r8 :: u64
  f_r9 :: u64
  f_r10 :: u64
  f_r11 :: u64
  f_r12 :: u64
  f_r13 :: u64
  f_r14 :: u64
  f_r15 :: u64
  f_rip :: u64
  f_cs :: u64
  f_rflags :: u64
  f_rsp :: u64
  f_ss :: u64

definition read_frame :: "memory \<Rightarrow> u64 \<Rightarrow> IrqFrame" where
  "read_frame m p = \<lparr>f_rax = read64 m p, f_rcx = read64 m (p + 8), f_rdx = read64 m (p + 16),
     f_rbx = read64 m (p + 24), f_rbp = read64 m (p + 32), f_rsi = read64 m (p + 40),
     f_rdi = read64 m (p + 48), f_r8 = read64 m (p + 56), f_r9 = read64 m (p + 64),
     f_r10 = read64 m (p + 72), f_r11 = read64 m (p + 80), f_r12 = read64 m (p + 88),
     f_r13 = read64 m (p + 96), f_r14 = read64 m (p + 104), f_r15 = read64 m (p + 112),
     f_rip = read64 m (p + 120), f_cs = read64 m (p + 128), f_rflags = read64 m (p + 136),
     f_rsp = read64 m (p + 144), f_ss = read64 m (p + 152)\<rparr>"

text \<open>
  What the processor does before the stub runs: align the stack pointer, push \<open>ss\<close>,
  \<open>rsp\<close>, \<open>rflags\<close>, \<open>cs\<close> and \<open>rip\<close>, and clear the interrupt flag.
\<close>

definition deliver_irq :: "u64 \<Rightarrow> u64 \<Rightarrow> u64 \<Rightarrow> cpu \<Rightarrow> cpu" where
  "deliver_irq cs ss handler s =
     (let s1 = set_reg RSP (regs s RSP AND NOT 15) s;
          s2 = push (rip s) (push cs (push (rflags s) (push (regs s RSP) (push ss s1))))
      in s2\<lparr>rflags := set_flag IF_BIT False (rflags s), rip := handler\<rparr>)"

definition irq_entry_save :: "instr list" where
  "irq_entry_save =
    [PushR R15, PushR R14, PushR R13, PushR R12,
     PushR R11, PushR R10, PushR R9, PushR R8,
     PushR RDI, PushR RSI, PushR RBP, PushR RBX,
     PushR RDX, PushR RCX, PushR RAX,
     MovReg RDI RSP]"

definition irq_entry_restore :: "instr list" where
  "irq_entry_restore =
    [PopR RAX, PopR RCX, PopR RDX,
     PopR RBX, PopR RBP, PopR RSI, PopR RDI,
     PopR R8, PopR R9, PopR R10, PopR R11,
     PopR R12, PopR R13, PopR R14, PopR R15,
     Iretq]"

definition frame_fields :: "u64 \<Rightarrow> u64 \<Rightarrow> cpu \<Rightarrow> (u64 \<times> u64) list" where
  "frame_fields cs ss s = [(152, ss), (144, regs s RSP), (136, rflags s), (128, cs), (120, rip s),
    (112, regs s R15), (104, regs s R14), (96, regs s R13), (88, regs s R12), (80, regs s R11),
    (72, regs s R10), (64, regs s R9), (56, regs s R8), (48, regs s RDI), (40, regs s RSI),
    (32, regs s RBP), (24, regs s RBX), (16, regs s RDX), (8, regs s RCX), (0, regs s RAX)]"

definition frame_ptr :: "cpu \<Rightarrow> u64" where
  "frame_ptr s = (regs s RSP AND NOT 15) - 160"

lemma entry_builds_frame:
  "exec irq_entry_save (deliver_irq cs ss h s) =
     s\<lparr>regs := (regs s)(RSP := frame_ptr s, RDI := frame_ptr s),
       rflags := set_flag IF_BIT False (rflags s), rip := h,
       mem := store_fields (mem s) (frame_ptr s) (frame_fields cs ss s)\<rparr>"
proof -
  define p where "p = frame_ptr s"
  then have sp: "regs s RSP AND - 16 = p + 160" by (simp add: frame_ptr_def)
  show ?thesis
    by (simp add: irq_entry_save_def deliver_irq_def cpu_defs Let_def store_fields_def frame_fields_def
      p_def [symmetric] sp fun_upd_twist add.commute [of "numeral w" p for w])
qed

section \<open>Handlers\<close>

definition PIC_1_OFFSET :: u8 where "PIC_1_OFFSET = 32"

definition TIMER_IRQ :: u8 where "TIMER_IRQ = PIC_1_OFFSET"

definition KEYBOARD_IRQ :: u8 where "KEYBOARD_IRQ = PIC_1_OFFSET + 1"

record kernel =
  k_cpu :: cpu
  k_sched :: Scheduler
  tick_count :: u64
  eois :: "u8 list" \<comment> \<open>end-of-interrupt commands sent to the controller\<close>

definition notify_end_of_interrupt :: "u8 \<Rightarrow> kernel \<Rightarrow> kernel" where
  "notify_end_of_interrupt irq k = k\<lparr>eois := eois k @ [irq]\<rparr>"

definition preempt_fields :: "IrqFrame \<Rightarrow> (u64 \<times> u64) list" where
  "preempt_fields f = [(8, f_rip f), (64, f_rax f), (72, f_rcx f), (80, f_rdx f), (16, f_rbx f), (24, f_rbp f),
     (88, f_rsi f), (96, f_rdi f), (104, f_r8 f), (112, f_r9 f), (120, f_r10 f), (128, f_r11 f),
     (32, f_r12 f), (40, f_r13 f), (48, f_r14 f), (56, f_r15 f), (136, f_rflags f)]"

definition save_interrupted :: "u64 \<Rightarrow> u64 \<Rightarrow> memory \<Rightarrow> memory res" where
  "save_interrupted from_ctx frame m =
     (let f = read_frame m frame; m1 = store_fields m from_ctx (preempt_fields f)
      in rbind (sub_ovf (f_rsp f) 8) (\<lambda>resume_rsp.
           Inr (write64 (write64 m1 resume_rsp (f_rip f)) from_ctx resume_rsp)))"

definition irq_preempt :: "u64 \<Rightarrow> u64 \<Rightarrow> u64 \<Rightarrow> u8 \<Rightarrow> kernel \<Rightarrow> kernel res" where
  "irq_preempt from_ctx to_ctx frame irq k =
     rbind (save_interrupted from_ctx frame (mem (k_cpu k))) (\<lambda>m.
       let k1 = notify_end_of_interrupt irq (k\<lparr>k_cpu := (k_cpu k)\<lparr>mem := m\<rparr>\<rparr>)
       in Inr (k1\<lparr>k_cpu := exec context_switch_to (set_reg RDI to_ctx (k_cpu k1))\<rparr>))"

text \<open>The common end of both inner handlers; the flag tells whether the handler returns to its stub.\<close>

definition finish_irq :: "switch option \<Rightarrow> u64 \<Rightarrow> u8 \<Rightarrow> kernel \<Rightarrow> (bool \<times> kernel) res" where
  "finish_irq switch frame irq k =
     (case switch of
        Some (from_ctx, to_ctx) \<Rightarrow>
          if from_ctx = to_ctx then Inr (True, notify_end_of_interrupt irq k)
          else rbind (irq_preempt from_ctx to_ctx frame irq k) (\<lambda>k'. Inr (False, k'))
      | None \<Rightarrow> Inr (True, notify_end_of_interrupt irq k))"

definition timer_interrupt_inner :: "u64 \<Rightarrow> kernel \<Rightarrow> (bool \<times> kernel) res" where
  "timer_interrupt_inner frame k =
     (let k1 = k\<lparr>tick_count := tick_count k + 1\<rparr>
      in rbind (scheduler_tick_prepare (k_sched k1) (tick_count k1)) (\<lambda>(switch, s').
           finish_irq switch frame TIMER_IRQ (k1\<lparr>k_sched := s'\<rparr>)))"

text \<open>A compiled function may leave anything in the caller-saved registers.\<close>

definition clobber :: "(reg \<Rightarrow> u64) \<Rightarrow> cpu \<Rightarrow> cpu" where
  "clobber g s = s\<lparr>regs := (regs s)(RAX := g RAX, RCX := g RCX, RDX := g RDX, RSI := g RSI, RDI := g RDI,
     R8 := g R8, R9 := g R9, R10 := g R10, R11 := g R11)\<rparr>"

text \<open>From the interrupt to the first instruction after it, in whichever thread that is.\<close>

definition irq_entry ::
  "(u64 \<Rightarrow> kernel \<Rightarrow> (bool \<times> kernel) res) \<Rightarrow> u64 \<Rightarrow> u64 \<Rightarrow> u64 \<Rightarrow> (reg \<Rightarrow> u64) \<Rightarrow> kernel \<Rightarrow> kernel res" where
  "irq_entry inner cs ss h g k =
     (let c1 = exec irq_entry_save (deliver_irq cs ss h (k_cpu k))
      in rbind (inner (regs c1 RDI) (k\<lparr>k_cpu := c1\<rparr>)) (\<lambda>(returns, k').
           Inr (if returns then k'\<lparr>k_cpu := exec irq_entry_restore (clobber g (k_cpu k'))\<rparr> else k')))"

definition timer_interrupt_entry ::
  "u64 \<Rightarrow> u64 \<Rightarrow> u64 \<Rightarrow> (reg \<Rightarrow> u64) \<Rightarrow> kernel \<Rightarrow> kernel res" where
  "timer_interrupt_entry = irq_entry timer_interrupt_inner"

section \<open>Returning to the interrupted thread\<close>

lemma read_frame_entry:
  "read_frame (store_fields m p (frame_fields cs ss s)) p =
     \<lparr>f_rax = regs s RAX, f_rcx = regs s RCX, f_rdx = regs s RDX, f_rbx = regs s RBX, f_rbp = regs s RBP,
      f_rsi = regs s RSI, f_rdi = regs s RDI, f_r8 = regs s R8, f_r9 = regs s R9, f_r10 = regs s R10,
      f_r11 = regs s R11, f_r12 = regs s R12, f_r13 = regs s R13, f_r14 = regs s R14, f_r15 = regs s R15,
      f_rip = rip s, f_cs = cs, f_rflags = rflags s, f_rsp = regs s RSP, f_ss = ss\<rparr>"
  by (simp add: read_frame_def store_fields_def frame_fields_def read64_write64_sep sep8_def)

text \<open>The exit sequence undoes the entry: it reads every register back from the frame.\<close>

lemma exit_restores:
  assumes "regs c RSP = p" and "mem c = store_fields m p (frame_fields cs ss s)"
  shows "exec irq_entry_restore c = c\<lparr>regs := regs s, rflags := rflags s, rip := rip s\<rparr>"
proof -
  have fr: "read64 (mem c) p = regs s RAX" "read64 (mem c) (p + 8) = regs s RCX" "read64 (mem c) (p + 16) = regs s RDX"
    "read64 (mem c) (p + 24) = regs s RBX" "read64 (mem c) (p + 32) = regs s RBP" "read64 (mem c) (p + 40) = regs s RSI"
    "read64 (mem c) (p + 48) = regs s RDI" "read64 (mem c) (p + 56) = regs s R8" "read64 (mem c) (p + 64) = regs s R9"
    "read64 (mem c) (p + 72) = regs s R10" "read64 (mem c) (p + 80) = regs s R11" "read64 (mem c) (p + 88) = regs s R12"
    "read64 (mem c) (p + 96) = regs s R13" "read64 (mem c) (p + 104) = regs s R14" "read64 (mem c) (p + 112) = regs s R15"
    "read64 (mem c) (p + 120) = rip s" "read64 (mem c) (p + 136) = rflags s" "read64 (mem c) (p + 144) = regs s RSP"
    by (simp_all add: assms(2) store_fields_def frame_fields_def read64_write64_sep sep8_def)
  let ?rs = "(regs c)(RAX := regs s RAX, RCX := regs s RCX, RDX := regs s RDX, RBX := regs s RBX,
      RBP := regs s RBP, RSI := regs s RSI, RDI := regs s RDI, R8 := regs s R8, R9 := regs s R9, R10 := regs s R10,
      R11 := regs s R11, R12 := regs s R12, R13 := regs s R13, R14 := regs s R14, R15 := regs s R15, RSP := regs s RSP)"
  have all: "?rs = regs s"
    by (rule ext, rename_tac r, case_tac r) simp_all
  have "exec irq_entry_restore c = c\<lparr>regs := ?rs, rflags := rflags s, rip := rip s\<rparr>"
    by (simp add: irq_entry_restore_def cpu_defs Let_def assms(1) fr fun_upd_twist add.commute [of "numeral w" p for w])
  then show ?thesis unfolding all .
qed

lemma frame_fields_frame:
  assumes "disjoint_regions p 160 a k" and "unat x + 8 \<le> unat k"
  shows "read64 (store_fields m p (frame_fields cs ss s)) (a + x) = read64 m (a + x)"
  by (rule store_fields_disjoint [OF assms(1) _ assms(2)]) (auto simp: frame_fields_def)

text \<open>The stub around a handler that returns changes nothing but the frame.\<close>

lemma stub_undone:
  "exec irq_entry_restore (clobber g (exec irq_entry_save (deliver_irq cs ss h c))) =
     c\<lparr>mem := store_fields (mem c) (frame_ptr c) (frame_fields cs ss c)\<rparr>"
proof -
  let ?m = "store_fields (mem c) (frame_ptr c) (frame_fields cs ss c)"
  let ?c1 = "exec irq_entry_save (deliver_irq cs ss h c)"
  have c1: "regs ?c1 RSP = frame_ptr c" "mem ?c1 = ?m" by (simp_all add: entry_builds_frame)
  have "exec irq_entry_restore (clobber g ?c1) = ?c1\<lparr>regs := regs c, rflags := rflags c, rip := rip c\<rparr>"
    using exit_restores [of "clobber g ?c1" "frame_ptr c" "mem c" cs ss c] c1 by (simp add: clobber_def)
  also have "\<dots> = c\<lparr>mem := ?m\<rparr>" by (simp add: entry_builds_frame)
  finally show ?thesis .
qed


section \<open>Preempting the interrupted thread\<close>

text \<open>The context a preempted thread is resumed from: everything it had, one stack slot further down.\<close>

definition interrupted_ctx :: "cpu \<Rightarrow> ThreadContext" where
  "interrupted_ctx c = \<lparr>ctx_rsp = regs c RSP - 8, ctx_rip = rip c, ctx_rbx = regs c RBX, ctx_rbp = regs c RBP,
     ctx_r12 = regs c R12, ctx_r13 = regs c R13, ctx_r14 = regs c R14, ctx_r15 = regs c R15,
     ctx_rax = regs c RAX, ctx_rcx = regs c RCX, ctx_rdx = regs c RDX, ctx_rsi = regs c RSI, ctx_rdi = regs c RDI,
     ctx_r8 = regs c R8, ctx_r9 = regs c R9, ctx_r10 = regs c R10, ctx_r11 = regs c R11, ctx_rflags = rflags c\<rparr>"

lemma restored_interrupted: "restored (interrupted_ctx c) = regs c"
  by (rule ext) (simp add: restored_def interrupted_ctx_def split: reg.split)

lemma set_flag_IF_same: "bit f IF_BIT \<Longrightarrow> set_flag IF_BIT True (unset_bit 9 f) = f"
  by (rule bit_eqI) (auto simp: set_flag_def IF_BIT_def bit_simps)

lemma read_ctx_store_disjoint:
  assumes "disjoint_regions p n q CTX_SIZE" and "\<And>d v. (d, v) \<in> set fs \<Longrightarrow> unat d + 8 \<le> unat n"
  shows "read_ctx (store_fields m p fs) q = read_ctx m q"
proof -
  have "read64 (store_fields m p fs) (q + x) = read64 m (q + x)" if "unat x + 8 \<le> 144" for x
    by (rule store_fields_disjoint [OF assms]) (use that in \<open>simp_all add: CTX_SIZE_def\<close>)
  from this [of 0] this show ?thesis by (simp add: read_ctx_def)
qed

lemma save_interrupted_saves:
  fixes c :: cpu and cs ss :: u64
  assumes ctx: "disjoint_regions from_ctx CTX_SIZE (regs c RSP - 8) 8" and sp: "8 \<le> regs c RSP"
  defines "m \<equiv> store_fields (mem c) (frame_ptr c) (frame_fields cs ss c)"
  obtains m' where "save_interrupted from_ctx (frame_ptr c) m = Inr m'"
    and "read_ctx m' from_ctx = interrupted_ctx c" and "read64 m' (regs c RSP - 8) = rip c"
    and "\<And>q. disjoint_regions from_ctx CTX_SIZE q CTX_SIZE \<Longrightarrow> disjoint_regions q CTX_SIZE (regs c RSP - 8) 8 \<Longrightarrow>
      read_ctx m' q = read_ctx m q"
    and "\<And>a. disjoint_regions from_ctx CTX_SIZE a 8 \<Longrightarrow> sep8 (regs c RSP - 8) a \<Longrightarrow> read64 m' a = read64 m a"
proof -
  let ?f = "read_frame m (frame_ptr c)" and ?sp = "regs c RSP - 8"
  define m2 where "m2 = store_fields m from_ctx (preempt_fields ?f)"
  define m' where "m' = write64 (write64 m2 ?sp (rip c)) from_ctx ?sp"
  have f: "f_rip ?f = rip c" "f_rsp ?f = regs c RSP" by (simp_all add: m_def read_frame_entry)
  have within: "unat d + 8 \<le> unat CTX_SIZE" if "(d, v) \<in> set (preempt_fields ?f)" for d v
    using that by (auto simp: preempt_fields_def CTX_SIZE_def)
  have sep: "sep8 from_ctx ?sp" using disjoint_regions_sep8_0 [OF ctx] by (simp add: CTX_SIZE_def)
  show ?thesis
  proof (rule that)
    show "save_interrupted from_ctx (frame_ptr c) m = Inr m'"
      using sp by (simp add: save_interrupted_def Let_def f m'_def m2_def sub_ovf_def)
    have "read_ctx m' from_ctx = (read_ctx m2 from_ctx)\<lparr>ctx_rsp := ?sp\<rparr>"
      using read_ctx_frame [OF ctx, of m2 "rip c"]
      by (simp add: m'_def read_ctx_def read64_write64_sep sep8_def)
    then show "read_ctx m' from_ctx = interrupted_ctx c"
      unfolding m2_def m_def read_frame_entry
      by (simp add: preempt_fields_def store_fields_def read_ctx_def interrupted_ctx_def read64_write64_sep sep8_def)
    show "read64 m' ?sp = rip c" using sep by (simp add: m'_def read64_write64_sep)
    show "read_ctx m' q = read_ctx m q"
      if "disjoint_regions from_ctx CTX_SIZE q CTX_SIZE" "disjoint_regions q CTX_SIZE ?sp 8" for q
    proof -
      have "disjoint_regions q CTX_SIZE from_ctx 8"
        using disjoint_regions_mono [OF that(1), of 8 CTX_SIZE] by (simp add: disjoint_regions_commute CTX_SIZE_def)
      then show ?thesis
        using read_ctx_store_disjoint [OF that(1) within] that(2) by (simp add: m'_def m2_def read_ctx_frame)
    qed
    show "read64 m' a = read64 m a" if "disjoint_regions from_ctx CTX_SIZE a 8" "sep8 ?sp a" for a
    proof -
      have "sep8 from_ctx a" using disjoint_regions_sep8_0 [OF that(1)] by (simp add: CTX_SIZE_def)
      then show ?thesis
        using store_fields_disjoint [OF that(1) within, where x = 0] that(2) by (simp add: m'_def m2_def read64_write64_sep)
    qed
  qed
qed

text \<open>
  The layout a preemption relies on. The struct of the interrupted thread lies outside the two cells below its stack
  pointer; the struct of the next thread and the two cells around its saved stack
  pointer lie outside the frame, outside that struct and outside the resume cell.
\<close>

definition preempt_layout :: "cpu \<Rightarrow> u64 \<Rightarrow> u64 \<Rightarrow> bool" where
  "preempt_layout c from_ctx to_ctx \<longleftrightarrow>
     (let sp = regs c RSP; nsp = ctx_rsp (read_ctx (mem c) to_ctx)
      in 8 \<le> sp \<and> disjoint_regions from_ctx CTX_SIZE (sp - 16) 16
       \<and> disjoint_regions from_ctx CTX_SIZE to_ctx CTX_SIZE
       \<and> disjoint_regions from_ctx CTX_SIZE (nsp - 8) 16
       \<and> disjoint_regions (frame_ptr c) 160 to_ctx CTX_SIZE
       \<and> disjoint_regions (frame_ptr c) 160 nsp 8
       \<and> disjoint_regions to_ctx CTX_SIZE (sp - 8) 8
       \<and> resume_ok (mem c) to_ctx
       \<and> sep8 (sp - 8) nsp \<and> sep8 (nsp - 8) (sp - 8))"

lemma preempt_layoutD:
  fixes c :: cpu and from_ctx to_ctx :: u64
  defines "sp \<equiv> regs c RSP" and "nsp \<equiv> ctx_rsp (read_ctx (mem c) to_ctx)"
  assumes lay: "preempt_layout c from_ctx to_ctx"
  shows "disjoint_regions from_ctx CTX_SIZE (sp - 8) 8" and "disjoint_regions from_ctx CTX_SIZE (sp - 16) 8"
    and "disjoint_regions from_ctx CTX_SIZE nsp 8" and "disjoint_regions from_ctx CTX_SIZE (nsp - 8) 8"
proof -
  have d: "disjoint_regions from_ctx CTX_SIZE (sp - 16) 16" "disjoint_regions from_ctx CTX_SIZE (nsp - 8) 16"
    using lay by (simp_all add: preempt_layout_def Let_def sp_def nsp_def)
  have e: "sp - 16 + 8 = sp - 8" "nsp - 8 + 8 = nsp" by simp_all
  show "disjoint_regions from_ctx CTX_SIZE (sp - 8) 8" "disjoint_regions from_ctx CTX_SIZE nsp 8"
    using disjoint_regions_sub [OF d(1), of 8 8] disjoint_regions_sub [OF d(2), of 8 8] by (simp_all add: e)
  show "disjoint_regions from_ctx CTX_SIZE (sp - 16) 8" "disjoint_regions from_ctx CTX_SIZE (nsp - 8) 8"
    using disjoint_regions_mono [OF d(1), of CTX_SIZE 8] disjoint_regions_mono [OF d(2), of CTX_SIZE 8] by simp_all
qed

lemma resume_interrupted:
  assumes "bit (rflags c) IF_BIT" and "disjoint_regions (regs s RDI) CTX_SIZE (regs c RSP - 16) 8"
    and "read_ctx (mem s) (regs s RDI) = interrupted_ctx c" and "read64 (mem s) (regs c RSP - 8) = rip c"
  shows "let r = exec context_switch_to s in regs r = regs c \<and> rip r = rip c \<and> rflags r = rflags c"
proof -
  have i: "ctx_rsp (interrupted_ctx c) = regs c RSP - 8" "ctx_rflags (interrupted_ctx c) = rflags c"
    by (simp_all add: interrupted_ctx_def)
  then have "resume_ok (mem s) (regs s RDI)" using assms(2,3) by (simp add: resume_ok_def)
  from context_switch_to_restores [OF this] show ?thesis
    using assms by (simp add: i Let_def restored_interrupted set_flag_IF_same)
qed

text \<open>What the common end of the handlers does when there is a thread to switch to, from the stub on.\<close>

definition resumes :: "cpu \<Rightarrow> u64 \<Rightarrow> cpu \<Rightarrow> bool" where
  "resumes c from_ctx c' \<longleftrightarrow>
     (\<forall>s. regs s RDI = from_ctx \<and> read_ctx (mem s) from_ctx = read_ctx (mem c') from_ctx
        \<and> read64 (mem s) (regs c RSP - 8) = read64 (mem c') (regs c RSP - 8) \<longrightarrow>
      (let r = exec context_switch_to s in regs r = regs c \<and> rip r = rip c \<and> rflags r = rflags c))"

lemma finish_preempts:
  fixes k :: kernel and cs ss h :: u64 and c :: cpu
  defines "c1 \<equiv> exec irq_entry_save (deliver_irq cs ss h c)"
  assumes IF: "bit (rflags c) IF_BIT" and lay: "preempt_layout c from_ctx to_ctx" and ne: "from_ctx \<noteq> to_ctx"
  obtains c3 where
    "\<And>k irq. k_cpu k = c1 \<Longrightarrow> finish_irq (Some (from_ctx, to_ctx)) (regs c1 RDI) irq k
       = Inr (False, k\<lparr>k_cpu := c3, eois := eois k @ [irq]\<rparr>)"
    and "regs c3 = restored (read_ctx (mem c) to_ctx)" and "rip c3 = read64 (mem c) (ctx_rsp (read_ctx (mem c) to_ctx))"
    and "bit (rflags c3) IF_BIT" and "resumes c from_ctx c3"
proof -
  let ?sp = "regs c RSP" and ?t = "read_ctx (mem c) to_ctx"
  let ?nsp = "ctx_rsp ?t"
  note f = preempt_layoutD [OF lay]
  have d: "8 \<le> ?sp" "disjoint_regions from_ctx CTX_SIZE to_ctx CTX_SIZE"
    "disjoint_regions (frame_ptr c) 160 to_ctx CTX_SIZE" "disjoint_regions (frame_ptr c) 160 ?nsp 8"
    "disjoint_regions to_ctx CTX_SIZE (?sp - 8) 8" "resume_ok (mem c) to_ctx"
    "sep8 (?sp - 8) ?nsp" "sep8 (?nsp - 8) (?sp - 8)"
    using lay by (simp_all add: preempt_layout_def Let_def)
  define m where "m = store_fields (mem c) (frame_ptr c) (frame_fields cs ss c)"
  obtain m' where sv: "save_interrupted from_ctx (frame_ptr c) m = Inr m'"
    and ctx: "read_ctx m' from_ctx = interrupted_ctx c" and slot: "read64 m' (?sp - 8) = rip c"
    and fr: "read_ctx m' to_ctx = read_ctx m to_ctx" "read64 m' ?nsp = read64 m ?nsp"
    by (rule save_interrupted_saves [OF f(1) d(1), of cs ss, folded m_def]) (use d f in blast)
  have to: "read_ctx m' to_ctx = ?t"
    unfolding fr m_def by (rule read_ctx_store_disjoint [OF d(3)]) (auto simp: frame_fields_def)
  have tip: "read64 m' ?nsp = read64 (mem c) ?nsp"
    using frame_fields_frame [OF d(4), of 0] by (simp add: fr m_def)
  define c2 where "c2 = set_reg RDI to_ctx (c1\<lparr>mem := m'\<rparr>)"
  define c3 where "c3 = exec context_switch_to c2"
  have c2: "regs c2 RDI = to_ctx" "mem c2 = m'" by (simp_all add: c2_def cpu_defs)
  have "resume_ok (mem c2) (regs c2 RDI)" using d(6) by (simp add: c2 resume_ok_def to)
  note c3 = context_switch_to_restores [OF this, folded c3_def, unfolded c2 to]
  have "regs c1 RDI = frame_ptr c" "mem c1 = m" by (simp_all add: c1_def m_def entry_builds_frame)
  then have fin: "finish_irq (Some (from_ctx, to_ctx)) (regs c1 RDI) irq k = Inr (False, k\<lparr>k_cpu := c3, eois := eois k @ [irq]\<rparr>)"
    if "k_cpu k = c1" for k irq
    using ne sv that unfolding c3_def c2_def
    by (simp add: finish_irq_def irq_preempt_def notify_end_of_interrupt_def Let_def)
  have "read_ctx (mem c3) from_ctx = interrupted_ctx c" "read64 (mem c3) (?sp - 8) = rip c"
    using ctx slot d(8) by (simp_all add: c3 read_ctx_frame [OF f(4)] read64_write64_sep)
  then have "resumes c from_ctx c3"
    using resume_interrupted [OF IF, of s for s] f(2) by (auto simp: resumes_def)
  with fin show ?thesis by (intro that [of c3]) (simp_all add: c3 tip)
qed

text \<open>
  C3. Preemption is transparent to the thread it happens to. When the timer handler switches, the processor continues
  with every register of the next thread's saved context, at the address on its stack and with interrupts
  enabled; and whenever the interrupted thread is later switched to, with its struct and the cell
  below its stack pointer as the handler left them, it continues at the interrupted instruction with
  all sixteen registers and the flags it had.
\<close>

theorem preempted_thread_resumes:
  fixes k :: kernel
  defines "c \<equiv> k_cpu k"
  assumes IF: "bit (rflags c) IF_BIT" and lay: "preempt_layout c from_ctx to_ctx" and ne: "from_ctx \<noteq> to_ctx"
    and tick: "scheduler_tick_prepare (k_sched k) (tick_count k + 1) = Inr (Some (from_ctx, to_ctx), s')"
  shows "\<exists>k'. timer_interrupt_entry cs ss h g k = Inr k'
    \<and> regs (k_cpu k') = restored (read_ctx (mem c) to_ctx)
    \<and> rip (k_cpu k') = read64 (mem c) (ctx_rsp (read_ctx (mem c) to_ctx))
    \<and> bit (rflags (k_cpu k')) IF_BIT \<and> eois k' = eois k @ [TIMER_IRQ] \<and> k_sched k' = s'
    \<and> (\<forall>s. regs s RDI = from_ctx \<and> read_ctx (mem s) from_ctx = read_ctx (mem (k_cpu k')) from_ctx
          \<and> read64 (mem s) (regs c RSP - 8) = read64 (mem (k_cpu k')) (regs c RSP - 8) \<longrightarrow>
        (let r = exec context_switch_to s in regs r = regs c \<and> rip r = rip c \<and> rflags r = rflags c))"
proof -
  let ?c1 = "exec irq_entry_save (deliver_irq cs ss h c)"
  let ?k = "k\<lparr>k_cpu := ?c1, tick_count := tick_count k + 1, k_sched := s'\<rparr>"
  obtain c3 where fin: "\<And>k irq. k_cpu k = ?c1 \<Longrightarrow> finish_irq (Some (from_ctx, to_ctx)) (regs ?c1 RDI) irq k
        = Inr (False, k\<lparr>k_cpu := c3, eois := eois k @ [irq]\<rparr>)"
    and c3: "regs c3 = restored (read_ctx (mem c) to_ctx)" "rip c3 = read64 (mem c) (ctx_rsp (read_ctx (mem c) to_ctx))"
      "bit (rflags c3) IF_BIT" "resumes c from_ctx c3"
    by (rule finish_preempts [OF IF lay ne, of cs ss h]) (rule that)
  have "timer_interrupt_entry cs ss h g k = Inr (?k\<lparr>k_cpu := c3, eois := eois ?k @ [TIMER_IRQ]\<rparr>)"
    using fin [of ?k TIMER_IRQ]
    by (simp add: timer_interrupt_entry_def irq_entry_def timer_interrupt_inner_def tick Let_def flip: c_def)
  then show ?thesis
    using c3 by (intro exI [of _ "?k\<lparr>k_cpu := c3, eois := eois ?k @ [TIMER_IRQ]\<rparr>"]) (auto simp: resumes_def)
qed

section \<open>The interval timer\<close>

text \<open>The port writes of \<open>configure_pit\<close>, in order; the division panics for a frequency of zero.\<close>

definition configure_pit :: "u32 \<Rightarrow> (u16 \<times> u8) list res" where
  "configure_pit frequency =
     rbind (div_chk 1193182 frequency) (\<lambda>q.
       let divisor = ucast q :: u16
       in Inr [(0x43, 0x34), (0x40, ucast (divisor AND 0xFF)), (0x40, ucast (drop_bit 8 divisor))])"

text \<open>The divisor the timer assembles from the two bytes it receives.\<close>

definition pit_divisor :: "u8 \<Rightarrow> u8 \<Rightarrow> nat" where
  "pit_divisor lo hi = unat lo + 256 * unat hi"

lemma pit_bytes: "pit_divisor (ucast (d AND 0xFF)) (ucast (drop_bit 8 d)) = unat (d :: u16)"
proof -
  have "d AND 0xFF = take_bit 8 d" by (simp add: take_bit_eq_mask mask_eq_exp_minus_1)
  then have "unat (ucast (d AND 0xFF) :: u8) = unat d mod 256"
    by (simp add: unsigned_ucast_eq unsigned_take_bit_eq take_bit_eq_mod unat_mod)
  moreover have "unat d div 256 < 256" using unat_bound [of d] by simp
  then have "unat (ucast (drop_bit 8 d) :: u8) = unat d div 256"
    by (simp add: unsigned_ucast_eq unsigned_drop_bit_eq take_bit_eq_mod drop_bit_eq_div unat_div)
  ultimately show ?thesis by (simp add: pit_divisor_def)
qed

text \<open>From 19 Hz on the two bytes carry the whole divisor; below, the cast to 16 bits truncates it.\<close>

lemma configure_pit_divisor:
  assumes "19 \<le> frequency"
  shows "\<exists>lo hi. configure_pit frequency = Inr [(0x43, 0x34), (0x40, lo), (0x40, hi)]
    \<and> pit_divisor lo hi = 1193182 div unat frequency"
proof -
  have f: "19 \<le> unat frequency" using assms by (simp add: word_le_nat_alt)
  have "1193182 div unat frequency \<le> 1193182 div 19" using f by (intro div_le_mono2) simp_all
  then have "unat (ucast (1193182 div frequency) :: u16) = 1193182 div unat frequency"
    by (simp add: unsigned_ucast_eq unat_div take_bit_eq_mod)
  moreover have "frequency \<noteq> 0" using f by auto
  ultimately show ?thesis by (simp add: configure_pit_def div_chk_def Let_def pit_bytes)
qed

section \<open>Examples\<close>

definition demo_kernel :: kernel where
  "demo_kernel = \<lparr>k_cpu = demo_cpu, k_sched = \<lparr>eevdf = demo_eevdf, bootstrap_ptr = 0x500\<rparr>, tick_count = 1, eois = []\<rparr>"


lemma demo_layout: "preempt_layout demo_cpu 0x1000 0x2000"
proof -
  have "regs demo_cpu RSP = 0x8000" by (simp add: demo_cpu_def)
  then show ?thesis
    using demo_target
    by (simp add: preempt_layout_def Let_def frame_ptr_def resume_ok_def disjoint_regions_def CTX_SIZE_def sep8_def
      default_context_def)
qed

theorem preempted_thread_resumes_witness:
  "\<exists>k'. timer_interrupt_entry 8 16 0x300000 (\<lambda>_. 77) demo_kernel = Inr k' \<and> rip (k_cpu k') = 0x401000
     \<and> rip (exec context_switch_to (set_reg RDI 0x1000 (k_cpu k'))) = 0x400000"
proof -
  have t: "scheduler_tick_prepare (k_sched demo_kernel) (tick_count demo_kernel + 1) =
      Inr (Some (0x1000, 0x2000), \<lparr>eevdf = demo_eevdf', bootstrap_ptr = 0x500\<rparr>)"
    by (simp add: demo_kernel_def scheduler_tick_prepare_def demo_tick)
  have IF: "bit (rflags (k_cpu demo_kernel)) IF_BIT"
    by (simp add: demo_kernel_def demo_cpu_def IF_BIT_def bit_numeral_rec numeral_eq_Suc)
  have lay: "preempt_layout (k_cpu demo_kernel) 0x1000 0x2000" by (simp add: demo_kernel_def demo_layout)
  have sp: "ctx_rsp (read_ctx (mem demo_cpu) 0x2000) = 0x9000" "read64 (mem demo_cpu) 0x9000 = 0x401000"
    using demo_target by (simp_all add: demo_cpu_def demo_mem_def)
  obtain k' where k': "timer_interrupt_entry 8 16 0x300000 (\<lambda>_. 77) demo_kernel = Inr k'" "rip (k_cpu k') = 0x401000"
    and again: "\<And>s. regs s RDI = 0x1000 \<Longrightarrow> mem s = mem (k_cpu k') \<Longrightarrow> rip (exec context_switch_to s) = 0x400000"
    using preempted_thread_resumes [OF IF lay _ t, of 8 16 "0x300000" "\<lambda>_. 77"] sp
    by (auto simp: demo_kernel_def Let_def demo_cpu_def)
  show ?thesis
    using k' again [of "set_reg RDI 0x1000 (k_cpu k')"] by (auto simp: cpu_defs)
qed

end
