(* ===== verification/Async_Tasks.thy ===== *)
theory Async_Tasks
  imports Rust_Prelude
begin

text \<open>
  The asynchronous tasks (\<open>src/task/executor.rs\<close>, \<open>keyboard.rs\<close>, \<open>sleep.rs\<close>, \<open>mod.rs\<close>): the executor's
  loop on its thread, one shared access per step, interleaved with the keyboard and timer interrupts.
  The tasks are those of \<open>kernel_main\<close>, the shell and the heartbeat, and any others given by their poll
  function. The queues and the waker cell of the crates \<open>crossbeam_queue\<close> and \<open>futures_util\<close> are
  arguments.
\<close>

type_synonym TaskId = u64

section \<open>The crates\<close>

record ('q, 's, 'w) crates =
  tq_push :: "TaskId \<Rightarrow> 'q \<Rightarrow> 'q option" \<comment> \<open>\<open>ArrayQueue<TaskId>::push\<close>\<close>
  tq_pop :: "'q \<Rightarrow> (TaskId \<times> 'q) option"
  tq_is_empty :: "'q \<Rightarrow> bool"
  sq_push :: "u8 \<Rightarrow> 's \<Rightarrow> 's option" \<comment> \<open>\<open>ArrayQueue<u8>::push\<close>\<close>
  sq_pop :: "'s \<Rightarrow> (u8 \<times> 's) option"
  aw_register :: "TaskId \<Rightarrow> 'w \<Rightarrow> 'w" \<comment> \<open>\<open>AtomicWaker::register\<close>\<close>
  aw_take :: "'w \<Rightarrow> TaskId option \<times> 'w" \<comment> \<open>\<open>AtomicWaker::wake\<close>, the waker it takes\<close>

text \<open>
  What the crates document: bounded first-in first-out queues whose \<open>push\<close> fails exactly when they are
  full, and a cell that keeps the last waker registered until it is taken.
\<close>

definition bounded_fifo :: "nat \<Rightarrow> ('q \<Rightarrow> 'a list) \<Rightarrow> ('a \<Rightarrow> 'q \<Rightarrow> 'q option) \<Rightarrow> ('q \<Rightarrow> ('a \<times> 'q) option) \<Rightarrow> bool" where
  "bounded_fifo cap items psh pp \<longleftrightarrow>
     (\<forall>x q. case psh x q of
        None \<Rightarrow> cap \<le> length (items q)
      | Some q' \<Rightarrow> length (items q) < cap \<and> items q' = items q @ [x])
     \<and> (\<forall>q. case pp q of None \<Rightarrow> items q = [] | Some (x, q') \<Rightarrow> items q = x # items q')"

definition crates_ok :: "('q, 's, 'w) crates \<Rightarrow> ('q \<Rightarrow> TaskId list) \<Rightarrow> ('s \<Rightarrow> u8 list) \<Rightarrow> ('w \<Rightarrow> TaskId option) \<Rightarrow> bool" where
  "crates_ok cr ready codes holds \<longleftrightarrow>
     bounded_fifo 100 ready (tq_push cr) (tq_pop cr) \<and> (\<forall>q. tq_is_empty cr q \<longleftrightarrow> ready q = [])
     \<and> bounded_fifo 100 codes (sq_push cr) (sq_pop cr)
     \<and> (\<forall>t w. holds (aw_register cr t w) = Some t)
     \<and> (\<forall>w. fst (aw_take cr w) = holds w \<and> holds (snd (aw_take cr w)) = None)"

section \<open>Tasks\<close>

record Sleep =
  target_tick :: u64
  registered :: bool

definition sleep_new :: "u64 \<Rightarrow> u64 \<Rightarrow> Sleep" where
  "sleep_new now ticks = \<lparr>target_tick = saturating_add now ticks, registered = False\<rparr>"

datatype 'f task =
    Shell
  | Heartbeat "Sleep option" \<comment> \<open>awaiting this sleep, or about to create one\<close>
  | Other 'f

datatype async_pc =
    LoopHead
  | WakeSleepers u64 nat \<comment> \<open>\<open>now\<close> and \<open>i\<close>\<close>
  | NextTask
  | ShellRegister TaskId
  | ShellPop TaskId
  | ShellKey TaskId u8
  | SleepPoll TaskId
  | SleepNew TaskId
  | SleepIfIdle
  | EnableAndHlt
  | Halted
  | TaskPanic string

record ('f, 'q, 's, 'w) async =
  tasks :: "TaskId \<Rightarrow> 'f task option"
  task_queue :: 'q
  waker_cache :: "TaskId \<Rightarrow> TaskId option" \<comment> \<open>the \<open>task_id\<close> of each cached waker\<close>
  SCANCODE_QUEUE :: 's
  WAKER :: 'w
  SLEEPERS :: "(u64 \<times> TaskId) list"
  uptime :: u64
  next_id :: TaskId
  apc :: async_pc
  accepted :: "u8 list" \<comment> \<open>history: the scancodes \<open>add_scancode\<close> queued\<close>
  delivered :: "u8 list" \<comment> \<open>history: the scancodes the shell received\<close>

definition task_id_new :: "('f, 'q, 's, 'w) async \<Rightarrow> TaskId \<times> ('f, 'q, 's, 'w) async" where
  "task_id_new s = (next_id s, s\<lparr>next_id := next_id s + 1\<rparr>)"

definition executor_new :: "'q \<Rightarrow> 's \<Rightarrow> 'w \<Rightarrow> u64 \<Rightarrow> ('f, 'q, 's, 'w) async" where
  "executor_new q sq w now =
     \<lparr>tasks = (\<lambda>_. None), task_queue = q, waker_cache = (\<lambda>_. None), SCANCODE_QUEUE = sq, WAKER = w, SLEEPERS = [],
      uptime = now, next_id = 0, apc = LoopHead, accepted = [], delivered = []\<rparr>"

definition spawn_task :: "('q, 's, 'w) crates \<Rightarrow> 'f task \<Rightarrow> ('f, 'q, 's, 'w) async \<Rightarrow> ('f, 'q, 's, 'w) async res" where
  "spawn_task cr t s =
     (let (task_id, s) = task_id_new s in
      if tasks s task_id \<noteq> None then Inl (Explicit ''task with same ID already in tasks'')
      else
        let s = s\<lparr>tasks := (tasks s)(task_id \<mapsto> t)\<rparr> in
        case tq_push cr task_id (task_queue s) of
          None \<Rightarrow> Inl (Expect ''queue full'')
        | Some q \<Rightarrow> Inr (s\<lparr>task_queue := q\<rparr>))"

definition wake_task :: "('q, 's, 'w) crates \<Rightarrow> TaskId \<Rightarrow> ('f, 'q, 's, 'w) async \<Rightarrow> ('f, 'q, 's, 'w) async" where
  "wake_task cr task_id s =
     (case tq_push cr task_id (task_queue s) of
        None \<Rightarrow> s\<lparr>apc := TaskPanic ''task_queue full''\<rparr>
      | Some q \<Rightarrow> s\<lparr>task_queue := q\<rparr>)"

section \<open>The executor\<close>

definition wake_sleepers_step :: "('q, 's, 'w) crates \<Rightarrow> u64 \<Rightarrow> nat \<Rightarrow> ('f, 'q, 's, 'w) async \<Rightarrow> ('f, 'q, 's, 'w) async" where
  "wake_sleepers_step cr now i s =
     (let sleepers = SLEEPERS s in
      if i < length sleepers
      then if fst (sleepers ! i) \<le> now
           then wake_task cr (snd (sleepers ! i)) (s\<lparr>SLEEPERS := take i sleepers @ drop (Suc i) sleepers\<rparr>)
           else s\<lparr>apc := WakeSleepers now (i + 1)\<rparr>
      else s\<lparr>apc := NextTask\<rparr>)"

text \<open>\<open>run_ready_tasks\<close> up to the call of \<open>poll\<close>; the shell and the heartbeat are polled by further steps.\<close>

definition next_task_step :: "('q, 's, 'w) crates \<Rightarrow> ('f \<Rightarrow> 'f option) \<Rightarrow> ('f, 'q, 's, 'w) async \<Rightarrow> ('f, 'q, 's, 'w) async" where
  "next_task_step cr poll_other s =
     (case tq_pop cr (task_queue s) of
        None \<Rightarrow> s\<lparr>apc := SleepIfIdle\<rparr>
      | Some (task_id, q) \<Rightarrow>
          let s = s\<lparr>task_queue := q\<rparr> in
          case tasks s task_id of
            None \<Rightarrow> s
          | Some t \<Rightarrow>
              let s = (if waker_cache s task_id = None then s\<lparr>waker_cache := (waker_cache s)(task_id \<mapsto> task_id)\<rparr> else s) in
              case t of
                Shell \<Rightarrow> s\<lparr>apc := ShellRegister task_id\<rparr>
              | Heartbeat None \<Rightarrow> s\<lparr>apc := SleepNew task_id\<rparr>
              | Heartbeat (Some _) \<Rightarrow> s\<lparr>apc := SleepPoll task_id\<rparr>
              | Other f \<Rightarrow>
                  (case poll_other f of
                     None \<Rightarrow> s\<lparr>tasks := (tasks s)(task_id := None), waker_cache := (waker_cache s)(task_id := None)\<rparr>
                   | Some f \<Rightarrow> s\<lparr>tasks := (tasks s)(task_id \<mapsto> Other f)\<rparr>))"

text \<open>\<open>Sleep::poll\<close>, for the heartbeat; when it is ready the heartbeat goes on to its next sleep.\<close>

definition sleep_poll :: "TaskId \<Rightarrow> ('f, 'q, 's, 'w) async \<Rightarrow> ('f, 'q, 's, 'w) async" where
  "sleep_poll task_id s =
     (case tasks s task_id of
        Some (Heartbeat (Some sl)) \<Rightarrow>
          if target_tick sl \<le> uptime s
          then s\<lparr>tasks := (tasks s)(task_id \<mapsto> Heartbeat None), apc := SleepNew task_id\<rparr>
          else if \<not> registered sl
          then s\<lparr>SLEEPERS := SLEEPERS s @ [(target_tick sl, the (waker_cache s task_id))],
                 tasks := (tasks s)(task_id \<mapsto> Heartbeat (Some (sl\<lparr>registered := True\<rparr>))), apc := NextTask\<rparr>
          else s\<lparr>apc := NextTask\<rparr>
      | _ \<Rightarrow> s\<lparr>apc := NextTask\<rparr>)"

definition poll_next_register :: "('q, 's, 'w) crates \<Rightarrow> TaskId \<Rightarrow> ('f, 'q, 's, 'w) async \<Rightarrow> ('f, 'q, 's, 'w) async" where
  "poll_next_register cr task_id s =
     s\<lparr>WAKER := aw_register cr (the (waker_cache s task_id)) (WAKER s), apc := ShellPop task_id\<rparr>"

definition poll_next_pop :: "('q, 's, 'w) crates \<Rightarrow> TaskId \<Rightarrow> ('f, 'q, 's, 'w) async \<Rightarrow> ('f, 'q, 's, 'w) async" where
  "poll_next_pop cr task_id s =
     (case sq_pop cr (SCANCODE_QUEUE s) of
        Some (sc, q) \<Rightarrow> s\<lparr>SCANCODE_QUEUE := q, apc := ShellKey task_id sc\<rparr>
      | None \<Rightarrow> s\<lparr>apc := NextTask\<rparr>)"

text \<open>One step of the executor's thread.\<close>

definition exec_step :: "('q, 's, 'w) crates \<Rightarrow> ('f \<Rightarrow> 'f option) \<Rightarrow> ('f, 'q, 's, 'w) async \<Rightarrow> ('f, 'q, 's, 'w) async" where
  "exec_step cr poll_other s =
     (case apc s of
        LoopHead \<Rightarrow> s\<lparr>apc := WakeSleepers (uptime s) 0\<rparr>
      | WakeSleepers now i \<Rightarrow> wake_sleepers_step cr now i s
      | NextTask \<Rightarrow> next_task_step cr poll_other s
      | ShellRegister task_id \<Rightarrow> poll_next_register cr task_id s
      | ShellPop task_id \<Rightarrow> poll_next_pop cr task_id s
      | ShellKey task_id sc \<Rightarrow> s\<lparr>delivered := delivered s @ [sc], apc := ShellRegister task_id\<rparr>
      | SleepPoll task_id \<Rightarrow> sleep_poll task_id s
      | SleepNew task_id \<Rightarrow> s\<lparr>tasks := (tasks s)(task_id \<mapsto> Heartbeat (Some (sleep_new (uptime s) 200))), apc := SleepPoll task_id\<rparr>
      | SleepIfIdle \<Rightarrow> s\<lparr>apc := (if tq_is_empty cr (task_queue s) then EnableAndHlt else LoopHead)\<rparr>
      | EnableAndHlt \<Rightarrow> s\<lparr>apc := Halted\<rparr>
      | Halted \<Rightarrow> s
      | TaskPanic e \<Rightarrow> s)"

section \<open>Interrupts\<close>

definition add_scancode :: "('q, 's, 'w) crates \<Rightarrow> u8 \<Rightarrow> ('f, 'q, 's, 'w) async \<Rightarrow> ('f, 'q, 's, 'w) async" where
  "add_scancode cr sc s =
     (case sq_push cr sc (SCANCODE_QUEUE s) of
        None \<Rightarrow> s
      | Some q \<Rightarrow>
          let s = s\<lparr>SCANCODE_QUEUE := q, accepted := accepted s @ [sc]\<rparr>; (wk, w) = aw_take cr (WAKER s); s = s\<lparr>WAKER := w\<rparr> in
          (case wk of Some task_id \<Rightarrow> wake_task cr task_id s | None \<Rightarrow> s))"

text \<open>
  An interrupt ends a halt. The timer interrupts considered are those before the tick counter wraps,
  \<open>2 ^ 64\<close> ticks after boot.
\<close>

definition resume :: "('f, 'q, 's, 'w) async \<Rightarrow> ('f, 'q, 's, 'w) async" where
  "resume s = (if apc s = Halted then s\<lparr>apc := LoopHead\<rparr> else s)"

fun is_panic :: "async_pc \<Rightarrow> bool" where
  "is_panic (TaskPanic _) = True"
| "is_panic _ = False"

inductive async_step :: "('q, 's, 'w) crates \<Rightarrow> ('f \<Rightarrow> 'f option) \<Rightarrow> ('f, 'q, 's, 'w) async \<Rightarrow> ('f, 'q, 's, 'w) async \<Rightarrow> bool"
  for cr poll_other where
  thread: "async_step cr poll_other s (exec_step cr poll_other s)"
| keyboard: "\<not> is_panic (apc s) \<Longrightarrow> async_step cr poll_other s (add_scancode cr sc (resume s))"
| timer: "uptime s < - 1 \<Longrightarrow> async_step cr poll_other s (resume (s\<lparr>uptime := uptime s + 1\<rparr>))"

text \<open>What \<open>kernel_main\<close> spawns, and further tasks.\<close>

fun spawn_all :: "('q, 's, 'w) crates \<Rightarrow> 'f task list \<Rightarrow> ('f, 'q, 's, 'w) async \<Rightarrow> ('f, 'q, 's, 'w) async res" where
  "spawn_all cr [] s = Inr s"
| "spawn_all cr (t # ts) s = rbind (spawn_task cr t s) (spawn_all cr ts)"

definition async_boot :: "('q, 's, 'w) crates \<Rightarrow> 'f list \<Rightarrow> 'q \<Rightarrow> 's \<Rightarrow> 'w \<Rightarrow> u64 \<Rightarrow> ('f, 'q, 's, 'w) async res" where
  "async_boot cr others q sq w now =
     spawn_all cr (Shell # Heartbeat None # map Other others) (executor_new q sq w now)"

section \<open>Invariants\<close>

fun pc_ok :: "async_pc \<Rightarrow> bool" where
  "pc_ok (ShellRegister t) = (t = 0)"
| "pc_ok (ShellPop t) = (t = 0)"
| "pc_ok (ShellKey t _) = (t = 0)"
| "pc_ok (SleepPoll t) = (t = 1)"
| "pc_ok (SleepNew t) = (t = 1)"
| "pc_ok _ = True"

fun polled :: "async_pc \<Rightarrow> TaskId option" where
  "polled (ShellRegister t) = Some t"
| "polled (ShellPop t) = Some t"
| "polled (ShellKey t _) = Some t"
| "polled (SleepPoll t) = Some t"
| "polled (SleepNew t) = Some t"
| "polled _ = None"

fun in_flight :: "async_pc \<Rightarrow> u8 list" where
  "in_flight (ShellKey _ sc) = [sc]"
| "in_flight _ = []"

fun past_register :: "async_pc \<Rightarrow> bool" where
  "past_register (ShellRegister _) = False"
| "past_register (ShellKey _ _) = False"
| "past_register _ = True"

text \<open>The tasks are where the boot put them, and a waker wakes its own task.\<close>

definition ids_ok :: "('w \<Rightarrow> TaskId option) \<Rightarrow> ('f, 'q, 's, 'w) async \<Rightarrow> bool" where
  "ids_ok holds s \<longleftrightarrow>
     (\<forall>t. tasks s t = Some Shell \<longleftrightarrow> t = 0) \<and> (\<forall>t. (\<exists>h. tasks s t = Some (Heartbeat h)) \<longleftrightarrow> t = 1)
     \<and> (\<forall>t. waker_cache s t = None \<or> waker_cache s t = Some t)
     \<and> (\<forall>t. polled (apc s) = Some t \<longrightarrow> waker_cache s t = Some t) \<and> pc_ok (apc s)
     \<and> (holds (WAKER s) = None \<or> holds (WAKER s) = Some 0)"

text \<open>The shell is queued or polled whenever there is something for it, or nobody would wake it.\<close>

definition kbd_ok :: "('q \<Rightarrow> TaskId list) \<Rightarrow> ('s \<Rightarrow> u8 list) \<Rightarrow> ('w \<Rightarrow> TaskId option) \<Rightarrow> ('f, 'q, 's, 'w) async \<Rightarrow> bool" where
  "kbd_ok ready codes holds s \<longleftrightarrow>
     (codes (SCANCODE_QUEUE s) \<noteq> [] \<longrightarrow> 0 \<in> set (ready (task_queue s)) \<or> polled (apc s) = Some 0)
     \<and> (holds (WAKER s) = None \<longrightarrow> 0 \<in> set (ready (task_queue s)) \<or> \<not> past_register (apc s))"

text \<open>The heartbeat is queued, polled, or among the sleepers with the tick it waits for.\<close>

definition beat_ok :: "('q \<Rightarrow> TaskId list) \<Rightarrow> ('f, 'q, 's, 'w) async \<Rightarrow> bool" where
  "beat_ok ready s \<longleftrightarrow>
     (1 \<in> set (ready (task_queue s)) \<or> polled (apc s) = Some 1
      \<or> (\<exists>sl. tasks s 1 = Some (Heartbeat (Some sl)) \<and> (target_tick sl, 1) \<in> set (SLEEPERS s)))
     \<and> (\<forall>sl. tasks s 1 = Some (Heartbeat (Some sl)) \<longrightarrow> registered sl \<longrightarrow>
          (target_tick sl, 1) \<in> set (SLEEPERS s) \<or> target_tick sl \<le> uptime s)
     \<and> (\<forall>now i. apc s = WakeSleepers now i \<longrightarrow> now \<le> uptime s)
     \<and> (\<forall>t. apc s = SleepPoll t \<longrightarrow> tasks s t \<noteq> Some (Heartbeat None))"

definition fifo_ok :: "('s \<Rightarrow> u8 list) \<Rightarrow> ('f, 'q, 's, 'w) async \<Rightarrow> bool" where
  "fifo_ok codes s \<longleftrightarrow> accepted s = delivered s @ in_flight (apc s) @ codes (SCANCODE_QUEUE s)"

definition async_inv :: "('q \<Rightarrow> TaskId list) \<Rightarrow> ('s \<Rightarrow> u8 list) \<Rightarrow> ('w \<Rightarrow> TaskId option) \<Rightarrow> ('f, 'q, 's, 'w) async \<Rightarrow> bool" where
  "async_inv ready codes holds s \<longleftrightarrow>
     is_panic (apc s) \<or> ids_ok holds s \<and> kbd_ok ready codes holds s \<and> beat_ok ready s \<and> fifo_ok codes s"

lemmas async_defs = async_inv_def ids_ok_def kbd_ok_def beat_ok_def fifo_ok_def

lemma bounded_fifoD:
  assumes "bounded_fifo cap items psh pp"
  shows "psh x q = Some q' \<Longrightarrow> items q' = items q @ [x]" and "psh x q = None \<Longrightarrow> cap \<le> length (items q)"
    and "pp q = None \<Longrightarrow> items q = []" and "pp q = Some (y, r) \<Longrightarrow> items q = y # items r"
proof -
  have 1: "case psh x q of None \<Rightarrow> cap \<le> length (items q) | Some q' \<Rightarrow> length (items q) < cap \<and> items q' = items q @ [x]"
    and 2: "case pp q of None \<Rightarrow> items q = [] | Some (y, r) \<Rightarrow> items q = y # items r"
    using assms unfolding bounded_fifo_def by blast+
  show "psh x q = Some q' \<Longrightarrow> items q' = items q @ [x]" "psh x q = None \<Longrightarrow> cap \<le> length (items q)"
    using 1 by simp_all
  show "pp q = None \<Longrightarrow> items q = []" "pp q = Some (y, r) \<Longrightarrow> items q = y # items r"
    using 2 by simp_all
qed

lemma crates_okD:
  assumes "crates_ok cr ready codes holds"
  shows "tq_push cr t q = Some q' \<Longrightarrow> ready q' = ready q @ [t]"
    and "tq_pop cr q = None \<Longrightarrow> ready q = []"
    and "tq_pop cr q = Some (t, q') \<Longrightarrow> ready q = t # ready q'"
    and "sq_push cr sc b = Some b' \<Longrightarrow> codes b' = codes b @ [sc]"
    and "sq_pop cr b = None \<Longrightarrow> codes b = []"
    and "sq_pop cr b = Some (sc, b') \<Longrightarrow> codes b = sc # codes b'"
    and "holds (aw_register cr t w) = Some t"
    and "fst (aw_take cr w) = holds w" and "holds (snd (aw_take cr w)) = None"
    and "tq_is_empty cr q \<longleftrightarrow> ready q = []"
proof -
  have t: "bounded_fifo 100 ready (tq_push cr) (tq_pop cr)" and sc: "bounded_fifo 100 codes (sq_push cr) (sq_pop cr)"
    using assms by (simp_all add: crates_ok_def)
  show "tq_push cr t q = Some q' \<Longrightarrow> ready q' = ready q @ [t]" "tq_pop cr q = None \<Longrightarrow> ready q = []"
    "tq_pop cr q = Some (t, q') \<Longrightarrow> ready q = t # ready q'" "sq_push cr sc b = Some b' \<Longrightarrow> codes b' = codes b @ [sc]"
    "sq_pop cr b = None \<Longrightarrow> codes b = []" "sq_pop cr b = Some (sc, b') \<Longrightarrow> codes b = sc # codes b'"
    by (fact bounded_fifoD(1) [OF t] bounded_fifoD(3) [OF t] bounded_fifoD(4) [OF t]
        bounded_fifoD(1) [OF sc] bounded_fifoD(3) [OF sc] bounded_fifoD(4) [OF sc])+
qed (use assms in \<open>simp_all add: crates_ok_def\<close>)

lemma wake_task_cases:
  assumes "crates_ok cr ready codes holds"
  obtains "is_panic (apc (wake_task cr t s))"
  | q where "wake_task cr t s = s\<lparr>task_queue := q\<rparr>" and "ready q = ready (task_queue s) @ [t]"
proof (cases "tq_push cr t (task_queue s)")
  case None
  then have "is_panic (apc (wake_task cr t s))" by (simp add: wake_task_def)
  then show ?thesis by (rule that(1))
next
  case (Some q)
  then have "wake_task cr t s = s\<lparr>task_queue := q\<rparr>" by (simp add: wake_task_def)
  then show ?thesis using crates_okD(1) [OF assms Some] by (rule that(2))
qed

lemma async_invI:
  "(\<not> is_panic (apc s) \<Longrightarrow> ids_ok holds s \<and> kbd_ok ready codes holds s \<and> beat_ok ready s \<and> fifo_ok codes s) \<Longrightarrow>
     async_inv ready codes holds s"
  by (auto simp: async_inv_def)

lemma wake_sleepers_inv:
  assumes cr: "crates_ok cr ready codes holds" and inv: "async_inv ready codes holds s" and pc: "apc s = WakeSleepers now i"
  shows "async_inv ready codes holds (wake_sleepers_step cr now i s)"
proof -
  let ?l = "SLEEPERS s"
  have ids: "ids_ok holds s" and kbd: "kbd_ok ready codes holds s" and beat: "beat_ok ready s" and fifo: "fifo_ok codes s"
    using inv pc by (simp_all add: async_inv_def)
  consider "i < length ?l" "fst (?l ! i) \<le> now" | "i < length ?l" "\<not> fst (?l ! i) \<le> now" | "\<not> i < length ?l" by blast
  then show ?thesis
  proof cases
    case 1
    let ?s = "s\<lparr>SLEEPERS := take i ?l @ drop (Suc i) ?l\<rparr>"
    have step: "wake_sleepers_step cr now i s = wake_task cr (snd (?l ! i)) ?s"
      using 1 by (simp add: wake_sleepers_step_def Let_def)
    have "?l = take i ?l @ ?l ! i # drop (Suc i) ?l" using 1(1) by (rule id_take_nth_drop)
    then have mem: "x \<in> set ?l \<Longrightarrow> x = ?l ! i \<or> x \<in> set (take i ?l @ drop (Suc i) ?l)" for x
      by (metis Un_iff insert_iff list.simps(15) set_append)
    have le: "fst (?l ! i) \<le> uptime s" using 1(2) beat pc by (auto simp: beat_ok_def)
    show ?thesis unfolding step
    proof (rule wake_task_cases [OF cr, of "snd (?l ! i)" ?s])
      fix q
      assume w: "wake_task cr (snd (?l ! i)) ?s = ?s\<lparr>task_queue := q\<rparr>" and q: "ready q = ready (task_queue ?s) @ [snd (?l ! i)]"
      have "beat_ok ready (?s\<lparr>task_queue := q\<rparr>)"
        using beat pc mem q le unfolding beat_ok_def by simp (metis fst_conv snd_conv)
      moreover have "kbd_ok ready codes holds (?s\<lparr>task_queue := q\<rparr>)" using kbd q by (auto simp: kbd_ok_def)
      ultimately show "async_inv ready codes holds (wake_task cr (snd (?l ! i)) ?s)"
        unfolding w using ids fifo by (simp add: async_inv_def ids_ok_def fifo_ok_def)
    qed (simp add: async_inv_def)
  qed (use ids kbd beat fifo pc in \<open>auto simp: wake_sleepers_step_def Let_def async_defs\<close>)
qed

lemma poll_next_inv:
  assumes cr: "crates_ok cr ready codes holds" and inv: "async_inv ready codes holds s"
  shows "apc s = ShellRegister t \<Longrightarrow> async_inv ready codes holds (poll_next_register cr t s)"
    and "apc s = ShellPop t \<Longrightarrow> async_inv ready codes holds (poll_next_pop cr t s)"
    and "apc s = ShellKey t sc \<Longrightarrow> async_inv ready codes holds (s\<lparr>delivered := delivered s @ [sc], apc := ShellRegister t\<rparr>)"
proof -
  note d = crates_okD [OF cr]
  show "apc s = ShellRegister t \<Longrightarrow> async_inv ready codes holds (poll_next_register cr t s)"
    using inv by (auto simp: async_defs poll_next_register_def d(7))
  show "apc s = ShellKey t sc \<Longrightarrow> async_inv ready codes holds (s\<lparr>delivered := delivered s @ [sc], apc := ShellRegister t\<rparr>)"
    using inv by (auto simp: async_defs)
  show "async_inv ready codes holds (poll_next_pop cr t s)" if pc: "apc s = ShellPop t"
  proof (cases "sq_pop cr (SCANCODE_QUEUE s)")
    case None
    with inv pc d(5) [OF None] show ?thesis by (auto simp: async_defs poll_next_pop_def)
  next
    case (Some x)
    obtain sc q where x: "x = (sc, q)" by force
    with Some inv pc d(6) [of "SCANCODE_QUEUE s" sc q] show ?thesis by (auto simp: async_defs poll_next_pop_def)
  qed
qed

lemma sleep_inv:
  assumes inv: "async_inv ready codes holds s"
  shows "apc s = SleepPoll t \<Longrightarrow> async_inv ready codes holds (sleep_poll t s)"
    and "apc s = SleepNew t \<Longrightarrow>
      async_inv ready codes holds (s\<lparr>tasks := (tasks s)(t \<mapsto> Heartbeat (Some (sleep_new (uptime s) 200))), apc := SleepPoll t\<rparr>)"
proof -
  show "async_inv ready codes holds (s\<lparr>tasks := (tasks s)(t \<mapsto> Heartbeat (Some (sleep_new (uptime s) 200))), apc := SleepPoll t\<rparr>)"
    if "apc s = SleepNew t"
    using inv that by (auto simp: async_defs sleep_new_def)
  show "async_inv ready codes holds (sleep_poll t s)" if pc: "apc s = SleepPoll t"
  proof -
    have t: "t = 1" and "\<exists>h. tasks s 1 = Some (Heartbeat h)" and c: "waker_cache s 1 = Some 1"
      using inv pc by (auto simp: async_inv_def ids_ok_def)
    then obtain h where h: "tasks s 1 = Some (Heartbeat h)" by blast
    show ?thesis
    proof (cases h)
      case None
      with inv pc h t show ?thesis by (auto simp: async_defs sleep_poll_def)
    next
      case (Some sl)
      consider "target_tick sl \<le> uptime s" | "\<not> target_tick sl \<le> uptime s" "registered sl"
        | "\<not> target_tick sl \<le> uptime s" "\<not> registered sl" by blast
      then show ?thesis
        by cases (use inv pc h t c Some in \<open>auto simp: async_defs sleep_poll_def\<close>)
    qed
  qed
qed

lemma next_task_eqs:
  assumes pop: "tq_pop cr (task_queue s) = Some (tid, q)" and c: "waker_cache s tid = None \<or> waker_cache s tid = Some tid"
  defines "s1 \<equiv> s\<lparr>task_queue := q, waker_cache := (waker_cache s)(tid \<mapsto> tid)\<rparr>"
  shows "tasks s tid = None \<Longrightarrow> next_task_step cr poll_other s = s\<lparr>task_queue := q\<rparr>"
    and "tasks s tid = Some Shell \<Longrightarrow> next_task_step cr poll_other s = s1\<lparr>apc := ShellRegister tid\<rparr>"
    and "tasks s tid = Some (Heartbeat None) \<Longrightarrow> next_task_step cr poll_other s = s1\<lparr>apc := SleepNew tid\<rparr>"
    and "tasks s tid = Some (Heartbeat (Some sl)) \<Longrightarrow> next_task_step cr poll_other s = s1\<lparr>apc := SleepPoll tid\<rparr>"
    and "tasks s tid = Some (Other f) \<Longrightarrow> poll_other f = None \<Longrightarrow>
      next_task_step cr poll_other s = s1\<lparr>tasks := (tasks s)(tid := None), waker_cache := (waker_cache s)(tid := None)\<rparr>"
    and "tasks s tid = Some (Other f) \<Longrightarrow> poll_other f = Some g \<Longrightarrow>
      next_task_step cr poll_other s = s1\<lparr>tasks := (tasks s)(tid \<mapsto> Other g)\<rparr>"
proof -
  have i: "(if waker_cache (s\<lparr>task_queue := q\<rparr>) tid = None
         then (s\<lparr>task_queue := q\<rparr>)\<lparr>waker_cache := (waker_cache (s\<lparr>task_queue := q\<rparr>))(tid \<mapsto> tid)\<rparr> else s\<lparr>task_queue := q\<rparr>) = s1"
    using c by (auto simp: s1_def fun_upd_idem)
  have e: "next_task_step cr poll_other s =
     (case tasks s tid of
        None \<Rightarrow> s\<lparr>task_queue := q\<rparr>
      | Some Shell \<Rightarrow> s1\<lparr>apc := ShellRegister tid\<rparr>
      | Some (Heartbeat None) \<Rightarrow> s1\<lparr>apc := SleepNew tid\<rparr>
      | Some (Heartbeat (Some _)) \<Rightarrow> s1\<lparr>apc := SleepPoll tid\<rparr>
      | Some (Other f) \<Rightarrow>
          (case poll_other f of
             None \<Rightarrow> s1\<lparr>tasks := (tasks s1)(tid := None), waker_cache := (waker_cache s1)(tid := None)\<rparr>
           | Some f \<Rightarrow> s1\<lparr>tasks := (tasks s1)(tid \<mapsto> Other f)\<rparr>))"
    unfolding next_task_step_def pop option.case prod.case Let_def i by (simp split: option.split)
  show "tasks s tid = None \<Longrightarrow> next_task_step cr poll_other s = s\<lparr>task_queue := q\<rparr>"
    "tasks s tid = Some Shell \<Longrightarrow> next_task_step cr poll_other s = s1\<lparr>apc := ShellRegister tid\<rparr>"
    "tasks s tid = Some (Heartbeat None) \<Longrightarrow> next_task_step cr poll_other s = s1\<lparr>apc := SleepNew tid\<rparr>"
    "tasks s tid = Some (Heartbeat (Some sl)) \<Longrightarrow> next_task_step cr poll_other s = s1\<lparr>apc := SleepPoll tid\<rparr>"
    unfolding e by simp_all
  show "tasks s tid = Some (Other f) \<Longrightarrow> poll_other f = None \<Longrightarrow>
      next_task_step cr poll_other s = s1\<lparr>tasks := (tasks s)(tid := None), waker_cache := (waker_cache s)(tid := None)\<rparr>"
    "tasks s tid = Some (Other f) \<Longrightarrow> poll_other f = Some g \<Longrightarrow>
      next_task_step cr poll_other s = s1\<lparr>tasks := (tasks s)(tid \<mapsto> Other g)\<rparr>"
    unfolding e by (simp_all add: s1_def)
qed

lemma next_task_inv:
  assumes cr: "crates_ok cr ready codes holds" and inv: "async_inv ready codes holds s" and pc: "apc s = NextTask"
  shows "async_inv ready codes holds (next_task_step cr poll_other s)"
proof (cases "tq_pop cr (task_queue s)")
  case None
  with inv pc show ?thesis by (auto simp: async_defs next_task_step_def)
next
  case (Some x)
  obtain tid q where x: "x = (tid, q)" by force
  with Some have pop: "tq_pop cr (task_queue s) = Some (tid, q)" by simp
  have q: "ready (task_queue s) = tid # ready q" by (rule crates_okD(3) [OF cr pop])
  have ids: "\<And>t. tasks s t = Some Shell \<longleftrightarrow> t = 0" "\<And>t. (\<exists>h. tasks s t = Some (Heartbeat h)) \<longleftrightarrow> t = 1"
    and c: "waker_cache s tid = None \<or> waker_cache s tid = Some tid"
    using inv pc by (simp_all add: async_inv_def ids_ok_def)
  note step = next_task_eqs [OF pop c]
  consider "tasks s tid = None" | "tasks s tid = Some Shell" | h where "tasks s tid = Some (Heartbeat h)"
    | f where "tasks s tid = Some (Other f)" by (metis option.exhaust task.exhaust)
  then show ?thesis
  proof cases
    case 1
    then have "tid \<noteq> 0" "tid \<noteq> 1" using ids(1) [of tid] ids(2) [of tid] by auto
    with inv pc q show ?thesis unfolding step(1) [OF 1] by (auto simp: async_defs)
  next
    case 2
    then have "tid = 0" using ids(1) by simp
    with inv pc q show ?thesis unfolding step(2) [OF 2] by (auto simp: async_defs)
  next
    case 3
    then have "tid = 1" using ids(2) by blast
    with 3 inv pc q show ?thesis by (cases h) (auto simp: step(3,4) async_defs)
  next
    case 4
    then have "tid \<noteq> 0" "tid \<noteq> 1" using ids(1) [of tid] ids(2) [of tid] by auto
    with 4 inv pc q show ?thesis by (cases "poll_other f") (auto simp: step(5,6) async_defs)
  qed
qed

lemma exec_inv:
  assumes cr: "crates_ok cr ready codes holds" and inv: "async_inv ready codes holds s"
  shows "async_inv ready codes holds (exec_step cr poll_other s)"
proof (cases "apc s")
  case (WakeSleepers now i)
  with wake_sleepers_inv [OF cr inv] show ?thesis by (simp add: exec_step_def)
next
  case NextTask
  with next_task_inv [OF cr inv] show ?thesis by (simp add: exec_step_def)
next
  case (ShellRegister t)
  with poll_next_inv(1) [OF cr inv] show ?thesis by (simp add: exec_step_def)
next
  case (ShellPop t)
  with poll_next_inv(2) [OF cr inv] show ?thesis by (simp add: exec_step_def)
next
  case (ShellKey t sc)
  with poll_next_inv(3) [OF cr inv] show ?thesis by (simp add: exec_step_def)
next
  case (SleepPoll t)
  with sleep_inv(1) [OF inv] show ?thesis by (simp add: exec_step_def)
next
  case (SleepNew t)
  with sleep_inv(2) [OF inv] show ?thesis by (simp add: exec_step_def)
qed (use inv in \<open>auto simp: exec_step_def async_defs\<close>)

lemma resume_inv: "async_inv ready codes holds s \<Longrightarrow> async_inv ready codes holds (resume s)"
  by (auto simp: resume_def async_defs)

lemma timer_inv:
  assumes inv: "async_inv ready codes holds s" and "uptime s < - 1"
  shows "async_inv ready codes holds (s\<lparr>uptime := uptime s + 1\<rparr>)"
proof -
  have "unat (uptime s) < 2 ^ 64 - 1" using assms(2) by (simp only: word_less_nat_alt unat_minus_1) simp
  then have "unat (uptime s + 1) = unat (uptime s) + 1" by (simp add: unat_add_no_ovf)
  then have up: "t \<le> uptime s \<Longrightarrow> t \<le> uptime s + 1" for t by (simp add: word_le_nat_alt)
  show ?thesis
  proof (rule async_invI)
    assume "\<not> is_panic (apc (s\<lparr>uptime := uptime s + 1\<rparr>))"
    then have ok: "ids_ok holds s" "kbd_ok ready codes holds s" "beat_ok ready s" "fifo_ok codes s"
      using inv by (simp_all add: async_inv_def)
    then have "beat_ok ready (s\<lparr>uptime := uptime s + 1\<rparr>)"
      unfolding beat_ok_def by (simp add: up) (metis up)
    with ok show "ids_ok holds (s\<lparr>uptime := uptime s + 1\<rparr>) \<and> kbd_ok ready codes holds (s\<lparr>uptime := uptime s + 1\<rparr>)
        \<and> beat_ok ready (s\<lparr>uptime := uptime s + 1\<rparr>) \<and> fifo_ok codes (s\<lparr>uptime := uptime s + 1\<rparr>)"
      by (simp add: ids_ok_def kbd_ok_def fifo_ok_def)
  qed
qed

lemma add_scancode_inv:
  assumes cr: "crates_ok cr ready codes holds" and inv: "async_inv ready codes holds s" and np: "\<not> is_panic (apc s)"
  shows "async_inv ready codes holds (add_scancode cr sc s)"
proof (cases "sq_push cr sc (SCANCODE_QUEUE s)")
  case None
  with inv show ?thesis by (simp add: add_scancode_def)
next
  case (Some q)
  note d = crates_okD [OF cr]
  let ?s = "s\<lparr>SCANCODE_QUEUE := q, accepted := accepted s @ [sc], WAKER := snd (aw_take cr (WAKER s))\<rparr>"
  have step: "add_scancode cr sc s = (case holds (WAKER s) of Some t \<Rightarrow> wake_task cr t ?s | None \<Rightarrow> ?s)"
    using Some d(8) by (simp add: add_scancode_def Let_def split_beta split: option.split)
  have codes: "codes q = codes (SCANCODE_QUEUE s) @ [sc]" by (rule d(4) [OF Some])
  have hold: "holds (snd (aw_take cr (WAKER s))) = None" by (rule d(9))
  show ?thesis
  proof (cases "holds (WAKER s)")
    case None
    with inv np show ?thesis by (cases "apc s") (auto simp: step async_defs hold codes)
  next
    case (Some t)
    with inv np have "t = 0" by (simp add: async_inv_def ids_ok_def)
    with Some have step: "add_scancode cr sc s = wake_task cr 0 ?s" by (simp add: step)
    show ?thesis unfolding step
    proof (rule wake_task_cases [OF cr, of 0 ?s])
      fix r
      assume w: "wake_task cr 0 ?s = ?s\<lparr>task_queue := r\<rparr>" and r: "ready r = ready (task_queue ?s) @ [0]"
      show "async_inv ready codes holds (wake_task cr 0 ?s)"
        unfolding w using inv np by (auto simp: async_defs hold codes r)
    qed (simp add: async_inv_def)
  qed
qed

lemma async_step_inv:
  assumes "async_step cr poll_other s s'" and cr: "crates_ok cr ready codes holds" and inv: "async_inv ready codes holds s"
  shows "async_inv ready codes holds s'"
  using assms(1)
proof cases
  case thread
  then show ?thesis using exec_inv [OF cr inv] by simp
next
  case (keyboard sc)
  then have "\<not> is_panic (apc (resume s))" by (simp add: resume_def)
  with keyboard add_scancode_inv [OF cr resume_inv [OF inv]] show ?thesis by simp
next
  case timer
  then show ?thesis using resume_inv [OF timer_inv [OF inv]] by simp
qed

section \<open>Boot\<close>

lemma spawn_task_Inr:
  assumes "spawn_task cr t s = Inr s'"
  obtains q where "tq_push cr (next_id s) (task_queue s) = Some q" and "tasks s (next_id s) = None"
    and "s' = s\<lparr>next_id := next_id s + 1, tasks := (tasks s)(next_id s \<mapsto> t), task_queue := q\<rparr>"
  using assms by (auto simp: spawn_task_def task_id_new_def Let_def split: if_splits option.splits)

lemma spawn_others_inv:
  assumes cr: "crates_ok cr ready codes holds"
  shows "async_inv ready codes holds s \<Longrightarrow> \<not> is_panic (apc s) \<Longrightarrow> spawn_all cr (map Other others) s = Inr s' \<Longrightarrow> async_inv ready codes holds s'"
proof (induction others arbitrary: s)
  case (Cons f others)
  then obtain s1 where s1: "spawn_task cr (Other f) s = Inr s1" "spawn_all cr (map Other others) s1 = Inr s'"
    by (auto simp: rbind_eq_Inr)
  from s1(1) show ?case
  proof (rule spawn_task_Inr)
    fix q
    assume q: "tq_push cr (next_id s) (task_queue s) = Some q" and n: "tasks s (next_id s) = None"
      and e: "s1 = s\<lparr>next_id := next_id s + 1, tasks := (tasks s)(next_id s \<mapsto> Other f), task_queue := q\<rparr>"
    have "tasks s 0 = Some Shell" "\<exists>h. tasks s 1 = Some (Heartbeat h)"
      using Cons.prems(1,2) by (simp_all add: async_inv_def ids_ok_def)
    then have "next_id s \<noteq> 0" "next_id s \<noteq> 1" using n by auto
    then have "async_inv ready codes holds s1"
      using Cons.prems(1,2) crates_okD(1) [OF cr q] unfolding e by (auto simp: async_defs)
    moreover have "\<not> is_panic (apc s1)" using Cons.prems(2) by (simp add: e)
    ultimately show ?thesis using Cons.IH s1(2) by blast
  qed
qed simp

lemma async_boot_inv:
  assumes cr: "crates_ok cr ready codes holds" and boot: "async_boot cr others q sq w now = Inr s"
    and e: "codes sq = []"  "holds w = None"
  shows "async_inv ready codes holds s"
proof -
  let ?s0 = "executor_new q sq w now"
  obtain s1 s2 where 1: "spawn_task cr Shell ?s0 = Inr s1" and 2: "spawn_task cr (Heartbeat None) s1 = Inr s2"
    and 3: "spawn_all cr (map Other others) s2 = Inr s"
    using boot by (auto simp: async_boot_def rbind_eq_Inr)
  obtain q1 where q1: "tq_push cr 0 q = Some q1"
    and s1: "s1 = ?s0\<lparr>next_id := 1, tasks := [0 \<mapsto> Shell], task_queue := q1\<rparr>"
    using 1 by (rule spawn_task_Inr) (simp add: executor_new_def)
  obtain q2 where q2: "tq_push cr 1 q1 = Some q2"
    and s2: "s2 = ?s0\<lparr>next_id := 2, tasks := [0 \<mapsto> Shell, 1 \<mapsto> Heartbeat None], task_queue := q2\<rparr>"
    using 2 by (rule spawn_task_Inr) (simp add: s1)
  have "async_inv ready codes holds s2"
    using crates_okD(1) [OF cr q1] crates_okD(1) [OF cr q2] e by (auto simp: async_defs s2 executor_new_def)
  moreover have "\<not> is_panic (apc s2)" by (simp add: s2 executor_new_def)
  ultimately show ?thesis using spawn_others_inv [OF cr] 3 by blast
qed

text \<open>
  C11. No keystroke and no sleep is lost. From boot, on every interleaving of the executor's steps with
  keyboard and timer interrupts (until the kernel panics, if it does): the scancodes the interrupt
  queued are, in order, those the shell received, the one it is handling and those still queued;
  whenever a scancode is queued the shell is in the ready queue or being polled, so that it cannot sleep
  on it; and the heartbeat is in the ready queue, being polled, or among the sleepers with the tick its
  sleep waits for.
\<close>

theorem async_no_lost_wakeup:
  assumes cr: "crates_ok cr ready codes holds"
    and boot: "async_boot cr others q sq w now = Inr s0" and "codes sq = []" and "holds w = None"
    and "(async_step cr poll_other)\<^sup>*\<^sup>* s0 s" and "\<not> is_panic (apc s)"
  shows "accepted s = delivered s @ in_flight (apc s) @ codes (SCANCODE_QUEUE s)
    \<and> (codes (SCANCODE_QUEUE s) \<noteq> [] \<longrightarrow> 0 \<in> set (ready (task_queue s)) \<or> polled (apc s) = Some 0)
    \<and> (1 \<in> set (ready (task_queue s)) \<or> polled (apc s) = Some 1
       \<or> (\<exists>sl. tasks s 1 = Some (Heartbeat (Some sl)) \<and> (target_tick sl, 1) \<in> set (SLEEPERS s)))"
proof -
  have "async_inv ready codes holds s"
    using assms(5)
    by (induction rule: rtranclp_induct) (use async_boot_inv [OF cr boot assms(3,4)] async_step_inv [OF _ cr] in blast)+
  with assms(6) show ?thesis by (simp add: async_defs)
qed

section \<open>Schedules\<close>

text \<open>The queues as lists and the waker cell as an option.\<close>

definition list_push :: "'a \<Rightarrow> 'a list \<Rightarrow> 'a list option" where
  "list_push x xs = (if length xs < 100 then Some (xs @ [x]) else None)"

definition list_pop :: "'a list \<Rightarrow> ('a \<times> 'a list) option" where
  "list_pop xs = (case xs of [] \<Rightarrow> None | x # xs \<Rightarrow> Some (x, xs))"

definition list_crates :: "(TaskId list, u8 list, TaskId option) crates" where
  "list_crates = \<lparr>tq_push = list_push, tq_pop = list_pop, tq_is_empty = (\<lambda>q. q = []), sq_push = list_push, sq_pop = list_pop,
     aw_register = (\<lambda>t w. Some t), aw_take = (\<lambda>w. (w, None))\<rparr>"

lemma list_crates_ok: "crates_ok list_crates (\<lambda>q. q) (\<lambda>q. q) (\<lambda>w. w)"
  by (auto simp: crates_ok_def bounded_fifo_def list_crates_def list_push_def list_pop_def split: list.splits)

datatype async_event = Exec | Key u8 | Tick

fun async_run :: "async_event list \<Rightarrow> (unit, TaskId list, u8 list, TaskId option) async \<Rightarrow> (unit, TaskId list, u8 list, TaskId option) async" where
  "async_run [] s = s"
| "async_run (Exec # es) s = async_run es (exec_step list_crates Some s)"
| "async_run (Key sc # es) s = async_run es (if is_panic (apc s) then s else add_scancode list_crates sc (resume s))"
| "async_run (Tick # es) s = async_run es (if uptime s < - 1 then resume (s\<lparr>uptime := uptime s + 1\<rparr>) else s)"

lemma async_run_reachable: "(async_step list_crates Some)\<^sup>*\<^sup>* s (async_run es s)"
proof (induction es s rule: async_run.induct)
  case (2 es s)
  then show ?case using async_step.thread [of list_crates Some s] by (simp add: converse_rtranclp_into_rtranclp)
next
  case (3 sc es s)
  then show ?case using async_step.keyboard [of s list_crates Some sc]
    by (cases "is_panic (apc s)") (auto intro: converse_rtranclp_into_rtranclp)
next
  case (4 es s)
  then show ?case using async_step.timer [of s list_crates Some]
    by (cases "uptime s < - 1") (auto intro: converse_rtranclp_into_rtranclp)
qed simp

lemma async_run_append: "async_run (es @ es') s = async_run es' (async_run es s)"
  by (induction es s rule: async_run.induct) simp_all

definition booted :: "(unit, TaskId list, u8 list, TaskId option) async" where
  "booted = (executor_new [] [] None 0)\<lparr>tasks := [0 \<mapsto> Shell, 1 \<mapsto> Heartbeat None], task_queue := [0, 1], next_id := 2\<rparr>"

lemma boot_booted: "async_boot list_crates [] [] [] None 0 = Inr booted"
  by (simp add: async_boot_def spawn_task_def task_id_new_def executor_new_def list_crates_def list_push_def booted_def)

lemmas async_eval = exec_step_def wake_sleepers_step_def next_task_step_def poll_next_register_def poll_next_pop_def
  sleep_poll_def sleep_new_def add_scancode_def resume_def wake_task_def list_crates_def list_push_def list_pop_def
  booted_def executor_new_def saturating_add_def Let_def

lemma halted_stays: "apc s = Halted \<Longrightarrow> exec_step cr poll_other s = s"
  by (simp add: exec_step_def)

theorem async_no_lost_wakeup_witness:
  "\<exists>s. (async_step list_crates Some)\<^sup>*\<^sup>* booted s \<and> SCANCODE_QUEUE s = [0x1E] \<and> accepted s = [0x1E]
     \<and> (0 \<in> set (task_queue s) \<or> polled (apc s) = Some 0)"
proof -
  let ?s = "async_run [Exec, Exec, Exec, Exec, Key 0x1E] booted"
  have r: "(async_step list_crates Some)\<^sup>*\<^sup>* booted ?s" by (rule async_run_reachable)
  have e: "\<not> is_panic (apc ?s)" "SCANCODE_QUEUE ?s = [0x1E]" "accepted ?s = [0x1E]" by (simp_all add: async_eval)
  show ?thesis
    using async_no_lost_wakeup [OF list_crates_ok boot_booted refl refl r e(1)] r e(2,3) by fastforce
qed

text \<open>
  The executor can halt on a ready task. \<open>sleep_if_idle\<close> tests the queue with interrupts enabled; a key
  that arrives between the test and the halt is queued, its task is woken, and the processor halts all
  the same, until the next interrupt. The comment in the code relies on enabling and halting being one step.
\<close>

theorem executor_halts_on_ready_task:
  "\<exists>s. async_boot list_crates [] [] [] None 0 = Inr booted \<and> (async_step list_crates Some)\<^sup>*\<^sup>* booted s
     \<and> apc s = Halted \<and> task_queue s = [0] \<and> SCANCODE_QUEUE s = [0x1E] \<and> delivered s = []
     \<and> exec_step list_crates Some s = s"
proof -
  let ?s = "async_run [Exec, Exec, Exec, Exec, Exec, Exec, Exec, Exec, Exec, Exec, Key 0x1E, Exec] booted"
  have r: "(async_step list_crates Some)\<^sup>*\<^sup>* booted ?s" by (rule async_run_reachable)
  have e: "apc ?s = Halted" "task_queue ?s = [0]" "SCANCODE_QUEUE ?s = [0x1E]" "delivered ?s = []"
    by (simp_all add: async_eval)
  show ?thesis
    by (intro exI [of _ ?s] conjI boot_booted r e halted_stays)
qed

text \<open>A key that arrives after the shell registers its waker queues the shell once more, while it is polled.\<close>

lemma requeue_step:
  assumes "apc s = ShellRegister 0" and "waker_cache s 0 = Some 0" and "SCANCODE_QUEUE s = []" and "length (task_queue s) < 100"
  shows "\<exists>s'. async_run [Exec, Key sc, Exec, Exec] s = s' \<and> apc s' = ShellRegister 0 \<and> waker_cache s' 0 = Some 0
    \<and> SCANCODE_QUEUE s' = [] \<and> length (task_queue s') = length (task_queue s) + 1"
  using assms by (simp add: async_eval)

lemma requeue_many:
  assumes "apc s = ShellRegister 0" and "waker_cache s 0 = Some 0" and "SCANCODE_QUEUE s = []"
  shows "length (task_queue s) + n \<le> 100 \<Longrightarrow>
    \<exists>es. let s' = async_run es s in apc s' = ShellRegister 0 \<and> waker_cache s' 0 = Some 0
      \<and> SCANCODE_QUEUE s' = [] \<and> length (task_queue s') = length (task_queue s) + n"
proof (induction n)
  case 0
  show ?case using assms by (intro exI [of _ "[]"]) simp
next
  case (Suc n)
  then obtain es where es: "apc (async_run es s) = ShellRegister 0" "waker_cache (async_run es s) 0 = Some 0"
    "SCANCODE_QUEUE (async_run es s) = []" "length (task_queue (async_run es s)) = length (task_queue s) + n"
    by (auto simp: Let_def)
  with Suc.prems requeue_step [OF es(1-3), of "0x1E"] show ?case
    by (intro exI [of _ "es @ [Exec, Key 0x1E, Exec, Exec]"]) (simp add: async_run_append Let_def del: async_run.simps)
qed

text \<open>
  C33. The wake-ups of a task are not bounded by one. There is a schedule, of keys that each arrive while the
  shell is being polled for the one before, after which the ready queue holds a hundred entries and the
  next key makes the waker panic, inside the keyboard interrupt.
\<close>

theorem wake_can_panic:
  "\<exists>s. async_boot list_crates [] [] [] None 0 = Inr booted \<and> (async_step list_crates Some)\<^sup>*\<^sup>* booted s
     \<and> apc s = TaskPanic ''task_queue full''"
proof -
  let ?s = "async_run [Exec, Exec, Exec] booted"
  have s: "apc ?s = ShellRegister 0" "waker_cache ?s 0 = Some 0" "SCANCODE_QUEUE ?s = []" "length (task_queue ?s) + 99 \<le> 100"
    by (simp_all add: async_eval)
  obtain es where es: "apc (async_run es ?s) = ShellRegister 0" "waker_cache (async_run es ?s) 0 = Some 0"
    "SCANCODE_QUEUE (async_run es ?s) = []" "length (task_queue (async_run es ?s)) = length (task_queue ?s) + 99"
    using requeue_many [OF s] by (auto simp: Let_def)
  have "length (task_queue ?s) = 1" by (simp add: async_eval)
  with es(4) have "length (task_queue (async_run es ?s)) = 100" by simp
  with es have "apc (async_run [Exec, Key 0x1E] (async_run es ?s)) = TaskPanic ''task_queue full''"
    by (simp add: async_eval)
  then show ?thesis
    using boot_booted async_run_reachable by (metis async_run_append)
qed

end
