(* ===== verification/Doom_Keys.thy ===== *)
theory Doom_Keys
  imports Rust_Prelude
begin

text \<open>
  Keyboard input for Doom (\<open>src/ffi/mod.rs\<close>): the ring buffer of key events, the translation of
  scancodes, the interrupt side \<open>feed_scancode\<close> and the engine side \<open>DG_GetKey\<close>. The ring refines a
  bounded queue, whose contract is a locale.
\<close>

section \<open>The ring\<close>

definition KEY_BUF_SIZE :: usize where "KEY_BUF_SIZE = 32"

record KeyEvent =
  pressed :: u8
  key :: u8

record KeyRing =
  ring_buf :: "KeyEvent list"
  ring_head :: usize
  ring_tail :: usize

definition ring_new :: KeyRing where
  "ring_new = \<lparr>ring_buf = replicate (unat KEY_BUF_SIZE) \<lparr>pressed = 0, key = 0\<rparr>, ring_head = 0, ring_tail = 0\<rparr>"

definition ring_push :: "KeyEvent \<Rightarrow> KeyRing \<Rightarrow> KeyRing res" where
  "ring_push ev r =
     rbind (add_ovf (ring_tail r) 1) (\<lambda>t.
       let nx = t mod KEY_BUF_SIZE in
       if nx \<noteq> ring_head r
       then rbind (index_chk (ring_buf r) (unat (ring_tail r))) (\<lambda>_.
              Inr (r\<lparr>ring_buf := (ring_buf r)[unat (ring_tail r) := ev], ring_tail := nx\<rparr>))
       else Inr r)"

definition ring_pop :: "KeyRing \<Rightarrow> (KeyEvent option \<times> KeyRing) res" where
  "ring_pop r =
     (if ring_head r = ring_tail r then Inr (None, r)
      else rbind (index_chk (ring_buf r) (unat (ring_head r))) (\<lambda>e.
           rbind (add_ovf (ring_head r) 1) (\<lambda>h.
             Inr (Some \<lparr>pressed = pressed e, key = key e\<rparr>, r\<lparr>ring_head := h mod KEY_BUF_SIZE\<rparr>))))"

section \<open>Scancodes\<close>

definition scancode_to_doom :: "u8 \<Rightarrow> bool \<Rightarrow> u8" where
  "scancode_to_doom sc extended =
     (if extended
      then (case map_of [(0x48, 0xad), (0x50, 0xaf), (0x4B, 0xac), (0x4D, 0xae), (0x1D, 0x9d), (0x38, 0xb8)] sc of
              Some k \<Rightarrow> k | None \<Rightarrow> 0)
      else (case map_of
              [(0x01, 27), (0x0E, 0x7f), (0x0F, 9), (0x1C, 13), (0x39, 32), (0x1D, 0x9d),
               (0x2A, 0xb6), (0x36, 0xb6), (0x38, 0xb8),
               (0x3B, 0xbb), (0x3C, 0xbc), (0x3D, 0xbd), (0x3E, 0xbe), (0x3F, 0xbf), (0x40, 0xc0),
               (0x41, 0xc1), (0x42, 0xc2), (0x43, 0xc3), (0x44, 0xc4), (0x57, 0xd7), (0x58, 0xd8),
               (0x02, 0x31), (0x03, 0x32), (0x04, 0x33), (0x05, 0x34), (0x06, 0x35), (0x07, 0x36),
               (0x08, 0x37), (0x09, 0x38), (0x0A, 0x39), (0x0B, 0x30), (0x0C, 0x2d), (0x0D, 0x3d),
               (0x10, 0x71), (0x11, 0x77), (0x12, 0x65), (0x13, 0x72), (0x14, 0x74), (0x15, 0x79),
               (0x16, 0x75), (0x17, 0x69), (0x18, 0x6f), (0x19, 0x70),
               (0x1E, 0x61), (0x1F, 0x73), (0x20, 0x64), (0x21, 0x66), (0x22, 0x67), (0x23, 0x68),
               (0x24, 0x6a), (0x25, 0x6b), (0x26, 0x6c),
               (0x2C, 0x7a), (0x2D, 0x78), (0x2E, 0x63), (0x2F, 0x76), (0x30, 0x62), (0x31, 0x6e),
               (0x32, 0x6d), (0x33, 0x2c), (0x34, 0x2e), (0x35, 0x2f)] sc of
              Some k \<Rightarrow> k | None \<Rightarrow> 0))"

record doom_input =
  EXTENDED :: bool
  KEY_RING :: KeyRing

definition feed_scancode :: "u8 \<Rightarrow> doom_input \<Rightarrow> doom_input res" where
  "feed_scancode sc s =
     (if sc = 0xE0 then Inr (s\<lparr>EXTENDED := True\<rparr>)
      else
        let ext = EXTENDED s;
            s = s\<lparr>EXTENDED := False\<rparr>;
            is_pressed = (sc AND 0x80 = 0);
            make = sc AND 0x7F;
            dk = scancode_to_doom make ext
        in if dk \<noteq> 0
           then rbind (ring_push \<lparr>pressed = (if is_pressed then 1 else 0), key = dk\<rparr> (KEY_RING s)) (\<lambda>r.
                  Inr (s\<lparr>KEY_RING := r\<rparr>))
           else Inr s)"

text \<open>The result, what is written through the two pointers if it is 1, and the new state.\<close>

definition DG_GetKey :: "doom_input \<Rightarrow> (u32 \<times> (u32 \<times> u8) option \<times> doom_input) res" where
  "DG_GetKey s =
     rbind (ring_pop (KEY_RING s)) (\<lambda>(ev, r).
       let s = s\<lparr>KEY_RING := r\<rparr> in
       Inr (case ev of
              Some ev \<Rightarrow> (1, Some (ucast (pressed ev), key ev), s)
            | None \<Rightarrow> (0, None, s)))"

section \<open>Bounded queues\<close>

datatype 'a queue_op = Push 'a | Pop

fun queue_run :: "('a \<Rightarrow> 'q \<Rightarrow> 'q res) \<Rightarrow> ('q \<Rightarrow> ('a option \<times> 'q) res) \<Rightarrow> 'a queue_op list \<Rightarrow> 'q \<Rightarrow> ('a option list \<times> 'q) res" where
  "queue_run psh pp [] q = Inr ([], q)"
| "queue_run psh pp (Push x # ops) q = rbind (psh x q) (queue_run psh pp ops)"
| "queue_run psh pp (Pop # ops) q =
     rbind (pp q) (\<lambda>(x, q). rbind (queue_run psh pp ops q) (\<lambda>(xs, q). Inr (x # xs, q)))"

text \<open>What a queue that drops what it has no room for answers.\<close>

fun list_run :: "nat \<Rightarrow> 'a queue_op list \<Rightarrow> 'a list \<Rightarrow> 'a option list \<times> 'a list" where
  "list_run cap [] xs = ([], xs)"
| "list_run cap (Push x # ops) xs = list_run cap ops (if length xs < cap then xs @ [x] else xs)"
| "list_run cap (Pop # ops) [] = (let (ys, zs) = list_run cap ops [] in (None # ys, zs))"
| "list_run cap (Pop # ops) (x # xs) = (let (ys, zs) = list_run cap ops xs in (Some x # ys, zs))"

locale bounded_queue =
  fixes cap :: nat and inv :: "'q \<Rightarrow> bool" and contents :: "'q \<Rightarrow> 'a list"
    and psh :: "'a \<Rightarrow> 'q \<Rightarrow> 'q res" and pp :: "'q \<Rightarrow> ('a option \<times> 'q) res"
  assumes push_law: "inv q \<Longrightarrow>
      \<exists>q'. psh x q = Inr q' \<and> inv q' \<and> contents q' = (if length (contents q) < cap then contents q @ [x] else contents q)"
    and pop_empty: "inv q \<Longrightarrow> contents q = [] \<Longrightarrow> pp q = Inr (None, q)"
    and pop_law: "inv q \<Longrightarrow> contents q = x # xs \<Longrightarrow> \<exists>q'. pp q = Inr (Some x, q') \<and> inv q' \<and> contents q' = xs"
begin

lemma run_refines:
  "inv q \<Longrightarrow> \<exists>q'. queue_run psh pp ops q = Inr (fst (list_run cap ops (contents q)), q')
     \<and> inv q' \<and> contents q' = snd (list_run cap ops (contents q))"
proof (induction ops arbitrary: q)
  case (Cons op ops)
  show ?case
  proof (cases op)
    case (Push x)
    obtain q1 where q1: "psh x q = Inr q1" "inv q1"
      "contents q1 = (if length (contents q) < cap then contents q @ [x] else contents q)"
      using push_law [OF Cons.prems] by blast
    with Cons.IH [OF q1(2)] Push show ?thesis by simp
  next
    case Pop
    show ?thesis
    proof (cases "contents q")
      case Nil
      with Cons.IH [OF Cons.prems] pop_empty [OF Cons.prems] Pop show ?thesis by (auto simp: split_beta)
    next
      case (Cons x xs)
      then obtain q1 where "pp q = Inr (Some x, q1)" "inv q1" "contents q1 = xs"
        using pop_law [OF Cons.prems] by blast
      with Cons.IH [of q1] Pop Cons show ?thesis by (auto simp: split_beta)
    qed
  qed
qed simp

end

section \<open>The ring is a bounded queue\<close>

definition ring_inv :: "KeyRing \<Rightarrow> bool" where
  "ring_inv r \<longleftrightarrow> length (ring_buf r) = 32 \<and> unat (ring_head r) < 32 \<and> unat (ring_tail r) < 32"

definition ring_length :: "KeyRing \<Rightarrow> nat" where
  "ring_length r = (unat (ring_tail r) + 32 - unat (ring_head r)) mod 32"

definition ring_contents :: "KeyRing \<Rightarrow> KeyEvent list" where
  "ring_contents r = map (\<lambda>i. ring_buf r ! ((unat (ring_head r) + i) mod 32)) [0..<ring_length r]"

lemma length_ring_contents [simp]: "length (ring_contents r) = ring_length r"
  by (simp add: ring_contents_def)

lemma slot_succ:
  assumes "unat (x :: usize) < 32"
  shows "add_ovf x 1 = Inr (x + 1)" and "unat ((x + 1) mod KEY_BUF_SIZE) = (unat x + 1) mod 32"
proof -
  show "add_ovf x 1 = Inr (x + 1)" using assms by (simp add: add_ovf_def)
  have "unat (x + 1) = unat x + 1" using assms by (simp add: unat_add_no_ovf)
  then show "unat ((x + 1) mod KEY_BUF_SIZE) = (unat x + 1) mod 32"
    by (simp add: unat_mod KEY_BUF_SIZE_def)
qed

text \<open>Arithmetic of the slots: the one after the last element is free, as the ring is never full.\<close>

lemma wrap_distance:
  fixes h t :: nat
  assumes "h < 32" "t < 32"
  shows "(t + 32 - h) mod 32 = (if h \<le> t then t - h else t + 32 - h)"
proof (cases "h \<le> t")
  case True
  then have "t + 32 - h = (t - h) + 32" by simp
  with True assms show ?thesis by (simp only: mod_add_self2) simp
qed simp

lemma wrap_sum: "a < 32 \<Longrightarrow> b < 32 \<Longrightarrow> (a + b) mod 32 = (if a + b < 32 then a + b else a + b - 32)"
  for a b :: nat
  by (simp add: mod_if)

lemma wrap_succ: "h < 32 \<Longrightarrow> (h + 1) mod 32 = (if h = 31 then 0 else h + 1)"
  for h :: nat
  by (simp add: wrap_sum)

lemmas wrap = wrap_distance wrap_sum wrap_succ

lemma ring_full_iff:
  assumes "h < 32" "t < 32"
  shows "(t + 1) mod 32 = h \<longleftrightarrow> \<not> (t + 32 - h) mod 32 < (31 :: nat)"
  unfolding wrap_distance [OF assms] wrap_succ [OF assms(2)] using assms by (simp split: if_splits) linarith

lemma ring_next_length:
  assumes "h < 32" "t < 32" "(t + 1) mod 32 \<noteq> (h :: nat)"
  shows "((t + 1) mod 32 + 32 - h) mod 32 = (t + 32 - h) mod 32 + 1"
proof -
  have "(t + 1) mod 32 < 32" by simp
  then show ?thesis
    unfolding wrap_distance [OF assms(1) \<open>(t + 1) mod 32 < 32\<close>] wrap_distance [OF assms(1,2)]
    using assms(1,3) unfolding wrap_succ [OF assms(2)] using assms(2) by (auto split: if_splits)
qed

lemma ring_tail_slot:
  assumes "h < 32" "t < (32 :: nat)"
  shows "(h + (t + 32 - h) mod 32) mod 32 = t"
  using assms by (simp add: mod_add_right_eq)

lemma ring_other_slot:
  assumes "h < 32" "t < (32 :: nat)" "i < (t + 32 - h) mod 32"
  shows "(h + i) mod 32 \<noteq> t"
proof -
  have "i < 32" using assms(3) mod_less_divisor [of 32 "t + 32 - h"] by linarith
  then show ?thesis
    using assms(3) unfolding wrap_distance [OF assms(1,2)] wrap_sum [OF assms(1) \<open>i < 32\<close>]
    using assms(1,2) by (auto split: if_splits)
qed

lemma ring_step_length:
  assumes "h < 32" "t < 32" "(t + 32 - h) mod 32 = Suc n"
  shows "(t + 32 - (h + 1) mod 32) mod 32 = n"
proof -
  have "(h + 1) mod 32 < 32" by simp
  then show ?thesis
    using assms(3) unfolding wrap_distance [OF \<open>(h + 1) mod 32 < 32\<close> assms(2)] wrap_distance [OF assms(1,2)]
    unfolding wrap_succ [OF assms(1)] using assms(1,2) by (auto split: if_splits)
qed

lemma ring_push_law:
  assumes "ring_inv r"
  shows "\<exists>r'. ring_push ev r = Inr r' \<and> ring_inv r'
    \<and> ring_contents r' = (if length (ring_contents r) < 31 then ring_contents r @ [ev] else ring_contents r)"
proof -
  let ?h = "unat (ring_head r)" and ?t = "unat (ring_tail r)"
  have h: "?h < 32" and t: "?t < 32" and l: "length (ring_buf r) = 32"
    using assms by (simp_all add: ring_inv_def)
  have nx: "(ring_tail r + 1) mod KEY_BUF_SIZE \<noteq> ring_head r \<longleftrightarrow> ring_length r < 31"
    using ring_full_iff [OF h t] slot_succ(2) [OF t] by (simp add: ring_length_def word_unat_eq_iff)
  show ?thesis
  proof (cases "ring_length r < 31")
    case True
    let ?r = "r\<lparr>ring_buf := (ring_buf r)[?t := ev], ring_tail := (ring_tail r + 1) mod KEY_BUF_SIZE\<rparr>"
    have "(?t + 1) mod 32 \<noteq> ?h" using True ring_full_iff [OF h t] by (simp add: ring_length_def)
    then have len: "ring_length ?r = Suc (ring_length r)"
      using ring_next_length [OF h t] slot_succ(2) [OF t] by (simp add: ring_length_def)
    have old: "(ring_buf r)[?t := ev] ! ((?h + i) mod 32) = ring_buf r ! ((?h + i) mod 32)" if "i < ring_length r" for i
      using ring_other_slot [OF h t] that by (metis nth_list_update_neq ring_length_def)
    have new: "(ring_buf r)[?t := ev] ! ((?h + ring_length r) mod 32) = ev"
      unfolding ring_length_def ring_tail_slot [OF h t] using t l by simp
    have "ring_contents ?r = map (\<lambda>i. (ring_buf r)[?t := ev] ! ((?h + i) mod 32)) [0..<Suc (ring_length r)]"
      by (simp only: ring_contents_def len) simp
    also have "\<dots> = ring_contents r @ [ev]"
      by (simp add: ring_contents_def new old cong: map_cong)
    finally have "ring_contents ?r = ring_contents r @ [ev]" .
    moreover have "ring_push ev r = Inr ?r" using True nx t l slot_succ(1) [OF t] by (simp add: ring_push_def)
    moreover have "ring_inv ?r" using h l slot_succ(2) [OF t] by (simp add: ring_inv_def)
    ultimately show ?thesis using True by simp
  next
    case False
    then have "ring_push ev r = Inr r" using nx slot_succ(1) [OF t] by (simp add: ring_push_def)
    then show ?thesis using assms False by simp
  qed
qed

lemma ring_empty_iff:
  assumes "ring_inv r"
  shows "ring_head r = ring_tail r \<longleftrightarrow> ring_length r = 0"
proof -
  have "unat (ring_head r) < 32" and "unat (ring_tail r) < 32" using assms by (simp_all add: ring_inv_def)
  from wrap_distance [OF this] this show ?thesis by (auto simp: ring_length_def word_unat_eq_iff)
qed

lemma ring_pop_law:
  assumes "ring_inv r" and ne: "ring_contents r = ev # evs"
  shows "\<exists>r'. ring_pop r = Inr (Some ev, r') \<and> ring_inv r' \<and> ring_contents r' = evs"
proof -
  let ?h = "unat (ring_head r)" and ?t = "unat (ring_tail r)"
  let ?r = "r\<lparr>ring_head := (ring_head r + 1) mod KEY_BUF_SIZE\<rparr>"
  have h: "?h < 32" and t: "?t < 32" and l: "length (ring_buf r) = 32"
    using assms by (simp_all add: ring_inv_def)
  obtain n where n: "ring_length r = Suc n"
    using ne by (metis length_Cons length_ring_contents)
  have len: "ring_length ?r = n"
    using n slot_succ(2) [OF h] ring_step_length [OF h t] by (simp add: ring_length_def)
  have slot: "(?h + Suc i) mod 32 = ((?h + 1) mod 32 + i) mod 32" for i
    by (simp add: mod_add_left_eq)
  have "ring_contents r = ring_buf r ! ?h # ring_contents ?r"
    using h slot_succ(2) [OF h] slot
    by (simp add: ring_contents_def len n upt_conv_Cons map_Suc_upt [symmetric] comp_def del: upt_Suc)
  moreover have "ring_pop r = Inr (Some (ring_buf r ! ?h), ?r)"
    using ring_empty_iff [OF assms(1)] n h l slot_succ(1) [OF h] by (simp add: ring_pop_def)
  moreover have "ring_inv ?r" using t l slot_succ(2) [OF h] by (simp add: ring_inv_def)
  ultimately show ?thesis using ne by auto
qed

interpretation ring: bounded_queue 31 ring_inv ring_contents ring_push ring_pop
proof
  fix r :: KeyRing and ev :: KeyEvent and evs :: "KeyEvent list"
  assume r: "ring_inv r"
  show "\<exists>r'. ring_push ev r = Inr r' \<and> ring_inv r'
    \<and> ring_contents r' = (if length (ring_contents r) < 31 then ring_contents r @ [ev] else ring_contents r)"
    using r by (rule ring_push_law)
  show "ring_contents r = [] \<Longrightarrow> ring_pop r = Inr (None, r)"
    using ring_empty_iff [OF r] by (metis length_ring_contents list.size(3) ring_pop_def)
  show "ring_contents r = ev # evs \<Longrightarrow> \<exists>r'. ring_pop r = Inr (Some ev, r') \<and> ring_inv r' \<and> ring_contents r' = evs"
    using r by (rule ring_pop_law)
qed

section \<open>From the interrupt to the engine\<close>

datatype doom_op = Scancode u8 | GetKey

text \<open>Interrupts and calls of the engine, in any order: the values \<open>DG_GetKey\<close> returns.\<close>

fun doom_run :: "doom_op list \<Rightarrow> doom_input \<Rightarrow> ((u32 \<times> (u32 \<times> u8) option) list \<times> doom_input) res" where
  "doom_run [] s = Inr ([], s)"
| "doom_run (Scancode sc # ops) s = rbind (feed_scancode sc s) (doom_run ops)"
| "doom_run (GetKey # ops) s =
     rbind (DG_GetKey s) (\<lambda>(r, k, s). rbind (doom_run ops s) (\<lambda>(ks, s). Inr ((r, k) # ks, s)))"

text \<open>
  The reference: a prefix byte \<open>0xE0\<close> selects the extended table for the next byte, a byte without a
  key is skipped, and bit 7 tells a release.
\<close>

fun key_events :: "bool \<Rightarrow> doom_op list \<Rightarrow> KeyEvent queue_op list" where
  "key_events ext [] = []"
| "key_events ext (GetKey # ops) = Pop # key_events ext ops"
| "key_events ext (Scancode sc # ops) =
     (if sc = 0xE0 then key_events True ops
      else if scancode_to_doom (sc AND 0x7F) ext = 0 then key_events False ops
      else Push \<lparr>pressed = (if sc < 0x80 then 1 else 0), key = scancode_to_doom (sc AND 0x7F) ext\<rparr> # key_events False ops)"

definition answer :: "KeyEvent option \<Rightarrow> u32 \<times> (u32 \<times> u8) option" where
  "answer e = (case e of None \<Rightarrow> (0, None) | Some e \<Rightarrow> (1, Some (ucast (pressed e), key e)))"

lemma bit7: "(sc AND 0x80 = 0) = (sc < (0x80 :: u8))"
proof -
  have "(sc AND 0x80 = 0) = (\<not> bit sc 7)"
    using and_exp_eq_0_iff_not_bit [of sc 7] by simp
  also have "\<dots> = (unat sc < 128)"
  proof
    assume "unat sc < 128"
    then show "\<not> bit sc 7" using bit_unat_ge [of sc 7] by auto
  next
    assume "\<not> bit sc 7"
    then have "\<not> bit (unat sc) 7" by (simp add: bit_unsigned_iff)
    then have "even (unat sc div 128)" by (simp add: bit_iff_odd)
    moreover have "unat sc < 256" using unat_bound [of sc] by simp
    ultimately show "unat sc < 128" using div_nat_eqI [of 128 1 "unat sc"] by fastforce
  qed
  finally show ?thesis by (simp add: word_less_nat_alt)
qed

lemma feed_scancode_simps:
  "feed_scancode 0xE0 s = Inr (s\<lparr>EXTENDED := True\<rparr>)"
  "sc \<noteq> 0xE0 \<Longrightarrow> scancode_to_doom (sc AND 0x7F) (EXTENDED s) = 0 \<Longrightarrow> feed_scancode sc s = Inr (s\<lparr>EXTENDED := False\<rparr>)"
  "sc \<noteq> 0xE0 \<Longrightarrow> scancode_to_doom (sc AND 0x7F) (EXTENDED s) \<noteq> 0 \<Longrightarrow>
     feed_scancode sc s =
       rbind (ring_push \<lparr>pressed = (if sc < 0x80 then 1 else 0), key = scancode_to_doom (sc AND 0x7F) (EXTENDED s)\<rparr> (KEY_RING s))
         (\<lambda>r. Inr (s\<lparr>EXTENDED := False, KEY_RING := r\<rparr>))"
  by (simp_all add: feed_scancode_def Let_def bit7)

lemma DG_GetKey_answer:
  "ring_pop (KEY_RING s) = Inr (e, r) \<Longrightarrow> DG_GetKey s = Inr (fst (answer e), snd (answer e), s\<lparr>KEY_RING := r\<rparr>)"
  by (cases e) (simp_all add: DG_GetKey_def answer_def)

lemma doom_run_queue:
  "queue_run ring_push ring_pop (key_events (EXTENDED s) ops) (KEY_RING s) = Inr (es, r) \<Longrightarrow>
     \<exists>s'. doom_run ops s = Inr (map answer es, s') \<and> KEY_RING s' = r"
proof (induction ops arbitrary: s es)
  case (Cons op ops)
  show ?case
  proof (cases op)
    case (Scancode sc)
    consider "sc = 0xE0" | "sc \<noteq> 0xE0" "scancode_to_doom (sc AND 0x7F) (EXTENDED s) = 0"
      | "sc \<noteq> 0xE0" "scancode_to_doom (sc AND 0x7F) (EXTENDED s) \<noteq> 0" by blast
    then show ?thesis
    proof cases
      case 1
      with Cons Scancode show ?thesis by (simp add: feed_scancode_simps(1))
    next
      case 2
      with Cons Scancode show ?thesis by (simp add: feed_scancode_simps(2))
    next
      case 3
      with Cons.prems Cons.IH Scancode show ?thesis
        by (auto simp: feed_scancode_simps(3) rbind_eq_Inr)
    qed
  next
    case GetKey
    with Cons.prems obtain e q es' where "ring_pop (KEY_RING s) = Inr (e, q)"
      "queue_run ring_push ring_pop (key_events (EXTENDED s) ops) q = Inr (es', r)" "es = e # es'"
      by (auto simp: rbind_eq_Inr)
    with Cons.IH [of "s\<lparr>KEY_RING := q\<rparr>"] GetKey show ?thesis
      by (auto simp: DG_GetKey_answer)
  qed
qed simp

lemma ring_new_empty: "ring_inv ring_new" "ring_contents ring_new = []"
  by (simp_all add: ring_inv_def ring_new_def KEY_BUF_SIZE_def ring_contents_def ring_length_def)

text \<open>
  C15. Keyboard input reaches Doom complete and in order. For every sequence of scancodes from the
  keyboard interrupt and calls of \<open>DG_GetKey\<close>, in any interleaving from boot, no step panics and the
  answers of \<open>DG_GetKey\<close> are those of a first-in first-out queue of the decoded key events that holds
  up to 31 of them and drops what arrives while it is full: no event is reordered, duplicated or
  overwritten in the ring buffer.
\<close>

theorem doom_keys_in_order:
  "\<exists>s'. doom_run ops \<lparr>EXTENDED = False, KEY_RING = ring_new\<rparr>
     = Inr (map answer (fst (list_run 31 (key_events False ops) [])), s')"
proof -
  obtain r where "queue_run ring_push ring_pop (key_events False ops) ring_new
      = Inr (fst (list_run 31 (key_events False ops) []), r)"
    using ring.run_refines [OF ring_new_empty(1), of "key_events False ops"] by (auto simp: ring_new_empty(2))
  then show ?thesis
    using doom_run_queue [of "\<lparr>EXTENDED = False, KEY_RING = ring_new\<rparr>" ops] by auto
qed

end
