(* ===== verification/Keyboard_Irq.thy ===== *)
theory Keyboard_Irq
  imports Interrupts Async_Tasks Doom_Keys
begin

text \<open>
  The keyboard interrupt (\<open>src/interrupts.rs\<close>): its stub, and the inner handler that feeds the scancode to
  the shell's queue and to Doom's key ring and then lets the scheduler preempt, on the states of the
  components it calls.
\<close>

type_synonym ('f, 'q, 's, 'w) machine = "kernel \<times> ('f, 'q, 's, 'w) async \<times> doom_input"

definition keyboard_interrupt_inner ::
  "('q, 's, 'w) crates \<Rightarrow> u8 \<Rightarrow> u64 \<Rightarrow> ('f, 'q, 's, 'w) machine \<Rightarrow> (bool \<times> ('f, 'q, 's, 'w) machine) res" where
  "keyboard_interrupt_inner cr scancode frame = (\<lambda>(k, a, d).
     let a = add_scancode cr scancode a in
     if is_panic (apc a) then Inl (Expect ''task_queue full'')
     else
       rbind (feed_scancode scancode d) (\<lambda>d.
       rbind (scheduler_tick_prepare (k_sched k) (tick_count k)) (\<lambda>(switch, s').
       rbind (finish_irq switch frame KEYBOARD_IRQ (k\<lparr>k_sched := s'\<rparr>)) (\<lambda>(returns, k).
         Inr (returns, k, a, d)))))"

definition keyboard_interrupt_entry ::
  "('q, 's, 'w) crates \<Rightarrow> u8 \<Rightarrow> u64 \<Rightarrow> u64 \<Rightarrow> u64 \<Rightarrow> (reg \<Rightarrow> u64) \<Rightarrow> ('f, 'q, 's, 'w) machine \<Rightarrow> ('f, 'q, 's, 'w) machine res" where
  "keyboard_interrupt_entry cr scancode cs ss h g = (\<lambda>(k, a, d).
     let c1 = exec irq_entry_save (deliver_irq cs ss h (k_cpu k)) in
     rbind (keyboard_interrupt_inner cr scancode (regs c1 RDI) (k\<lparr>k_cpu := c1\<rparr>, a, d)) (\<lambda>(returns, k, a, d).
       Inr (if returns then k\<lparr>k_cpu := exec irq_entry_restore (clobber g (k_cpu k))\<rparr> else k, a, d)))"

lemma feed_scancode_ok:
  assumes "ring_inv (KEY_RING d)"
  shows "\<exists>d'. feed_scancode sc d = Inr d' \<and> ring_inv (KEY_RING d')"
proof -
  have push: "\<exists>d'. rbind (ring_push e (KEY_RING d)) (\<lambda>r. Inr (d\<lparr>EXTENDED := False, KEY_RING := r\<rparr>)) = Inr d' \<and> ring_inv (KEY_RING d')" for e
    using ring_push_law [OF assms, of e] by (auto simp: rbind_eq_Inr)
  consider "sc = 0xE0" | "sc \<noteq> 0xE0" "scancode_to_doom (sc AND 0x7F) (EXTENDED d) = 0"
    | "sc \<noteq> 0xE0" "scancode_to_doom (sc AND 0x7F) (EXTENDED d) \<noteq> 0" by blast
  then show ?thesis
    by cases (use assms push in \<open>simp_all add: feed_scancode_simps\<close>)
qed

text \<open>
  C22. A key press serves everyone. Unless the wake-up panics, the keyboard interrupt leaves the shell's queue as
  \<open>add_scancode\<close> does and Doom's ring as \<open>feed_scancode\<close> does, without a panic of its own, acknowledges the
  controller once and does not advance the clock. If the scheduler has nothing to switch to, the
  interrupted code continues with every register, its flags and its instruction pointer; if it
  switches, the next thread continues from its saved context, and the interrupted one will continue
  where it was whenever it is switched to.
\<close>

theorem keyboard_irq_correct:
  fixes k :: kernel
  defines "c \<equiv> k_cpu k"
  assumes np: "\<not> is_panic (apc (add_scancode cr sc a))" and ring: "ring_inv (KEY_RING d)"
    and tick: "scheduler_tick_prepare (k_sched k) (tick_count k) = Inr (sw, s')"
    and sw: "sw = None \<or> sw = Some (from_ctx, from_ctx)
      \<or> sw = Some (from_ctx, to_ctx) \<and> from_ctx \<noteq> to_ctx \<and> preempt_layout c from_ctx to_ctx \<and> bit (rflags c) IF_BIT"
  shows "\<exists>k' d'. keyboard_interrupt_entry cr sc cs ss h g (k, a, d) = Inr (k', add_scancode cr sc a, d')
    \<and> feed_scancode sc d = Inr d' \<and> ring_inv (KEY_RING d')
    \<and> eois k' = eois k @ [KEYBOARD_IRQ] \<and> tick_count k' = tick_count k \<and> k_sched k' = s'
    \<and> (if sw = None \<or> sw = Some (from_ctx, from_ctx)
       then regs (k_cpu k') = regs c \<and> rip (k_cpu k') = rip c \<and> rflags (k_cpu k') = rflags c
       else regs (k_cpu k') = restored (read_ctx (mem c) to_ctx)
         \<and> rip (k_cpu k') = read64 (mem c) (ctx_rsp (read_ctx (mem c) to_ctx)) \<and> resumes c from_ctx (k_cpu k'))"
proof -
  let ?c1 = "exec irq_entry_save (deliver_irq cs ss h c)"
  let ?k = "k\<lparr>k_cpu := ?c1, k_sched := s'\<rparr>"
  obtain d' where d': "feed_scancode sc d = Inr d'" "ring_inv (KEY_RING d')" using feed_scancode_ok [OF ring] by blast
  have entry: "keyboard_interrupt_entry cr sc cs ss h g (k, a, d) =
      rbind (finish_irq sw (regs ?c1 RDI) KEYBOARD_IRQ ?k) (\<lambda>(returns, k).
        Inr (if returns then k\<lparr>k_cpu := exec irq_entry_restore (clobber g (k_cpu k))\<rparr> else k, add_scancode cr sc a, d'))"
    using np by (simp add: keyboard_interrupt_entry_def keyboard_interrupt_inner_def Let_def d' tick rbind_def flip: c_def split: sum.split)
  show ?thesis
  proof (cases "sw = None \<or> sw = Some (from_ctx, from_ctx)")
    case True
    then have "finish_irq sw (regs ?c1 RDI) KEYBOARD_IRQ ?k = Inr (True, ?k\<lparr>eois := eois k @ [KEYBOARD_IRQ]\<rparr>)"
      by (auto simp: finish_irq_def notify_end_of_interrupt_def)
    with True d' show ?thesis by (simp add: entry stub_undone)
  next
    case False
    with sw have f: "sw = Some (from_ctx, to_ctx)" "from_ctx \<noteq> to_ctx" "preempt_layout c from_ctx to_ctx" "bit (rflags c) IF_BIT"
      by blast+
    obtain c3 where fin: "\<And>k irq. k_cpu k = ?c1 \<Longrightarrow> finish_irq (Some (from_ctx, to_ctx)) (regs ?c1 RDI) irq k
          = Inr (False, k\<lparr>k_cpu := c3, eois := eois k @ [irq]\<rparr>)"
      and c3: "regs c3 = restored (read_ctx (mem c) to_ctx)" "rip c3 = read64 (mem c) (ctx_rsp (read_ctx (mem c) to_ctx))"
        "bit (rflags c3) IF_BIT" "resumes c from_ctx c3"
      by (rule finish_preempts [OF f(4,3,2), of cs ss h]) (rule that)
    from fin [of ?k KEYBOARD_IRQ] have "finish_irq sw (regs ?c1 RDI) KEYBOARD_IRQ ?k = Inr (False, ?k\<lparr>k_cpu := c3, eois := eois k @ [KEYBOARD_IRQ]\<rparr>)"
      by (simp add: f(1))
    with f(1,2) d' c3 show ?thesis by (simp add: entry)
  qed
qed

theorem keyboard_irq_correct_witness:
  "\<exists>k' d'. keyboard_interrupt_entry list_crates 0x1E 8 16 0x300000 (\<lambda>_. 77)
       (demo_kernel\<lparr>tick_count := 2\<rparr>, booted, \<lparr>EXTENDED = False, KEY_RING = ring_new\<rparr>)
     = Inr (k', add_scancode list_crates 0x1E booted, d') \<and> rip (k_cpu k') = 0x401000
     \<and> KEY_RING d' \<noteq> ring_new \<and> eois k' = [33]"
proof -
  let ?k = "demo_kernel\<lparr>tick_count := 2\<rparr>" and ?d = "\<lparr>EXTENDED = False, KEY_RING = ring_new\<rparr>"
  have t: "scheduler_tick_prepare (k_sched ?k) (tick_count ?k) =
      Inr (Some (0x1000, 0x2000), \<lparr>eevdf = demo_eevdf', bootstrap_ptr = 0x500\<rparr>)"
    by (simp add: demo_kernel_def scheduler_tick_prepare_def demo_tick)
  have IF: "bit (rflags (k_cpu ?k)) IF_BIT"
    by (simp add: demo_kernel_def demo_cpu_def IF_BIT_def bit_numeral_rec numeral_eq_Suc)
  have lay: "preempt_layout (k_cpu ?k) 0x1000 0x2000" by (simp add: demo_kernel_def demo_layout)
  have np: "\<not> is_panic (apc (add_scancode list_crates 0x1E booted))" by (simp add: async_eval)
  have sp: "ctx_rsp (read_ctx (mem demo_cpu) 0x2000) = 0x9000" "read64 (mem demo_cpu) 0x9000 = 0x401000"
    using demo_target by (simp_all add: demo_cpu_def demo_mem_def)
  have feed: "feed_scancode 0x1E ?d = Inr d' \<Longrightarrow> KEY_RING d' \<noteq> ring_new" for d'
    by (auto simp: feed_scancode_def scancode_to_doom_def ring_push_def ring_new_def KEY_BUF_SIZE_def add_ovf_def Let_def)
  have inv: "ring_inv (KEY_RING ?d)" by (simp add: ring_new_empty)
  from keyboard_irq_correct [OF np inv t, of "0x1000" "0x2000" 8 16 "0x300000" "\<lambda>_. 77"] IF lay
  show ?thesis using feed sp by (auto simp: demo_kernel_def KEYBOARD_IRQ_def PIC_1_OFFSET_def)
qed

end
