(* ===== verification/Sync.thy ===== *)
theory Sync
  imports Global_Scheduler
begin

text \<open>
  \<open>src/sync.rs\<close>: \<open>IrqMutex\<close>, a spin lock that keeps interrupts disabled while it is held, and
  \<open>KMutex\<close>, a lock whose contenders sleep in the scheduler. The model is a step relation on one
  processor: a thread runs its code one atomic action at a time, and whenever interrupts are enabled a timer or keyboard
  interrupt may come in and switch threads. The scheduler is the one of theory
  \<open>Global_Scheduler\<close>; one \<open>KMutex\<close> is shared by all threads, and the code outside \<open>lock\<close> and
  the guard's \<open>drop\<close> runs with interrupts enabled.
\<close>

section \<open>Program points\<close>

text \<open>Inside \<open>IrqMutex::lock\<close>: before reading the flag, before disabling, before taking the spin lock.\<close>

datatype irq_lock_pc = ReadFlag | DisableIrq bool | SpinLock bool

text \<open>Inside the drop of an \<open>IrqMutexGuard\<close>: before releasing the spin lock, before restoring the flag.\<close>

datatype irq_drop_pc = Unlock bool | Restore bool

text \<open>
  The points of a thread that uses the mutex. Points inside \<open>KMutex::lock\<close> start with
  \<open>L\<close>, points inside the guard's \<open>drop\<close> with \<open>D\<close>.
\<close>

datatype pc =
    Outside
  | LFast \<comment> \<open>before the uncontended acquire\<close>
  | LSched irq_lock_pc \<comment> \<open>in \<open>SCHEDULER.lock()\<close>\<close>
  | LRecheck bool \<comment> \<open>before the second acquire, holding the scheduler; the flag is \<open>was_enabled\<close>\<close>
  | LReturn irq_drop_pc \<comment> \<open>acquired; the scheduler guard is being dropped\<close>
  | LCurrent bool \<comment> \<open>before \<open>current_thread_id\<close>\<close>
  | LNone irq_drop_pc \<comment> \<open>not in a thread; the scheduler guard is being dropped\<close>
  | LWaiters ThreadId \<comment> \<open>before taking the spin lock of the queue\<close>
  | LPush ThreadId \<comment> \<open>before \<open>push_back\<close>\<close>
  | LWaitersDone \<comment> \<open>before releasing the spin lock of the queue\<close>
  | LBlock \<comment> \<open>before \<open>block_current_and_prepare_switch\<close>\<close>
  | LRelease "switch option" \<comment> \<open>before \<open>release_without_irq_restore\<close>\<close>
  | LSwitch "switch option" \<comment> \<open>before the match on the prepared switch\<close>
  | LDeadlock \<comment> \<open>after the deadlock message, halting for ever\<close>
  | LHint \<comment> \<open>at \<open>spin_loop\<close>, where a switched-out thread resumes\<close>
  | Critical \<comment> \<open>the caller holds the guard\<close>
  | DStore \<comment> \<open>before \<open>locked.store(false)\<close>\<close>
  | DWaiters \<comment> \<open>before taking the spin lock of the queue\<close>
  | DPop \<comment> \<open>before \<open>pop_front\<close>\<close>
  | DSched ThreadId irq_lock_pc \<comment> \<open>in \<open>SCHEDULER.lock()\<close>, with the popped waiter\<close>
  | DUnblock ThreadId bool \<comment> \<open>before \<open>unblock_thread\<close>\<close>
  | DUnlock irq_drop_pc \<comment> \<open>the scheduler guard is being dropped\<close>
  | DWaitersDone \<comment> \<open>before the queue guard, a temporary of the \<open>if let\<close>, is dropped\<close>

datatype status = Live | HandlerSpins | Panicked panic

record system =
  sched :: Scheduler
  sched_lock :: bool \<comment> \<open>the spin lock inside \<open>SCHEDULER\<close>\<close>
  locked :: bool
  waiters :: "ThreadId list"
  waiters_lock :: bool
  irq_on :: bool
  ticks :: u64
  running :: "nat option" \<comment> \<open>the thread on the processor; \<open>None\<close> is the bootstrap code\<close>
  saved :: "u64 \<Rightarrow> nat option" \<comment> \<open>whose continuation the context at an address holds\<close>
  pcs :: "nat \<Rightarrow> pc"
  status :: status

section \<open>IrqMutex\<close>

fun irq_lock_step :: "irq_lock_pc \<Rightarrow> system \<Rightarrow> (irq_lock_pc + bool) \<times> system" where
  "irq_lock_step ReadFlag s = (Inl (DisableIrq (irq_on s)), s)"
| "irq_lock_step (DisableIrq was_enabled) s = (Inl (SpinLock was_enabled), s\<lparr>irq_on := False\<rparr>)"
| "irq_lock_step (SpinLock was_enabled) s =
     (if sched_lock s then (Inl (SpinLock was_enabled), s) else (Inr was_enabled, s\<lparr>sched_lock := True\<rparr>))"

fun irq_drop_step :: "irq_drop_pc \<Rightarrow> system \<Rightarrow> irq_drop_pc option \<times> system" where
  "irq_drop_step (Unlock was_enabled) s = (Some (Restore was_enabled), s\<lparr>sched_lock := False\<rparr>)"
| "irq_drop_step (Restore was_enabled) s = (None, if was_enabled then s\<lparr>irq_on := True\<rparr> else s)"

definition release_without_irq_restore :: "system \<Rightarrow> system" where
  "release_without_irq_restore s = s\<lparr>sched_lock := False\<rparr>"

section \<open>KMutex\<close>

definition goto :: "nat \<Rightarrow> pc \<Rightarrow> system \<Rightarrow> system" where
  "goto i p s = s\<lparr>pcs := (pcs s)(i := p)\<rparr>"

text \<open>The effect of \<open>context_switch\<close> on who runs: it ends with interrupts enabled.\<close>

definition do_switch :: "switch \<Rightarrow> system \<Rightarrow> system" where
  "do_switch sw s =
     (let sv = (saved s)(fst sw := running s)
      in s\<lparr>saved := sv, running := sv (snd sw), irq_on := True\<rparr>)"

fun lock_step :: "nat \<Rightarrow> pc \<Rightarrow> system \<Rightarrow> system res" where
  "lock_step i LFast s =
     Inr (if \<not> locked s then goto i Critical (s\<lparr>locked := True\<rparr>) else goto i (LSched ReadFlag) s)"
| "lock_step i (LSched p) s =
     (case irq_lock_step p s of
        (Inl p', s') \<Rightarrow> Inr (goto i (LSched p') s')
      | (Inr was_enabled, s') \<Rightarrow> Inr (goto i (LRecheck was_enabled) s'))"
| "lock_step i (LRecheck w) s =
     Inr (if \<not> locked s then goto i (LReturn (Unlock w)) (s\<lparr>locked := True\<rparr>) else goto i (LCurrent w) s)"
| "lock_step i (LReturn p) s =
     (case irq_drop_step p s of
        (Some p', s') \<Rightarrow> Inr (goto i (LReturn p') s')
      | (None, s') \<Rightarrow> Inr (goto i Critical s'))"
| "lock_step i (LCurrent w) s =
     rbind (scheduler_current_thread_id (sched s)) (\<lambda>cur.
       Inr (case cur of Some tid \<Rightarrow> goto i (LWaiters tid) s | None \<Rightarrow> goto i (LNone (Unlock w)) s))"
| "lock_step i (LNone p) s =
     (case irq_drop_step p s of
        (Some p', s') \<Rightarrow> Inr (goto i (LNone p') s')
      | (None, s') \<Rightarrow> Inr (goto i LHint s'))"
| "lock_step i (LWaiters tid) s =
     Inr (if waiters_lock s then s else goto i (LPush tid) (s\<lparr>waiters_lock := True\<rparr>))"
| "lock_step i (LPush tid) s = Inr (goto i LWaitersDone (s\<lparr>waiters := waiters s @ [tid]\<rparr>))"
| "lock_step i LWaitersDone s = Inr (goto i LBlock (s\<lparr>waiters_lock := False\<rparr>))"
| "lock_step i LBlock s =
     rbind (scheduler_block_current (sched s) (ticks s)) (\<lambda>(sw, sch). Inr (goto i (LRelease sw) (s\<lparr>sched := sch\<rparr>)))"
| "lock_step i (LRelease sw) s = Inr (goto i (LSwitch sw) (release_without_irq_restore s))"
| "lock_step i (LSwitch sw) s =
     Inr (case sw of Some ft \<Rightarrow> do_switch ft (goto i LHint s) | None \<Rightarrow> goto i LDeadlock s)"
| "lock_step i LDeadlock s = Inr (s\<lparr>irq_on := True\<rparr>)"
| "lock_step i LHint s = Inr (goto i LFast s)"
| "lock_step i p s = Inr s"

fun drop_step :: "nat \<Rightarrow> pc \<Rightarrow> system \<Rightarrow> system res" where
  "drop_step i DStore s = Inr (goto i DWaiters (s\<lparr>locked := False\<rparr>))"
| "drop_step i DWaiters s = Inr (if waiters_lock s then s else goto i DPop (s\<lparr>waiters_lock := True\<rparr>))"
| "drop_step i DPop s =
     Inr (case waiters s of [] \<Rightarrow> goto i DWaitersDone s
          | tid # ws \<Rightarrow> goto i (DSched tid ReadFlag) (s\<lparr>waiters := ws\<rparr>))"
| "drop_step i (DSched tid p) s =
     (case irq_lock_step p s of
        (Inl p', s') \<Rightarrow> Inr (goto i (DSched tid p') s')
      | (Inr was_enabled, s') \<Rightarrow> Inr (goto i (DUnblock tid was_enabled) s'))"
| "drop_step i (DUnblock tid w) s =
     rbind (scheduler_unblock_thread (sched s) tid) (\<lambda>sch. Inr (goto i (DUnlock (Unlock w)) (s\<lparr>sched := sch\<rparr>)))"
| "drop_step i (DUnlock p) s =
     (case irq_drop_step p s of
        (Some p', s') \<Rightarrow> Inr (goto i (DUnlock p') s')
      | (None, s') \<Rightarrow> Inr (goto i DWaitersDone s'))"
| "drop_step i DWaitersDone s = Inr (goto i Outside (s\<lparr>waiters_lock := False\<rparr>))"
| "drop_step i p s = Inr s"

definition in_drop :: "pc \<Rightarrow> bool" where
  "in_drop p = (case p of DStore \<Rightarrow> True | DWaiters \<Rightarrow> True | DPop \<Rightarrow> True | DSched _ _ \<Rightarrow> True
     | DUnblock _ _ \<Rightarrow> True | DUnlock _ \<Rightarrow> True | DWaitersDone \<Rightarrow> True | _ \<Rightarrow> False)"

text \<open>The next action of thread \<open>i\<close>. Outside it may call \<open>lock\<close>; holding the guard it may drop it.\<close>

definition thread_step :: "nat \<Rightarrow> system \<Rightarrow> system res" where
  "thread_step i s =
     (case pcs s i of
        Outside \<Rightarrow> Inr (goto i LFast s)
      | Critical \<Rightarrow> Inr (goto i DStore s)
      | p \<Rightarrow> if in_drop p then drop_step i p s else lock_step i p s)"

text \<open>
  An interrupt: the handler locks \<open>SCHEDULER\<close>, which it would never get if the interrupted thread held it,
  prepares a switch and, unless it is to the same context, performs it.
\<close>

definition interrupt :: "u64 \<Rightarrow> system \<Rightarrow> system" where
  "interrupt now s =
     (if sched_lock s then s\<lparr>status := HandlerSpins\<rparr>
      else case scheduler_tick_prepare (sched s) now of
             Inl e \<Rightarrow> s\<lparr>status := Panicked e\<rparr>
           | Inr (None, sch) \<Rightarrow> s\<lparr>sched := sch, ticks := now\<rparr>
           | Inr (Some (frm, tgt), sch) \<Rightarrow>
               let s' = s\<lparr>sched := sch, ticks := now\<rparr>
               in if frm = tgt then s' else do_switch (frm, tgt) s')"

inductive sys_step :: "system \<Rightarrow> system \<Rightarrow> bool" where
  thread: "status s = Live \<Longrightarrow> running s = Some i \<Longrightarrow> thread_step i s = Inr s' \<Longrightarrow> sys_step s s'"
| thread_panic: "status s = Live \<Longrightarrow> running s = Some i \<Longrightarrow> thread_step i s = Inl e \<Longrightarrow>
    sys_step s (s\<lparr>status := Panicked e\<rparr>)"
| timer: "status s = Live \<Longrightarrow> irq_on s \<Longrightarrow> sys_step s (interrupt (ticks s + 1) s)"
| keyboard: "status s = Live \<Longrightarrow> irq_on s \<Longrightarrow> sys_step s (interrupt (ticks s) s)"

inductive reachable :: "system \<Rightarrow> system \<Rightarrow> bool" for s0 where
  start: "reachable s0 s0"
| step: "reachable s0 s \<Longrightarrow> sys_step s s' \<Longrightarrow> reachable s0 s'"

text \<open>
  The start: the threads have been spawned, the bootstrap code runs with interrupts enabled, nobody has touched the mutex,
  and the context of every thread holds that thread. Identifiers and context addresses are those of distinct threads.
\<close>

definition initial :: "system \<Rightarrow> bool" where
  "initial s \<longleftrightarrow>
     (let ts = ev_threads (eevdf (sched s)) in
        eevdf_inv (eevdf (sched s)) \<and> ev_current (eevdf (sched s)) = None
      \<and> list_all (\<lambda>m. \<not> blocked m) (metadata (eevdf (sched s)))
      \<and> distinct (map thread_id ts) \<and> distinct (bootstrap_ptr (sched s) # map context_ptr ts)
      \<and> \<not> sched_lock s \<and> \<not> locked s \<and> waiters s = [] \<and> \<not> waiters_lock s \<and> irq_on s \<and> running s = None
      \<and> (\<forall>i < length ts. saved s (context_ptr (ts ! i)) = Some i)
      \<and> pcs s = (\<lambda>_. Outside) \<and> status s = Live)"

section \<open>What a program point means\<close>

text \<open>Interrupts are disabled there.\<close>

fun irq_off_pc :: "pc \<Rightarrow> bool" where
  "irq_off_pc (LSched (SpinLock _)) = True"
| "irq_off_pc (LRecheck _) = True"
| "irq_off_pc (LReturn _) = True"
| "irq_off_pc (LCurrent _) = True"
| "irq_off_pc (LNone _) = True"
| "irq_off_pc (LWaiters _) = True"
| "irq_off_pc (LPush _) = True"
| "irq_off_pc LWaitersDone = True"
| "irq_off_pc LBlock = True"
| "irq_off_pc (LRelease _) = True"
| "irq_off_pc (LSwitch _) = True"
| "irq_off_pc (DSched _ (SpinLock _)) = True"
| "irq_off_pc (DUnblock _ _) = True"
| "irq_off_pc (DUnlock _) = True"
| "irq_off_pc _ = False"

text \<open>The thread holds the spin lock of the scheduler, of the queue, or the mutex itself.\<close>

fun holds_sched :: "pc \<Rightarrow> bool" where
  "holds_sched (LRecheck _) = True"
| "holds_sched (LReturn (Unlock _)) = True"
| "holds_sched (LCurrent _) = True"
| "holds_sched (LNone (Unlock _)) = True"
| "holds_sched (LWaiters _) = True"
| "holds_sched (LPush _) = True"
| "holds_sched LWaitersDone = True"
| "holds_sched LBlock = True"
| "holds_sched (LRelease _) = True"
| "holds_sched (DUnblock _ _) = True"
| "holds_sched (DUnlock (Unlock _)) = True"
| "holds_sched _ = False"

fun holds_queue :: "pc \<Rightarrow> bool" where
  "holds_queue (LPush _) = True"
| "holds_queue LWaitersDone = True"
| "holds_queue DPop = True"
| "holds_queue (DSched _ _) = True"
| "holds_queue (DUnblock _ _) = True"
| "holds_queue (DUnlock _) = True"
| "holds_queue DWaitersDone = True"
| "holds_queue _ = False"

fun holds_mutex :: "pc \<Rightarrow> bool" where
  "holds_mutex (LReturn _) = True"
| "holds_mutex Critical = True"
| "holds_mutex DStore = True"
| "holds_mutex _ = False"

text \<open>The saved interrupt flags are all set: locking starts with interrupts enabled.\<close>

fun flag_ok :: "pc \<Rightarrow> bool" where
  "flag_ok (LSched (DisableIrq w)) = w"
| "flag_ok (LSched (SpinLock w)) = w"
| "flag_ok (LRecheck w) = w"
| "flag_ok (LReturn (Unlock w)) = w"
| "flag_ok (LReturn (Restore w)) = w"
| "flag_ok (LCurrent w) = w"
| "flag_ok (LNone (Unlock w)) = w"
| "flag_ok (LNone (Restore w)) = w"
| "flag_ok (DSched _ (DisableIrq w)) = w"
| "flag_ok (DSched _ (SpinLock w)) = w"
| "flag_ok (DUnblock _ w) = w"
| "flag_ok (DUnlock (Unlock w)) = w"
| "flag_ok (DUnlock (Restore w)) = w"
| "flag_ok LDeadlock = False"
| "flag_ok _ = True"

text \<open>The second acquire has failed and the thread has not yet blocked itself.\<close>

fun contended :: "pc \<Rightarrow> bool" where
  "contended (LCurrent _) = True"
| "contended (LWaiters _) = True"
| "contended (LPush _) = True"
| "contended LWaitersDone = True"
| "contended LBlock = True"
| "contended _ = False"

fun after_block :: "pc \<Rightarrow> bool" where
  "after_block (LRelease _) = True"
| "after_block (LSwitch _) = True"
| "after_block _ = False"

fun enqueued :: "pc \<Rightarrow> bool" where
  "enqueued LWaitersDone = True"
| "enqueued LBlock = True"
| "enqueued _ = False"

text \<open>The waiter a thread has popped and is about to wake.\<close>

fun waking :: "pc \<Rightarrow> ThreadId option" where
  "waking (DSched tid _) = Some tid"
| "waking (DUnblock tid _) = Some tid"
| "waking _ = None"

text \<open>The thread will try the mutex, or look at the queue, or wake a waiter, without waiting for anyone.\<close>

fun active :: "pc \<Rightarrow> bool" where
  "active LFast = True"
| "active (LSched _) = True"
| "active (LRecheck _) = True"
| "active LHint = True"
| "active DWaiters = True"
| "active DPop = True"
| "active (DSched _ _) = True"
| "active (DUnblock _ _) = True"
| "active _ = False"

section \<open>Invariants\<close>

abbreviation thr :: "system \<Rightarrow> Thread list" where
  "thr s \<equiv> ev_threads (eevdf (sched s))"

abbreviation cur :: "system \<Rightarrow> nat option" where
  "cur s \<equiv> ev_current (eevdf (sched s))"

abbreviation asleep :: "system \<Rightarrow> nat \<Rightarrow> bool" where
  "asleep s i \<equiv> is_blocked (eevdf (sched s)) i"

abbreviation tid_of :: "system \<Rightarrow> nat \<Rightarrow> ThreadId" where
  "tid_of s i \<equiv> thread_id (thr s ! i)"

text \<open>A lock bit that is set exactly while one of its holders exists, and never two.\<close>

definition lock_held :: "bool \<Rightarrow> (nat \<Rightarrow> bool) \<Rightarrow> bool" where
  "lock_held b h \<longleftrightarrow> (b \<longleftrightarrow> (\<exists>i. h i)) \<and> (\<forall>i j. h i \<and> h j \<longrightarrow> i = j)"

text \<open>One thread keeps, takes or gives up the lock: old and new bit, whether it held and holds the lock.\<close>

definition lock_change :: "bool \<Rightarrow> bool \<Rightarrow> bool \<Rightarrow> bool \<Rightarrow> bool" where
  "lock_change b b' x x' \<longleftrightarrow> (b' = b \<and> x' = x) \<or> (\<not> b \<and> b' \<and> x') \<or> (x \<and> \<not> b' \<and> \<not> x')"

lemma lock_held_change:
  "lock_held b h \<Longrightarrow> lock_change b b' (h i) x' \<Longrightarrow> lock_held b' (h(i := x'))"
  by (auto simp: lock_held_def lock_change_def)

definition ctl_inv :: "system \<Rightarrow> bool" where
  "ctl_inv s \<longleftrightarrow>
     (\<forall>i. running s \<noteq> Some i \<longrightarrow> \<not> irq_off_pc (pcs s i))
   \<and> (irq_on s \<longleftrightarrow> (\<forall>i. running s = Some i \<longrightarrow> \<not> irq_off_pc (pcs s i)))
   \<and> (sched_lock s \<longleftrightarrow> (\<exists>i. running s = Some i \<and> holds_sched (pcs s i)))
   \<and> (\<forall>i. flag_ok (pcs s i))"

definition mutex_inv :: "system \<Rightarrow> bool" where
  "mutex_inv s \<longleftrightarrow> lock_held (locked s) (\<lambda>i. holds_mutex (pcs s i))
   \<and> lock_held (waiters_lock s) (\<lambda>i. holds_queue (pcs s i))
   \<and> (\<forall>i. contended (pcs s i) \<longrightarrow> locked s)"

definition handoff :: "system \<Rightarrow> nat \<Rightarrow> switch option \<Rightarrow> bool" where
  "handoff s i sw \<longleftrightarrow> (\<exists>j < length (thr s). sw = Some (context_ptr (thr s ! i), context_ptr (thr s ! j))
     \<and> cur s = Some j \<and> j \<noteq> i \<and> \<not> asleep s j)"

definition sched_inv :: "system \<Rightarrow> bool" where
  "sched_inv s \<longleftrightarrow> eevdf_inv (eevdf (sched s)) \<and> distinct (map thread_id (thr s))
   \<and> distinct (bootstrap_ptr (sched s) # map context_ptr (thr s))
   \<and> (\<forall>i < length (thr s). saved s (context_ptr (thr s ! i)) = Some i)
   \<and> (\<forall>i. length (thr s) \<le> i \<longrightarrow> pcs s i = Outside)
   \<and> (running s = None \<longrightarrow> cur s = None)
   \<and> (\<forall>i. running s = Some i \<longrightarrow> i < length (thr s) \<and> (\<not> after_block (pcs s i) \<longrightarrow> cur s = Some i \<and> \<not> asleep s i))
   \<and> (\<forall>i sw. pcs s i = LRelease sw \<or> pcs s i = LSwitch sw \<longrightarrow> handoff s i sw)
   \<and> (\<forall>i < length (thr s). asleep s i \<longrightarrow> pcs s i = LHint \<or> after_block (pcs s i))"

definition wait_inv :: "system \<Rightarrow> bool" where
  "wait_inv s \<longleftrightarrow> distinct (waiters s)
   \<and> (\<forall>k tid. waking (pcs s k) = Some tid \<longrightarrow> tid \<notin> set (waiters s))
   \<and> (\<forall>i < length (thr s). asleep s i \<longrightarrow> tid_of s i \<in> set (waiters s) \<or> (\<exists>k. waking (pcs s k) = Some (tid_of s i)))
   \<and> (\<forall>tid. tid \<in> set (waiters s) \<or> (\<exists>k. waking (pcs s k) = Some tid) \<longrightarrow>
        (\<exists>i < length (thr s). tid_of s i = tid \<and> (asleep s i \<or> enqueued (pcs s i))))
   \<and> (\<forall>i. enqueued (pcs s i) \<longrightarrow> tid_of s i \<in> set (waiters s))
   \<and> (\<forall>i tid. pcs s i = LWaiters tid \<or> pcs s i = LPush tid \<longrightarrow> tid = tid_of s i)
   \<and> (waiters s \<noteq> [] \<longrightarrow> locked s \<or> (\<exists>k < length (thr s). \<not> asleep s k \<and> active (pcs s k)))"

definition sys_inv :: "system \<Rightarrow> bool" where
  "sys_inv s \<longleftrightarrow> ctl_inv s \<and> mutex_inv s \<and> sched_inv s \<and> wait_inv s"

lemma initial_inv: "initial s \<Longrightarrow> sys_inv s"
  by (auto simp: initial_def Let_def sys_inv_def ctl_inv_def mutex_inv_def lock_held_def sched_inv_def wait_inv_def
      list_all_length is_blocked_def eevdf_inv_def)

text \<open>Steps that only move a thread's program point and change locks, by what they must agree on.\<close>

lemma ctl_move:
  assumes "ctl_inv s" and "running s = Some i" and "running s' = Some i" and "pcs s' = (pcs s)(i := p)"
    and "flag_ok p" and "irq_on s' \<longleftrightarrow> \<not> irq_off_pc p" and "sched_lock s' \<longleftrightarrow> holds_sched p"
  shows "ctl_inv s'"
  using assms by (auto simp: ctl_inv_def)

lemma sched_move:
  assumes "sched_inv s" and "running s = Some i" and "running s' = Some i" and "pcs s' = (pcs s)(i := p)"
    and "sched s' = sched s" and "saved s' = saved s" and "\<not> after_block (pcs s i)" and "\<not> after_block p"
  shows "sched_inv s'"
  using assms by (auto simp: sched_inv_def handoff_def)

lemma wait_move:
  assumes "wait_inv s" and "i < length (thr s)" and "pcs s' = (pcs s)(i := p)"
    and "sched s' = sched s" and "waiters s' = waiters s"
    and "waking p = waking (pcs s i)" and "enqueued p = enqueued (pcs s i)"
    and "\<And>tid. p = LWaiters tid \<or> p = LPush tid \<Longrightarrow> tid = tid_of s i"
    and "waiters s \<noteq> [] \<Longrightarrow> locked s \<or> active (pcs s i) \<and> \<not> asleep s i \<Longrightarrow> locked s' \<or> active p \<and> \<not> asleep s i"
  shows "wait_inv s'"
proof -
  have w: "waking (pcs s' k) = waking (pcs s k)" "enqueued (pcs s' k) = enqueued (pcs s k)" for k
    using assms(3,6,7) by auto
  have "locked s' \<or> (\<exists>k < length (thr s). \<not> asleep s k \<and> active (pcs s' k))"
    if "waiters s \<noteq> []" "locked s \<or> (\<exists>k < length (thr s). \<not> asleep s k \<and> active (pcs s k))"
    using that assms(2,3,9) by (metis fun_upd_apply)
  then show ?thesis
    using assms(1,3,4,5,8) w by (simp add: wait_inv_def)
qed

lemma contended_off: "contended p \<Longrightarrow> irq_off_pc p"
  by (cases p) simp_all

lemma after_block_off: "after_block p \<Longrightarrow> irq_off_pc p"
  by (cases p) simp_all

lemma holds_sched_off: "holds_sched p \<Longrightarrow> irq_off_pc p"
  by (cases p rule: holds_sched.cases) simp_all

lemma waking_holds_queue: "waking p = Some tid \<Longrightarrow> holds_queue p"
  by (cases p) simp_all

lemma others_preemptible: "ctl_inv s \<Longrightarrow> running s = Some i \<Longrightarrow> irq_off_pc (pcs s j) \<Longrightarrow> j = i"
  unfolding ctl_inv_def by (metis option.inject)

lemma mutex_move:
  assumes inv: "mutex_inv s" "ctl_inv s" and run: "running s = Some i" and upd: "pcs s' = (pcs s)(i := p)"
    and mtx: "lock_change (locked s) (locked s') (holds_mutex (pcs s i)) (holds_mutex p)"
    and que: "lock_change (waiters_lock s) (waiters_lock s') (holds_queue (pcs s i)) (holds_queue p)"
    and con: "contended p \<Longrightarrow> locked s'"
  shows "mutex_inv s'"
proof -
  have off: "contended (pcs s j) \<Longrightarrow> j = i" for j
    using others_preemptible [OF inv(2) run] contended_off by blast
  have f: "(\<lambda>j. h (pcs s' j)) = (\<lambda>j. h (pcs s j))(i := h p)" for h :: "pc \<Rightarrow> bool" using upd by auto
  show ?thesis
    using inv(1) con off upd lock_held_change [where h = "\<lambda>j. holds_mutex (pcs s j)" and i = i, OF _ mtx]
      lock_held_change [where h = "\<lambda>j. holds_queue (pcs s j)" and i = i, OF _ que]
    unfolding mutex_inv_def f by auto
qed

text \<open>What the invariant says of the running thread.\<close>

lemma sys_invD:
  assumes "sys_inv s" and "running s = Some i"
  shows "irq_on s \<longleftrightarrow> \<not> irq_off_pc (pcs s i)" and "sched_lock s \<longleftrightarrow> holds_sched (pcs s i)" and "flag_ok (pcs s i)"
    and "lock_held (locked s) (\<lambda>j. holds_mutex (pcs s j))" and "lock_held (waiters_lock s) (\<lambda>j. holds_queue (pcs s j))"
    and "contended (pcs s i) \<Longrightarrow> locked s" and "i < length (thr s)"
    and "\<not> after_block (pcs s i) \<Longrightarrow> cur s = Some i" and "\<not> after_block (pcs s i) \<Longrightarrow> \<not> asleep s i"
    and "pcs s i = LWaiters tid \<or> pcs s i = LPush tid \<Longrightarrow> tid = tid_of s i"
  using assms by (auto simp: sys_inv_def ctl_inv_def mutex_inv_def sched_inv_def wait_inv_def)

lemma sys_goto:
  assumes inv: "sys_inv s" and run: "running s = Some i"
    and upd: "running s0 = running s" "pcs s0 = pcs s" "sched s0 = sched s" "saved s0 = saved s" "waiters s0 = waiters s"
    and blk: "\<not> after_block (pcs s i)" "\<not> after_block p"
    and ctl: "flag_ok p" "irq_on s0 \<longleftrightarrow> \<not> irq_off_pc p" "sched_lock s0 \<longleftrightarrow> holds_sched p"
    and mtx: "lock_change (locked s) (locked s0) (holds_mutex (pcs s i)) (holds_mutex p)"
    and que: "lock_change (waiters_lock s) (waiters_lock s0) (holds_queue (pcs s i)) (holds_queue p)"
    and con: "contended p \<Longrightarrow> locked s0"
    and wai: "waking p = waking (pcs s i)" "enqueued p = enqueued (pcs s i)"
      "\<And>tid. p = LWaiters tid \<or> p = LPush tid \<Longrightarrow> tid = tid_of s i"
      "waiters s \<noteq> [] \<Longrightarrow> locked s \<or> active (pcs s i) \<Longrightarrow> locked s0 \<or> active p"
  shows "sys_inv (goto i p s0)"
proof -
  note D = sys_invD [OF inv run]
  have i: "ctl_inv s" "mutex_inv s" "sched_inv s" "wait_inv s" using inv by (simp_all add: sys_inv_def)
  have "ctl_inv (goto i p s0)" by (rule ctl_move [OF i(1) run, of _ p]) (use upd run ctl in \<open>simp_all add: goto_def\<close>)
  moreover have "mutex_inv (goto i p s0)"
    by (rule mutex_move [OF i(2,1) run, of _ p]) (use upd mtx que con in \<open>simp_all add: goto_def\<close>)
  moreover have "sched_inv (goto i p s0)"
    by (rule sched_move [OF i(3) run, of _ p]) (use upd run blk in \<open>simp_all add: goto_def\<close>)
  moreover have "wait_inv (goto i p s0)"
    by (rule wait_move [OF i(4) D(7), of _ p]) (use upd wai D(9) [OF blk(1)] in \<open>simp_all add: goto_def\<close>)
  ultimately show ?thesis by (simp add: sys_inv_def)
qed

text \<open>The steps that leave scheduler and queue alone.\<close>

lemma lock_step_inv:
  assumes inv: "sys_inv s" and run: "running s = Some i" and st: "lock_step i p s = Inr s'" and p: "pcs s i = p"
    and simple: "\<not> (\<exists>tid. p = LPush tid)" "p \<noteq> LBlock" "\<not> after_block p" "p \<noteq> Critical" "p \<noteq> Outside" "\<not> in_drop p"
  shows "sys_inv s'"
proof -
  note D = sys_invD [OF inv run, unfolded p]
  note move = sys_goto [OF inv run, unfolded p]
  show ?thesis
  proof (cases p)
    case LFast
    then show ?thesis using st D by (auto intro!: move simp: lock_change_def)
  next
    case (LSched q)
    then show ?thesis using st D by (cases q) (auto intro!: move simp: lock_change_def split: if_splits)
  next
    case (LRecheck w)
    then show ?thesis using st D by (auto intro!: move simp: lock_change_def)
  next
    case (LReturn q)
    then show ?thesis using st D by (cases q) (auto intro!: move simp: lock_change_def)
  next
    case (LCurrent w)
    then have "s' = goto i (LWaiters (tid_of s i)) s"
      using st D by (auto simp: scheduler_current_thread_id_def current_thread_id_def)
    then show ?thesis using LCurrent D by (auto intro!: move simp: lock_change_def)
  next
    case (LNone q)
    then show ?thesis using st D by (cases q) (auto intro!: move simp: lock_change_def)
  next
    case (LWaiters tid)
    then show ?thesis using st D inv by (auto intro!: move simp: lock_change_def split: if_splits)
  next
    case LWaitersDone
    then show ?thesis using st D by (auto intro!: move simp: lock_change_def)
  next
    case LDeadlock
    then show ?thesis using D(3) by simp
  next
    case LHint
    then show ?thesis using st D by (auto intro!: move simp: lock_change_def)
  qed (use simple in \<open>simp_all add: in_drop_def\<close>)
qed

lemma drop_step_inv:
  assumes inv: "sys_inv s" and run: "running s = Some i" and st: "drop_step i p s = Inr s'" and p: "pcs s i = p"
    and simple: "p = DPop \<Longrightarrow> waiters s = []" "\<not> (\<exists>tid w. p = DUnblock tid w)" "in_drop p"
  shows "sys_inv s'"
proof -
  note D = sys_invD [OF inv run, unfolded p]
  note move = sys_goto [OF inv run, unfolded p]
  show ?thesis
  proof (cases p)
    case DStore
    then show ?thesis using st D by (auto intro!: move simp: lock_change_def)
  next
    case DWaiters
    then show ?thesis using st D inv by (auto intro!: move simp: lock_change_def split: if_splits)
  next
    case DPop
    then have "s' = goto i DWaitersDone s" and "waiters s = []" using st simple(1) by simp_all
    then show ?thesis using DPop D by (auto intro!: move simp: lock_change_def)
  next
    case (DSched tid q)
    then show ?thesis using st D by (cases q) (auto intro!: move simp: lock_change_def split: if_splits)
  next
    case (DUnlock q)
    then show ?thesis using st D by (cases q) (auto intro!: move simp: lock_change_def)
  next
    case DWaitersDone
    then show ?thesis using st D by (auto intro!: move simp: lock_change_def)
  qed (use simple in \<open>simp_all add: in_drop_def\<close>)
qed

end
