(* ===== verification/Sync_Safety.thy ===== *)
theory Sync_Safety
  imports Sync
begin

text \<open>
  The rest of the invariant proof for the locks of theory \<open>Sync\<close>, the steps that touch the queue of
  waiters or the scheduler, and what the invariant gives: mutual exclusion, no lost wakeups, no deadlock in
  the interrupt handler; and one schedule on which the mutex hangs the processor.
\<close>

section \<open>Steps on the queue and the scheduler\<close>

text \<open>The part of the scheduler's invariant that does not mention who is running.\<close>

definition sched_core :: "system \<Rightarrow> bool" where
  "sched_core s \<longleftrightarrow> eevdf_inv (eevdf (sched s)) \<and> distinct (map thread_id (thr s))
   \<and> distinct (bootstrap_ptr (sched s) # map context_ptr (thr s))
   \<and> (\<forall>i < length (thr s). saved s (context_ptr (thr s ! i)) = Some i)
   \<and> (\<forall>i. length (thr s) \<le> i \<longrightarrow> pcs s i = Outside)
   \<and> (\<forall>i < length (thr s). asleep s i \<longrightarrow> pcs s i = LHint \<or> after_block (pcs s i))"

lemma sched_inv_core:
  "sched_inv s \<longleftrightarrow> sched_core s \<and> (running s = None \<longrightarrow> cur s = None)
   \<and> (\<forall>i. running s = Some i \<longrightarrow> i < length (thr s) \<and> (\<not> after_block (pcs s i) \<longrightarrow> cur s = Some i \<and> \<not> asleep s i))
   \<and> (\<forall>i sw. pcs s i = LRelease sw \<or> pcs s i = LSwitch sw \<longrightarrow> handoff s i sw)"
  unfolding sched_inv_def sched_core_def by blast

lemma sched_handoff: "sched_inv s \<Longrightarrow> pcs s i = LRelease sw \<or> pcs s i = LSwitch sw \<Longrightarrow> handoff s i sw"
  unfolding sched_inv_core by blast

text \<open>Every queued or popped identifier belongs to a thread that sleeps or is about to.\<close>

lemma wait_owner:
  assumes "wait_inv s" and "tid \<in> set (waiters s) \<or> (\<exists>k. waking (pcs s k) = Some tid)"
  obtains i where "i < length (thr s)" and "tid_of s i = tid" and "asleep s i \<or> enqueued (pcs s i)"
proof -
  have "\<exists>i < length (thr s). tid_of s i = tid \<and> (asleep s i \<or> enqueued (pcs s i))"
    using assms unfolding wait_inv_def by blast
  then show ?thesis using that by blast
qed

lemma wait_invI:
  assumes "distinct (waiters s)"
    and "\<And>k tid. waking (pcs s k) = Some tid \<Longrightarrow> tid \<notin> set (waiters s)"
    and "\<And>i. i < length (thr s) \<Longrightarrow> asleep s i \<Longrightarrow>
      tid_of s i \<in> set (waiters s) \<or> (\<exists>k. waking (pcs s k) = Some (tid_of s i))"
    and "\<And>tid. tid \<in> set (waiters s) \<or> (\<exists>k. waking (pcs s k) = Some tid) \<Longrightarrow>
      \<exists>i < length (thr s). tid_of s i = tid \<and> (asleep s i \<or> enqueued (pcs s i))"
    and "\<And>i. enqueued (pcs s i) \<Longrightarrow> tid_of s i \<in> set (waiters s)"
    and "\<And>i tid. pcs s i = LWaiters tid \<or> pcs s i = LPush tid \<Longrightarrow> tid = tid_of s i"
    and "waiters s \<noteq> [] \<Longrightarrow> locked s \<or> (\<exists>k < length (thr s). \<not> asleep s k \<and> active (pcs s k))"
  shows "wait_inv s"
  using assms by (simp add: wait_inv_def)

lemma wait_invD:
  assumes "wait_inv s"
  shows "distinct (waiters s)"
    and "waking (pcs s k) = Some tid \<Longrightarrow> tid \<notin> set (waiters s)"
    and "i < length (thr s) \<Longrightarrow> asleep s i \<Longrightarrow>
      tid_of s i \<in> set (waiters s) \<or> (\<exists>k. waking (pcs s k) = Some (tid_of s i))"
    and "enqueued (pcs s i) \<Longrightarrow> tid_of s i \<in> set (waiters s)"
    and "pcs s i = LWaiters tid \<or> pcs s i = LPush tid \<Longrightarrow> tid = tid_of s i"
    and "waiters s \<noteq> [] \<Longrightarrow> locked s \<or> (\<exists>k < length (thr s). \<not> asleep s k \<and> active (pcs s k))"
proof -
  have "\<forall>i tid. pcs s i = LWaiters tid \<or> pcs s i = LPush tid \<longrightarrow> tid = tid_of s i"
    using assms unfolding wait_inv_def by (elim conjE)
  then show "pcs s i = LWaiters tid \<or> pcs s i = LPush tid \<Longrightarrow> tid = tid_of s i" by blast
qed (use assms in \<open>simp_all add: wait_inv_def\<close>)

lemma tid_inj:
  "sched_inv s \<Longrightarrow> i < length (thr s) \<Longrightarrow> j < length (thr s) \<Longrightarrow> tid_of s i = tid_of s j \<Longrightarrow> i = j"
  by (auto simp: sched_inv_def distinct_conv_nth)

text \<open>Only the holder of the queue's spin lock can be waking someone.\<close>

lemma only_waker:
  assumes "mutex_inv s" and "holds_queue (pcs s i)" and "waking (pcs s k) = Some tid"
  shows "k = i"
  using assms waking_holds_queue unfolding mutex_inv_def lock_held_def by blast

lemma enqueued_off: "enqueued p \<Longrightarrow> irq_off_pc p"
  by (cases p) simp_all

lemma push_inv:
  assumes inv: "sys_inv s" and run: "running s = Some i" and p: "pcs s i = LPush tid"
  shows "sys_inv (goto i LWaitersDone (s\<lparr>waiters := waiters s @ [tid]\<rparr>))" (is "sys_inv ?s")
proof -
  note D = sys_invD [OF inv run, unfolded p]
  have i: "ctl_inv s" "mutex_inv s" "sched_inv s" "wait_inv s" using inv by (simp_all add: sys_inv_def)
  have tid: "tid = tid_of s i" using D(10) by simp
  have no: "\<not> (tid \<in> set (waiters s) \<or> (\<exists>k. waking (pcs s k) = Some tid))"
  proof
    assume "tid \<in> set (waiters s) \<or> (\<exists>k. waking (pcs s k) = Some tid)"
    then obtain j where j: "j < length (thr s)" "tid_of s j = tid" "asleep s j \<or> enqueued (pcs s j)"
      by (rule wait_owner [OF i(4)])
    have "j = i" by (rule tid_inj [OF i(3) j(1) D(7) trans [OF j(2) tid]])
    with j(3) D(9) p show False by simp
  qed
  have "ctl_inv ?s" by (rule ctl_move [OF i(1) run, of _ LWaitersDone]) (use run D in \<open>simp_all add: goto_def\<close>)
  moreover have "mutex_inv ?s"
    by (rule mutex_move [OF i(2,1) run, of _ LWaitersDone]) (use p D in \<open>simp_all add: goto_def lock_change_def\<close>)
  moreover have "sched_inv ?s"
    by (rule sched_move [OF i(3) run, of _ LWaitersDone]) (use p run in \<open>simp_all add: goto_def\<close>)
  moreover have "wait_inv ?s"
  proof -
    have w: "waking (pcs ?s k) = waking (pcs s k)" for k by (simp add: goto_def p)
    have e: "enqueued (pcs ?s k) \<longleftrightarrow> k = i \<or> enqueued (pcs s k)" for k by (simp add: goto_def)
    note W = wait_invD [OF i(4)]
    show ?thesis
    proof (rule wait_invI, unfold w e)
      show "distinct (waiters ?s)" using W(1) no by (simp add: goto_def)
      show "t \<notin> set (waiters ?s)" if "waking (pcs s k) = Some t" for k t
        using W(2) [OF that] no that by (auto simp: goto_def)
      show "tid_of ?s j \<in> set (waiters ?s) \<or> (\<exists>k. waking (pcs s k) = Some (tid_of ?s j))"
        if "j < length (thr ?s)" "asleep ?s j" for j
        using W(3) [of j] that by (auto simp: goto_def)
      show "\<exists>j < length (thr ?s). tid_of ?s j = t \<and> (asleep ?s j \<or> j = i \<or> enqueued (pcs s j))"
        if "t \<in> set (waiters ?s) \<or> (\<exists>k. waking (pcs s k) = Some t)" for t
      proof (cases "t = tid")
        case True
        with D(7) tid show ?thesis by (auto simp: goto_def)
      next
        case False
        with that have "t \<in> set (waiters s) \<or> (\<exists>k. waking (pcs s k) = Some t)" by (auto simp: goto_def)
        then show ?thesis by (rule wait_owner [OF i(4)]) (auto simp: goto_def)
      qed
      show "tid_of ?s j \<in> set (waiters ?s)" if "j = i \<or> enqueued (pcs s j)" for j
        using that tid W(4) [of j] by (auto simp: goto_def)
      show "t = tid_of ?s j" if "pcs ?s j = LWaiters t \<or> pcs ?s j = LPush t" for j t
        using that W(5) [of j t] by (auto simp: goto_def split: if_splits)
      show "locked ?s \<or> (\<exists>k < length (thr ?s). \<not> asleep ?s k \<and> active (pcs ?s k))"
        using D(6) by (simp add: goto_def)
    qed
  qed
  ultimately show ?thesis by (simp add: sys_inv_def)
qed

lemma pop_inv:
  assumes inv: "sys_inv s" and run: "running s = Some i" and p: "pcs s i = DPop" and w: "waiters s = tid # ws"
  shows "sys_inv (goto i (DSched tid ReadFlag) (s\<lparr>waiters := ws\<rparr>))" (is "sys_inv ?s")
proof -
  note D = sys_invD [OF inv run, unfolded p]
  have i: "ctl_inv s" "mutex_inv s" "sched_inv s" "wait_inv s" using inv by (simp_all add: sys_inv_def)
  have none: "waking (pcs s k) = None" for k
  proof (cases "waking (pcs s k)")
    case (Some t)
    then have "k = i" using only_waker [OF i(2), of i k t] p by simp
    with Some p show ?thesis by simp
  qed
  have "ctl_inv ?s" by (rule ctl_move [OF i(1) run, of _ "DSched tid ReadFlag"]) (use run D in \<open>simp_all add: goto_def\<close>)
  moreover have "mutex_inv ?s"
    by (rule mutex_move [OF i(2,1) run, of _ "DSched tid ReadFlag"]) (use p D in \<open>simp_all add: goto_def lock_change_def\<close>)
  moreover have "sched_inv ?s"
    by (rule sched_move [OF i(3) run, of _ "DSched tid ReadFlag"]) (use p run in \<open>simp_all add: goto_def\<close>)
  moreover have "wait_inv ?s"
  proof -
    have wk: "waking (pcs ?s k) = (if k = i then Some tid else None)" for k using none by (simp add: goto_def)
    have en: "enqueued (pcs ?s k) = enqueued (pcs s k)" for k by (simp add: goto_def p)
    have "enqueued (pcs s k) \<Longrightarrow> tid_of s k \<in> set ws" for k
      using others_preemptible [OF i(1) run enqueued_off, of k] p by auto
    then show ?thesis
      using i(4) none w wk en D(7,9)
      by (auto simp: wait_inv_def goto_def)
  qed
  ultimately show ?thesis by (simp add: sys_inv_def)
qed

lemma unblock_inv:
  assumes inv: "sys_inv s" and run: "running s = Some i" and p: "pcs s i = DUnblock tid w"
    and st: "scheduler_unblock_thread (sched s) tid = Inr sch"
  shows "sys_inv (goto i (DUnlock (Unlock w)) (s\<lparr>sched := sch\<rparr>))" (is "sys_inv ?s")
proof -
  note D = sys_invD [OF inv run, unfolded p]
  have i: "ctl_inv s" "mutex_inv s" "sched_inv s" "wait_inv s" using inv by (simp_all add: sys_inv_def)
  note W = wait_invD [OF i(4)]
  have ev: "eevdf_inv (eevdf (sched s))" and ids: "distinct (map thread_id (thr s))" using i(3) by (simp_all add: sched_inv_def)
  obtain e where e: "unblock_thread (eevdf (sched s)) tid = Inr e" and sch: "sch = (sched s)\<lparr>eevdf := e\<rparr>"
    using st by (auto simp: scheduler_unblock_thread_def rbind_eq_Inr)
  note un = ev.unblock [OF ev e]
  have sl: "asleep ?s j \<longleftrightarrow> asleep s j \<and> tid_of s j \<noteq> tid" if "j < length (thr s)" for j
    using ev.unblock_unblocks [OF ev e ids that] by (simp add: goto_def sch)
  have th: "thr ?s = thr s" "cur ?s = cur s" "bootstrap_ptr (sched ?s) = bootstrap_ptr (sched s)"
    using un by (simp_all add: goto_def sch)
  have "ctl_inv ?s"
    by (rule ctl_move [OF i(1) run, of _ "DUnlock (Unlock w)"]) (use run D in \<open>simp_all add: goto_def\<close>)
  moreover have "mutex_inv ?s"
    by (rule mutex_move [OF i(2,1) run, of _ "DUnlock (Unlock w)"]) (use p D in \<open>simp_all add: goto_def lock_change_def\<close>)
  moreover have "sched_inv ?s"
  proof -
    have "j = i" if "pcs s j = LRelease sw \<or> pcs s j = LSwitch sw" for j sw
      using others_preemptible [OF i(1) run, of j] that by auto
    then have "\<not> (pcs ?s j = LRelease sw \<or> pcs ?s j = LSwitch sw)" for j sw using p by (auto simp: goto_def)
    then show ?thesis
      using i(3) un sl D(7,9) run p unfolding sched_inv_def th
      by (auto simp: goto_def sch)
  qed
  moreover have "wait_inv ?s"
  proof -
    have tw: "waking (pcs s i) = Some tid" using p by simp
    have wk: "waking (pcs ?s k) = None" for k
      using only_waker [OF i(2), of i k] p by (cases "waking (pcs s k)") (auto simp: goto_def)
    have eq: "enqueued (pcs ?s k) = enqueued (pcs s k)" for k by (simp add: goto_def p)
    have notin: "tid \<notin> set (waiters s)" by (rule W(2) [OF tw])
    obtain j where j: "j < length (thr s)" "tid_of s j = tid" "asleep s j \<or> enqueued (pcs s j)"
      by (rule wait_owner [OF i(4), of tid]) (use tw in blast)
    have "j \<noteq> i" using j(3) D(9) p by auto
    then have "pcs s j = LHint"
      using j others_preemptible [OF i(1) run, of j] enqueued_off after_block_off i(3) unfolding sched_inv_def by blast
    with \<open>j \<noteq> i\<close> j have act: "j < length (thr ?s) \<and> \<not> asleep ?s j \<and> active (pcs ?s j)"
      using sl [of j] th by (simp add: goto_def)
    show ?thesis
    proof (rule wait_invI, unfold wk eq th)
      show "distinct (waiters ?s)" using W(1) by (simp add: goto_def)
      show "tid_of s j \<in> set (waiters ?s) \<or> (\<exists>k::nat. None = Some (tid_of s j))"
        if "j < length (thr s)" "asleep ?s j" for j
        using W(3) [of j] that sl [of j] only_waker [OF i(2), of i] p by (fastforce simp: goto_def)
      show "\<exists>j < length (thr s). tid_of s j = t \<and> (asleep ?s j \<or> enqueued (pcs s j))"
        if "t \<in> set (waiters ?s) \<or> (\<exists>k::nat. None = Some t)" for t
      proof -
        have t: "t \<in> set (waiters s)" "t \<noteq> tid" using that notin by (auto simp: goto_def)
        obtain k where k: "k < length (thr s)" "tid_of s k = t" "asleep s k \<or> enqueued (pcs s k)"
          by (rule wait_owner [OF i(4), of t]) (use t in blast)
        then show ?thesis using sl [of k] t by (intro exI [of _ k]) auto
      qed
      show "tid_of s j \<in> set (waiters ?s)" if "enqueued (pcs s j)" for j
        using W(4) [OF that] by (simp add: goto_def)
      show "t = tid_of s j" if "pcs ?s j = LWaiters t \<or> pcs ?s j = LPush t" for j t
        using that W(5) [of j t] by (auto simp: goto_def split: if_splits)
      show "locked ?s \<or> (\<exists>k < length (thr s). \<not> asleep ?s k \<and> active (pcs ?s k))"
        using act th by auto
    qed simp
  qed
  ultimately show ?thesis by (simp add: sys_inv_def)
qed

text \<open>The holder of the mutex is awake, so blocking always finds someone to run.\<close>

lemma holder_awake:
  assumes "mutex_inv s" and "sched_inv s" and "locked s"
  obtains h where "h < length (thr s)" and "holds_mutex (pcs s h)" and "\<not> asleep s h"
proof -
  obtain h where h: "holds_mutex (pcs s h)" using assms(1,3) by (auto simp: mutex_inv_def lock_held_def)
  then have "pcs s h \<noteq> Outside" "pcs s h \<noteq> LHint" "\<not> after_block (pcs s h)" by (cases "pcs s h"; simp)+
  moreover from this have "h < length (thr s)" using assms(2) unfolding sched_inv_def by (meson not_le)
  ultimately show ?thesis using that [of h] h assms(2) unfolding sched_inv_def by blast
qed

lemma block_outcome:
  assumes inv: "sys_inv s" and run: "running s = Some i" and p: "pcs s i = LBlock"
    and st: "scheduler_block_current (sched s) (ticks s) = Inr (sw, sch)"
  obtains e j where "sch = (sched s)\<lparr>eevdf := e\<rparr>" and "eevdf_inv e" and "ev_threads e = thr s"
    and "\<And>k. k < length (thr s) \<Longrightarrow> is_blocked e k \<longleftrightarrow> asleep s k \<or> k = i"
    and "j < length (thr s)" and "j \<noteq> i" and "\<not> is_blocked e j" and "ev_current e = Some j"
    and "sw = Some (context_ptr (thr s ! i), context_ptr (thr s ! j))"
proof -
  note D = sys_invD [OF inv run, unfolded p]
  have i: "mutex_inv s" "sched_inv s" using inv by (simp_all add: sys_inv_def)
  have ev: "eevdf_inv (eevdf (sched s))" using i(2) by (simp add: sched_inv_def)
  have cur: "cur s = Some i" using D(8) by simp
  obtain e where e: "block_current_and_prepare_switch (eevdf (sched s)) (bootstrap_ptr (sched s)) (ticks s) = Inr (sw, e)"
    and sch: "sch = (sched s)\<lparr>eevdf := e\<rparr>"
    using st by (auto simp: scheduler_block_current_def rbind_eq_Inr)
  note out = block_current_outcome [OF ev cur e]
  obtain h where h: "h < length (thr s)" "holds_mutex (pcs s h)" "\<not> asleep s h"
    by (rule holder_awake [OF i D(6)]) simp_all
  then have "h \<noteq> i" using p by auto
  with out h obtain f t where sw: "sw = Some (f, t)" by (cases sw) auto
  with out obtain j where "j < length (thr s)" "j \<noteq> i" "\<not> asleep s j" "ev_current e = Some j"
    "f = context_ptr (thr s ! i)" "t = context_ptr (thr s ! j)" by auto
  with out that [OF sch ev.block_invar [OF ev e] ev.block_threads [OF ev e]] sw show ?thesis by auto
qed

lemma block_inv:
  assumes inv: "sys_inv s" and run: "running s = Some i" and p: "pcs s i = LBlock"
    and st: "scheduler_block_current (sched s) (ticks s) = Inr (sw, sch)"
  shows "sys_inv (goto i (LRelease sw) (s\<lparr>sched := sch\<rparr>))" (is "sys_inv ?s")
proof -
  note D = sys_invD [OF inv run, unfolded p]
  have i: "ctl_inv s" "mutex_inv s" "sched_inv s" "wait_inv s" using inv by (simp_all add: sys_inv_def)
  note W = wait_invD [OF i(4)]
  obtain e j where sch: "sch = (sched s)\<lparr>eevdf := e\<rparr>" and e: "eevdf_inv e" "ev_threads e = thr s"
    and bl: "\<And>k. k < length (thr s) \<Longrightarrow> is_blocked e k \<longleftrightarrow> asleep s k \<or> k = i"
    and j: "j < length (thr s)" "j \<noteq> i" "\<not> is_blocked e j" "ev_current e = Some j"
    and sw: "sw = Some (context_ptr (thr s ! i), context_ptr (thr s ! j))"
    by (rule block_outcome [OF inv run p st]) (rule that)
  have th: "thr ?s = thr s" "cur ?s = Some j" "asleep ?s = is_blocked e" "waiters ?s = waiters s" "locked ?s = locked s"
    using e j by (simp_all add: goto_def sch)
  have "ctl_inv ?s"
    by (rule ctl_move [OF i(1) run, of _ "LRelease sw"]) (use run D in \<open>simp_all add: goto_def\<close>)
  moreover have "mutex_inv ?s"
    by (rule mutex_move [OF i(2,1) run, of _ "LRelease sw"]) (use p D in \<open>simp_all add: goto_def lock_change_def\<close>)
  moreover have "sched_inv ?s"
  proof -
    have only: "k = i" if "pcs s k = LRelease sw' \<or> pcs s k = LSwitch sw'" for k sw'
      using others_preemptible [OF i(1) run, of k] that by auto
    have "handoff ?s i sw" unfolding handoff_def th using j sw by auto
    then have "handoff ?s k sw'" if "pcs ?s k = LRelease sw' \<or> pcs ?s k = LSwitch sw'" for k sw'
      using that only [of k sw'] p by (auto simp: goto_def split: if_splits)
    moreover have "pcs ?s k = LHint \<or> after_block (pcs ?s k)" if "k < length (thr s)" "is_blocked e k" for k
      using that bl [of k] i(3) by (auto simp: goto_def sched_inv_def)
    ultimately show ?thesis
      using i(3) e run D(7) unfolding sched_inv_def th
      by (auto simp: goto_def sch)
  qed
  moreover have "wait_inv ?s"
  proof -
    have wk: "waking (pcs ?s k) = waking (pcs s k)" for k by (simp add: goto_def p)
    show ?thesis
    proof (rule wait_invI, unfold wk th)
      show "distinct (waiters s)" by (rule W(1))
      show "t \<notin> set (waiters s)" if "waking (pcs s k) = Some t" for k t by (rule W(2) [OF that])
      show "tid_of s k \<in> set (waiters s) \<or> (\<exists>k'. waking (pcs s k') = Some (tid_of s k))"
        if "k < length (thr s)" "is_blocked e k" for k
        using that bl [of k] W(3) [of k] W(4) [of i] p by auto
      show "\<exists>k < length (thr s). tid_of s k = t \<and> (is_blocked e k \<or> enqueued (pcs ?s k))"
        if "t \<in> set (waiters s) \<or> (\<exists>k. waking (pcs s k) = Some t)" for t
      proof -
        note m = that
        obtain k where k: "k < length (thr s)" "tid_of s k = t" "asleep s k \<or> enqueued (pcs s k)"
          by (rule wait_owner [OF i(4) m])
        then show ?thesis using bl [of k] by (intro exI [of _ k]) (auto simp: goto_def)
      qed
      show "tid_of s k \<in> set (waiters s)" if "enqueued (pcs ?s k)" for k
        using that W(4) [of k] by (auto simp: goto_def split: if_splits)
      show "t = tid_of s k" if "pcs ?s k = LWaiters t \<or> pcs ?s k = LPush t" for k t
        using that W(5) [of k t] by (auto simp: goto_def split: if_splits)
      show "locked s \<or> (\<exists>k < length (thr s). \<not> is_blocked e k \<and> active (pcs ?s k))" using D(6) by simp
    qed
  qed
  ultimately show ?thesis by (simp add: sys_inv_def)
qed

lemma release_inv:
  assumes inv: "sys_inv s" and run: "running s = Some i" and p: "pcs s i = LRelease sw"
  shows "sys_inv (goto i (LSwitch sw) (release_without_irq_restore s))" (is "sys_inv ?s")
proof -
  note D = sys_invD [OF inv run, unfolded p]
  have i: "ctl_inv s" "mutex_inv s" "sched_inv s" "wait_inv s" using inv by (simp_all add: sys_inv_def)
  note defs = goto_def release_without_irq_restore_def
  have "ctl_inv ?s" by (rule ctl_move [OF i(1) run, of _ "LSwitch sw"]) (use run D in \<open>simp_all add: defs\<close>)
  moreover have "mutex_inv ?s"
    by (rule mutex_move [OF i(2,1) run, of _ "LSwitch sw"]) (use p D in \<open>simp_all add: defs lock_change_def\<close>)
  moreover have "sched_inv ?s"
  proof -
    have "handoff ?s k sw'" if "pcs ?s k = LRelease sw' \<or> pcs ?s k = LSwitch sw'" for k sw'
      using that sched_handoff [OF i(3), of k sw'] sched_handoff [OF i(3), of i sw] p
      by (auto simp: defs handoff_def split: if_splits)
    moreover have "sched_core ?s" using i(3) p D(7) by (auto simp: sched_inv_core sched_core_def defs)
    ultimately show ?thesis using i(3) run D(7) by (simp add: sched_inv_core defs)
  qed
  moreover have "wait_inv ?s"
    by (rule wait_move [OF i(4) D(7), of _ "LSwitch sw"]) (use p in \<open>simp_all add: defs\<close>)
  ultimately show ?thesis by (simp add: sys_inv_def)
qed

section \<open>Changing threads\<close>

lemma context_inj:
  "sched_core s \<Longrightarrow> i < length (thr s) \<Longrightarrow> j < length (thr s) \<Longrightarrow>
     context_ptr (thr s ! i) = context_ptr (thr s ! j) \<Longrightarrow> i = j"
  using nth_eq_iff_index_eq [of "map context_ptr (thr s)" i j] by (simp add: sched_core_def)

lemma bootstrap_no_context: "sched_core s \<Longrightarrow> i < length (thr s) \<Longrightarrow> context_ptr (thr s ! i) \<noteq> bootstrap_ptr (sched s)"
  unfolding sched_core_def by (metis distinct.simps(2) length_map nth_map nth_mem)

text \<open>Saving into the context of whoever runs leaves every context with its own thread.\<close>

lemma saved_stays:
  assumes "sched_core s" and "\<And>i. running s = Some i \<Longrightarrow> i < length (thr s)" and "k < length (thr s)"
  shows "((saved s)(running_ctx (bootstrap_ptr (sched s)) (thr s) (running s) := running s)) (context_ptr (thr s ! k)) = Some k"
proof -
  have sv: "saved s (context_ptr (thr s ! k)) = Some k" using assms(1,3) by (simp add: sched_core_def)
  show ?thesis
  proof (cases "running s")
    case None
    with bootstrap_no_context [OF assms(1,3)] sv show ?thesis by (simp add: running_ctx_def)
  next
    case (Some r)
    then show ?thesis
      using context_inj [OF assms(1) assms(3), of r] assms(2) [OF Some] sv by (auto simp: running_ctx_def)
  qed
qed

text \<open>Giving the processor to the scheduler's choice, from a state in which every thread can be preempted.\<close>

lemma dispatch_inv:
  assumes "mutex_inv s" "wait_inv s" and core: "sched_core s" and off: "\<And>k. \<not> irq_off_pc (pcs s k)"
    and flag: "\<And>k. flag_ok (pcs s k)" and lock: "\<not> sched_lock s"
    and run: "\<And>i. running s = Some i \<Longrightarrow> i < length (thr s)"
    and j: "j < length (thr s)" "cur s = Some j" "\<not> asleep s j"
    and frm: "frm = running_ctx (bootstrap_ptr (sched s)) (thr s) (running s)"
  shows "sys_inv (do_switch (frm, context_ptr (thr s ! j)) s)"
proof -
  let ?sv = "(saved s)(frm := running s)"
  note sv = saved_stays [OF core run, folded frm]
  have eq: "do_switch (frm, context_ptr (thr s ! j)) s = s\<lparr>saved := ?sv, running := Some j, irq_on := True\<rparr>"
    using sv [OF _ j(1)] by (simp add: do_switch_def Let_def)
  have no: "\<not> after_block (pcs s k)" "\<not> holds_sched (pcs s k)" for k
    using off [of k] after_block_off holds_sched_off by blast+
  have "ctl_inv (s\<lparr>saved := ?sv, running := Some j, irq_on := True\<rparr>)"
    using off flag lock no by (simp add: ctl_inv_def)
  moreover have "sched_inv (s\<lparr>saved := ?sv, running := Some j, irq_on := True\<rparr>)"
  proof -
    have "pcs s k \<noteq> LRelease sw" "pcs s k \<noteq> LSwitch sw" for k sw using no(1) [of k] by auto
    then show ?thesis using core sv j by (simp add: sched_inv_core sched_core_def handoff_def)
  qed
  ultimately show ?thesis
    using assms(1,2) unfolding eq by (simp add: sys_inv_def mutex_inv_def wait_inv_def)
qed

lemma switch_inv:
  assumes inv: "sys_inv s" and run: "running s = Some i" and p: "pcs s i = LSwitch sw"
  shows "\<exists>ft. sw = Some ft \<and> sys_inv (do_switch ft (goto i LHint s))"
proof -
  note D = sys_invD [OF inv run, unfolded p]
  have i: "ctl_inv s" "mutex_inv s" "sched_inv s" "wait_inv s" using inv by (simp_all add: sys_inv_def)
  obtain j where j: "j < length (thr s)" "j \<noteq> i" "cur s = Some j" "\<not> asleep s j"
    and sw: "sw = Some (context_ptr (thr s ! i), context_ptr (thr s ! j))"
    using sched_handoff [OF i(3), of i sw] p by (auto simp: handoff_def)
  let ?s = "goto i LHint s"
  have th: "thr ?s = thr s" "cur ?s = cur s" "asleep ?s = asleep s" "running ?s = running s" "sched ?s = sched s"
    by (simp_all add: goto_def)
  have "sys_inv (do_switch (context_ptr (thr s ! i), context_ptr (thr ?s ! j)) ?s)"
  proof (rule dispatch_inv)
    show "mutex_inv ?s"
      by (rule mutex_move [OF i(2,1) run, of _ LHint]) (use p D in \<open>simp_all add: goto_def lock_change_def\<close>)
    show "wait_inv ?s"
      by (rule wait_move [OF i(4) D(7), of _ LHint]) (use p in \<open>simp_all add: goto_def\<close>)
    show "sched_core ?s" using i(3) D(7) by (auto simp: sched_inv_core sched_core_def goto_def)
    show "\<not> irq_off_pc (pcs ?s k)" for k using others_preemptible [OF i(1) run, of k] by (auto simp: goto_def)
    show "flag_ok (pcs ?s k)" for k using i(1) by (simp add: ctl_inv_def goto_def)
    show "\<not> sched_lock ?s" using D(2) by (simp add: goto_def)
  qed (use j run D(7) in \<open>simp_all add: th running_ctx_def\<close>)
  with sw show ?thesis by (simp add: th)
qed

text \<open>An interrupt finds the scheduler unlocked and hands over to its choice, or changes nothing but the scheduler.\<close>

lemma tick_state:
  assumes "sys_inv s" and "e = eevdf (sched s)" and "tick_prepare e b now = Inr (r, e')"
    and "s' = s\<lparr>sched := (sched s)\<lparr>eevdf := e'\<rparr>, ticks := now\<rparr>"
  shows "thr s' = thr s" and "\<And>k. k < length (thr s) \<Longrightarrow> asleep s' k \<longleftrightarrow> asleep s k"
    and "mutex_inv s'" and "wait_inv s'" and "sched_core s \<Longrightarrow> sched_core s'"
proof -
  have ev: "eevdf_inv e" using assms(1,2) by (simp add: sys_inv_def sched_inv_def)
  show th: "thr s' = thr s" using tick_prepare_frame(1) [OF assms(3) ev] assms(2,4) by simp
  show sl: "asleep s' k \<longleftrightarrow> asleep s k" if "k < length (thr s)" for k
    using is_blocked_tick [OF assms(3) ev] that assms(2,4) by simp
  have upd: "pcs s' = pcs s" "waiters s' = waiters s" "locked s' = locked s" "waiters_lock s' = waiters_lock s"
    "saved s' = saved s" "bootstrap_ptr (sched s') = bootstrap_ptr (sched s)" using assms(4) by simp_all
  show "mutex_inv s'" using assms(1) by (simp add: sys_inv_def mutex_inv_def upd)
  show "wait_inv s'"
    using assms(1) sl unfolding sys_inv_def wait_inv_def th upd by (simp cong: conj_cong)
  show "sched_core s'" if "sched_core s"
    using that sl tick_prepare_frame(2) [OF assms(3) ev] assms(4) unfolding sched_core_def th upd by simp
qed

lemma sys_inv_status [simp]: "sys_inv (s\<lparr>status := x\<rparr>) \<longleftrightarrow> sys_inv s"
  by (simp add: sys_inv_def ctl_inv_def mutex_inv_def sched_inv_def handoff_def wait_inv_def)

lemma irq_on_facts:
  assumes "sys_inv s" and "irq_on s"
  shows "\<not> irq_off_pc (pcs s k)" and "\<not> after_block (pcs s k)" and "\<not> sched_lock s" and "running s = cur s"
    and "running s = Some i \<Longrightarrow> i < length (thr s) \<and> \<not> asleep s i"
proof -
  have i: "ctl_inv s" "sched_inv s" using assms(1) by (simp_all add: sys_inv_def)
  have off: "\<not> irq_off_pc (pcs s k)" for k using i(1) assms(2) unfolding ctl_inv_def by blast
  then have no: "\<not> after_block (pcs s k)" "\<not> holds_sched (pcs s k)" for k
    using after_block_off holds_sched_off by blast+
  show "\<not> irq_off_pc (pcs s k)" "\<not> after_block (pcs s k)" by (rule off, rule no)
  show "\<not> sched_lock s" using i(1) no by (simp add: ctl_inv_def)
  show "running s = cur s" using i(2) no by (cases "running s") (auto simp: sched_inv_core)
  show "running s = Some i \<Longrightarrow> i < length (thr s) \<and> \<not> asleep s i" using i(2) no by (auto simp: sched_inv_core)
qed

lemma still_inv:
  assumes inv: "sys_inv s" and on: "irq_on s" and t: "tick_prepare (eevdf (sched s)) b now = Inr (r, e')"
    and cur: "ev_current e' = cur s"
  shows "sys_inv (s\<lparr>sched := (sched s)\<lparr>eevdf := e'\<rparr>, ticks := now\<rparr>)" (is "sys_inv ?s")
proof -
  note T = tick_state [OF inv refl t refl] and F = irq_on_facts [OF inv on]
  have core: "sched_core s" and ctl: "ctl_inv s" using inv by (simp_all add: sys_inv_def sched_inv_core)
  have "pcs s k \<noteq> LRelease sw" "pcs s k \<noteq> LSwitch sw" for k sw using F(2) [of k] by auto
  then have "sched_inv ?s"
    using T(5) [OF core] T(1,2) F(4,5) cur unfolding sched_inv_core by auto
  moreover have "ctl_inv ?s" using ctl by (simp add: ctl_inv_def)
  ultimately show ?thesis using T(3,4) by (simp add: sys_inv_def)
qed

lemma interrupt_inv:
  assumes inv: "sys_inv s" and on: "irq_on s"
  shows "sys_inv (interrupt now s)"
proof (cases "scheduler_tick_prepare (sched s) now")
  case (Inl e)
  then show ?thesis using inv irq_on_facts(3) [OF inv on] by (simp add: interrupt_def)
next
  case (Inr out)
  note F = irq_on_facts [OF inv on]
  let ?b = "bootstrap_ptr (sched s)"
  obtain r e' where t: "tick_prepare (eevdf (sched s)) ?b now = Inr (r, e')" and out: "out = (r, (sched s)\<lparr>eevdf := e'\<rparr>)"
    using Inr by (auto simp: scheduler_tick_prepare_def rbind_eq_Inr)
  let ?s = "s\<lparr>sched := (sched s)\<lparr>eevdf := e'\<rparr>, ticks := now\<rparr>"
  have ev: "eevdf_inv (eevdf (sched s))" and core: "sched_core s" and ctl: "ctl_inv s"
    using inv by (simp_all add: sys_inv_def sched_inv_core sched_core_def)
  note T = tick_state [OF inv refl t refl]
  show ?thesis
  proof (cases r)
    case None
    then have "interrupt now s = ?s" using Inr out F(3) by (simp add: interrupt_def)
    then show ?thesis using still_inv [OF inv on t] tick_prepare_None [OF t [unfolded None] ev] by simp
  next
    case (Some ft)
    then obtain frm tgt where r: "r = Some (frm, tgt)" by (cases ft) auto
    obtain j where j: "ev_current e' = Some j" "j < length (thr s)" "\<not> is_blocked e' j"
      "frm = running_ctx ?b (thr s) (cur s)" "tgt = context_ptr (thr s ! j)"
      by (rule tick_prepare_Some [OF t [unfolded r] ev]) (rule that)
    show ?thesis
    proof (cases "frm = tgt")
      case True
      then obtain k where k: "running s = Some k" "k < length (thr s)" "context_ptr (thr s ! k) = context_ptr (thr s ! j)"
        using j bootstrap_no_context [OF core j(2)] F(4,5) by (cases "cur s") (auto simp: running_ctx_def)
      then have "k = j" using context_inj [OF core] j(2) by blast
      moreover have "interrupt now s = ?s" using Inr out F(3) r True by (simp add: interrupt_def Let_def)
      ultimately show ?thesis using still_inv [OF inv on t] j(1) k(1) F(4) by simp
    next
      case False
      have "sys_inv (do_switch (frm, context_ptr (thr ?s ! j)) ?s)"
        by (rule dispatch_inv) (use T F j core ctl in \<open>auto simp: ctl_inv_def\<close>)
      then show ?thesis using Inr out F(3) r False T(1) j(5) by (simp add: interrupt_def Let_def)
    qed
  qed
qed

lemma thread_step_inv:
  assumes inv: "sys_inv s" and run: "running s = Some i" and st: "thread_step i s = Inr s'"
  shows "sys_inv s'"
proof -
  have eqs: "\<not> in_drop (pcs s i) \<Longrightarrow> pcs s i \<noteq> Outside \<Longrightarrow> pcs s i \<noteq> Critical \<Longrightarrow> lock_step i (pcs s i) s = Inr s'"
    "in_drop (pcs s i) \<Longrightarrow> drop_step i (pcs s i) s = Inr s'"
    using st by (cases "pcs s i"; simp add: thread_step_def in_drop_def)+
  note L = lock_step_inv [OF inv run eqs(1) refl] and R = drop_step_inv [OF inv run eqs(2) refl]
  show ?thesis
  proof (cases "pcs s i")
    case (LPush tid)
    then show ?thesis using st push_inv [OF inv run] by (simp add: thread_step_def in_drop_def)
  next
    case LBlock
    then show ?thesis using st block_inv [OF inv run] by (auto simp: thread_step_def in_drop_def rbind_eq_Inr)
  next
    case (LRelease sw)
    then show ?thesis using st release_inv [OF inv run] by (simp add: thread_step_def in_drop_def)
  next
    case (LSwitch sw)
    then show ?thesis using st switch_inv [OF inv run LSwitch] by (auto simp: thread_step_def in_drop_def)
  next
    case (DUnblock tid w)
    then show ?thesis using st unblock_inv [OF inv run] by (auto simp: thread_step_def in_drop_def rbind_eq_Inr)
  next
    case DPop
    show ?thesis
    proof (cases "waiters s")
      case Nil
      then show ?thesis using R DPop by (simp add: in_drop_def)
    next
      case (Cons tid ws)
      then show ?thesis using st pop_inv [OF inv run DPop Cons] DPop by (simp add: thread_step_def in_drop_def)
    qed
  next
    case Outside
    then show ?thesis
      using st sys_invD [OF inv run] sys_goto [OF inv run, of s LFast] by (simp add: thread_step_def lock_change_def)
  next
    case Critical
    then show ?thesis
      using st sys_invD [OF inv run] sys_goto [OF inv run, of s DStore] by (simp add: thread_step_def lock_change_def)
  qed (use L R in \<open>simp_all add: in_drop_def\<close>)
qed

lemma sys_inv_reachable:
  assumes "reachable s0 s" and "initial s0"
  shows "sys_inv s"
  using assms
proof (induction rule: reachable.induct)
  case start
  then show ?case by (rule initial_inv)
next
  case (step s s')
  from step.hyps(2) step.IH [OF step.prems] show ?case
    by (cases rule: sys_step.cases) (auto intro: thread_step_inv interrupt_inv)
qed

lemma interrupt_status:
  "\<not> sched_lock s \<Longrightarrow> status s \<noteq> HandlerSpins \<Longrightarrow> status (interrupt now s) \<noteq> HandlerSpins"
  by (auto simp: interrupt_def Let_def do_switch_def split: sum.splits option.splits prod.splits if_splits)

lemma thread_step_status: "thread_step i s = Inr s' \<Longrightarrow> status s' = status s"
proof -
  have lock: "status (snd (irq_lock_step q s)) = status s" and drop: "status (snd (irq_drop_step r s)) = status s" for q r
    by (cases q; simp) (cases r; simp)
  have "lock_step i p s = Inr s' \<Longrightarrow> status s' = status s" for p
    using lock drop
    by (cases p) (auto simp: goto_def do_switch_def release_without_irq_restore_def rbind_eq_Inr Let_def
        split: prod.splits sum.splits option.splits if_splits, (metis snd_conv)+)
  moreover have "drop_step i p s = Inr s' \<Longrightarrow> status s' = status s" for p
    using lock drop
    by (cases p) (auto simp: goto_def rbind_eq_Inr split: prod.splits sum.splits option.splits list.splits if_splits,
        (metis snd_conv)+)
  ultimately show "thread_step i s = Inr s' \<Longrightarrow> status s' = status s"
    by (auto simp: thread_step_def goto_def simp del: lock_step.simps drop_step.simps split: pc.splits if_splits)
qed

end
