(* ===== verification/Sync_Props.thy ===== *)
theory Sync_Props
  imports Sync_Safety
begin

text \<open>
  What the invariant of theory \<open>Sync_Safety\<close> says of \<open>KMutex\<close> and \<open>IrqMutex\<close> on every
  schedule, and one schedule on which \<open>KMutex\<close> hangs the processor.
\<close>

section \<open>Properties\<close>

text \<open>
  C6. Mutual exclusion. Whatever the threads, their weights and the interrupts, at most one thread is between acquiring
  the \<open>KMutex\<close> and releasing it, and the lock bit is set exactly while there is one.
\<close>

theorem kmutex_mutual_exclusion:
  assumes "initial s0" and "reachable s0 s"
  shows "(locked s \<longleftrightarrow> (\<exists>i. holds_mutex (pcs s i)))
    \<and> (\<forall>i j. pcs s i = Critical \<and> pcs s j = Critical \<longrightarrow> i = j)"
proof -
  have "lock_held (locked s) (\<lambda>i. holds_mutex (pcs s i))"
    using sys_inv_reachable [OF assms(2,1)] by (simp add: sys_inv_def mutex_inv_def)
  then show ?thesis unfolding lock_held_def by (metis holds_mutex.simps(2))
qed

text \<open>
  C7. No lost wakeup. Every thread that sleeps on the mutex is in its queue or has been taken out of it by a
  releasing thread that is about to wake it; and while the queue is not empty, the mutex is locked or some
  thread that is awake is on its way to acquire it or to look at the queue. So nobody sleeps
  on a mutex that nobody will ever release.
\<close>

theorem kmutex_no_lost_wakeup:
  assumes "initial s0" and "reachable s0 s"
  shows "(\<forall>i < length (thr s). asleep s i \<longrightarrow>
        tid_of s i \<in> set (waiters s) \<or> (\<exists>k. waking (pcs s k) = Some (tid_of s i)))
    \<and> (waiters s \<noteq> [] \<longrightarrow> locked s \<or> (\<exists>k < length (thr s). \<not> asleep s k \<and> active (pcs s k)))"
  using sys_inv_reachable [OF assms(2,1)] by (simp add: sys_inv_def wait_inv_def)

text \<open>
  C8. The scheduler lock never deadlocks against an interrupt. Whenever interrupts are enabled \<open>SCHEDULER\<close> is free, so
  a handler never spins on it; and the scheduler's idea of the current thread is then the thread that runs,
  which is not blocked.
\<close>

theorem irq_mutex_handler_safe:
  assumes "initial s0" and "reachable s0 s"
  shows "status s \<noteq> HandlerSpins
    \<and> (irq_on s \<longrightarrow> \<not> sched_lock s \<and> running s = cur s \<and> (\<forall>i. running s = Some i \<longrightarrow> \<not> asleep s i))"
proof -
  have "status s \<noteq> HandlerSpins"
    using assms(2)
  proof (induction rule: reachable.induct)
    case start
    then show ?case using assms(1) by (simp add: initial_def Let_def)
  next
    case (step s s')
    have inv: "sys_inv s" by (rule sys_inv_reachable [OF step.hyps(1) assms(1)])
    from step.hyps(2) show ?case
    proof (cases rule: sys_step.cases)
      case (thread i)
      then show ?thesis using thread_step_status [OF thread(3)] by simp
    qed (use interrupt_status irq_on_facts(3) [OF inv] in auto)
  qed
  then show ?thesis
    using irq_on_facts [OF sys_inv_reachable [OF assms(2,1)]] by blast
qed

text \<open>
  With one mutex the branch of \<open>lock\<close> that reports a deadlock is never reached: the holder is awake, so a
  thread that goes to sleep always finds another one to run.
\<close>

theorem kmutex_deadlock_branch_unreachable:
  assumes "initial s0" and "reachable s0 s"
  shows "pcs s i \<noteq> LDeadlock \<and> pcs s i \<noteq> LSwitch None"
proof -
  have inv: "sys_inv s" by (rule sys_inv_reachable [OF assms(2,1)])
  then have "flag_ok (pcs s i)" by (simp add: sys_inv_def ctl_inv_def)
  moreover have "pcs s i \<noteq> LSwitch None"
    using sched_handoff [of s i None] inv by (auto simp: sys_inv_def handoff_def)
  ultimately show ?thesis by auto
qed

section \<open>A schedule that hangs\<close>

text \<open>Events, and the runs they describe.\<close>

datatype event = ThreadE | TimerE | KeyboardE

fun exec_event :: "event \<Rightarrow> system \<Rightarrow> system option" where
  "exec_event ThreadE s =
     (case running s of None \<Rightarrow> None
      | Some i \<Rightarrow> (case thread_step i s of Inl e \<Rightarrow> None | Inr s' \<Rightarrow> Some s'))"
| "exec_event TimerE s = (if irq_on s then Some (interrupt (ticks s + 1) s) else None)"
| "exec_event KeyboardE s = (if irq_on s then Some (interrupt (ticks s) s) else None)"

fun run_events :: "event list \<Rightarrow> system \<Rightarrow> system option" where
  "run_events [] s = Some s"
| "run_events (ev # evs) s =
     (if status s = Live then (case exec_event ev s of None \<Rightarrow> None | Some s' \<Rightarrow> run_events evs s') else None)"

lemma run_events_reachable:
  "reachable s0 s \<Longrightarrow> run_events evs s = Some s' \<Longrightarrow> reachable s0 s'"
proof (induction evs arbitrary: s)
  case Nil
  then show ?case by simp
next
  case (Cons ev evs)
  then obtain s1 where live: "status s = Live" and s1: "exec_event ev s = Some s1" and rest: "run_events evs s1 = Some s'"
    by (auto split: if_splits option.splits)
  have "sys_step s s1"
    using s1 live by (cases ev) (auto split: if_splits option.splits sum.splits intro: sys_step.intros)
  then show ?case using Cons.IH [OF reachable.step [OF Cons.prems(1)] rest] by blast
qed

text \<open>A thread spinning for the queue with interrupts disabled never gets on, and neither does anyone else.\<close>

lemma spin_forever:
  assumes "running s = Some i" and "pcs s i = LWaiters tid" and "waiters_lock s" and "\<not> irq_on s"
    and "reachable s s'"
  shows "s' = s"
  using assms(5)
proof (induction rule: reachable.induct)
  case (step t t')
  from step.hyps(2) step.IH assms(1-4) show ?case
    by (cases rule: sys_step.cases) (auto simp: thread_step_def in_drop_def)
qed simp

text \<open>Three threads of equal weight, none started.\<close>

definition demo_system :: system where
  "demo_system = \<lparr>sched = \<lparr>eevdf = eevdf_spawn (eevdf_spawn (eevdf_spawn eevdf_new (demo_thread 0)) (demo_thread 1)) (demo_thread 2),
       bootstrap_ptr = 0x500\<rparr>,
     sched_lock = False, locked = False, waiters = [], waiters_lock = False, irq_on = True, ticks = 0, running = None,
     saved = (\<lambda>_. None)(0x1000 := Some 0, 0x2000 := Some 1, 0x3000 := Some 2),
     pcs = (\<lambda>_. Outside), status = Live\<rparr>"

lemma demo_initial: "initial demo_system"
  by (auto simp: initial_def demo_system_def Let_def eevdf_spawn_def eevdf_new_def meta_new_def demo_thread_def
      eevdf_inv_def DEFAULT_WEIGHT_def less_Suc_eq numeral_3_eq_3 nth_Cons')

text \<open>
  Thread 0 locks, unlocks and is interrupted with the spin lock of the queue in its hands; thread 1
  locks; thread 2 finds the mutex taken.
\<close>

definition hang_events :: "event list" where
  "hang_events = [TimerE, ThreadE, ThreadE, ThreadE, ThreadE, ThreadE,
     TimerE, ThreadE, ThreadE,
     TimerE, ThreadE, ThreadE, ThreadE, ThreadE, ThreadE, ThreadE, ThreadE]"

lemmas sync_eval = thread_step_def in_drop_def goto_def do_switch_def interrupt_def scheduler_tick_prepare_def
  scheduler_current_thread_id_def current_thread_id_def scheduler_block_current_def scheduler_unblock_thread_def
  block_current_and_prepare_switch_def unblock_thread_def release_without_irq_restore_def

lemma hang_run:
  "\<exists>s. run_events hang_events demo_system = Some s \<and> running s = Some 2 \<and> pcs s 2 = LWaiters 2 \<and> pcs s 0 = DPop
     \<and> waiters_lock s \<and> \<not> irq_on s \<and> status s = Live"
  by (simp add: hang_events_def demo_system_def eevdf_new_def sync_eval eevdf_eval)

text \<open>
  C9. The mutex can hang the machine. \<open>drop\<close> keeps the spin lock of the queue for the whole \<open>if let\<close>, with
  interrupts enabled until it locks the scheduler. If it is preempted there and a second thread takes the mutex,
  a third one spins for the queue's lock with interrupts disabled: from that state
  no other state is reachable, so no thread ever runs again.
\<close>

theorem kmutex_can_hang:
  "\<exists>s. initial demo_system \<and> reachable demo_system s \<and> running s = Some 2 \<and> pcs s 2 = LWaiters 2 \<and> pcs s 0 = DPop
     \<and> status s = Live \<and> \<not> irq_on s \<and> {s'. reachable s s'} = {s}"
proof -
  obtain s where s: "run_events hang_events demo_system = Some s" "running s = Some 2" "pcs s 2 = LWaiters 2"
    "pcs s 0 = DPop" "waiters_lock s" "\<not> irq_on s" "status s = Live"
    using hang_run by blast
  have "{s'. reachable s s'} = {s}"
    using spin_forever [OF s(2,3,5,6)] by (auto intro: reachable.start)
  with s demo_initial run_events_reachable [OF reachable.start s(1)] show ?thesis by blast
qed

section \<open>Examples\<close>

text \<open>Thread 0 holds the mutex, thread 1 has gone to sleep on it.\<close>

definition contend_events :: "event list" where
  "contend_events = [TimerE, ThreadE, ThreadE, TimerE, ThreadE, ThreadE, ThreadE, ThreadE, ThreadE, ThreadE, ThreadE,
     ThreadE, ThreadE, ThreadE, ThreadE, ThreadE, ThreadE]"

lemma contend_run:
  "\<exists>s. run_events contend_events demo_system = Some s \<and> asleep s 1 \<and> length (thr s) = 3 \<and> tid_of s 1 = 1 \<and> waiters s = [1]
     \<and> pcs s 0 = Critical \<and> pcs s 1 = LHint \<and> irq_on s \<and> running s = Some 2"
  by (simp add: contend_events_def demo_system_def eevdf_new_def sync_eval eevdf_eval is_blocked_def)

lemma contend_reachable:
  obtains s where "reachable demo_system s" and "asleep s 1" and "length (thr s) = 3" and "tid_of s 1 = 1" and "waiters s = [1]"
    and "pcs s 0 = Critical" and "pcs s 1 = LHint" and "irq_on s" and "running s = Some 2"
  using contend_run run_events_reachable [OF reachable.start] that by blast

theorem kmutex_mutual_exclusion_witness:
  "initial demo_system \<and> (\<exists>s. reachable demo_system s \<and> pcs s 0 = Critical \<and> locked s \<and> pcs s 1 \<noteq> Critical)"
proof -
  obtain s where s: "reachable demo_system s" "pcs s 0 = Critical" by (rule contend_reachable)
  have "holds_mutex (pcs s 0)" using s(2) by simp
  then show ?thesis
    using kmutex_mutual_exclusion [OF demo_initial s(1)] s demo_initial zero_neq_one by blast
qed

theorem kmutex_no_lost_wakeup_witness:
  "initial demo_system \<and> (\<exists>s. reachable demo_system s \<and> asleep s 1
     \<and> (tid_of s 1 \<in> set (waiters s) \<or> (\<exists>k. waking (pcs s k) = Some (tid_of s 1))))"
proof -
  obtain s where s: "reachable demo_system s" "asleep s 1" "length (thr s) = 3" by (rule contend_reachable)
  then have "1 < length (thr s)" by simp
  with kmutex_no_lost_wakeup [OF demo_initial s(1)] s demo_initial show ?thesis by blast
qed

theorem irq_mutex_handler_safe_witness:
  "initial demo_system \<and> (\<exists>s. reachable demo_system s \<and> irq_on s \<and> \<not> sched_lock s \<and> running s = cur s \<and> running s = Some 2)"
proof -
  obtain s where s: "reachable demo_system s" "irq_on s" "running s = Some 2" by (rule contend_reachable)
  with irq_mutex_handler_safe [OF demo_initial s(1)] demo_initial show ?thesis by blast
qed

theorem kmutex_deadlock_branch_unreachable_witness:
  "initial demo_system \<and> (\<exists>s. reachable demo_system s \<and> asleep s 1 \<and> pcs s 2 \<noteq> LDeadlock)"
proof -
  obtain s where s: "reachable demo_system s" "asleep s 1" by (rule contend_reachable)
  with kmutex_deadlock_branch_unreachable [OF demo_initial s(1), of 2] demo_initial show ?thesis by blast
qed

end
