(* ===== verification/Alloc_Interface.thy ===== *)
theory Alloc_Interface
  imports Rust_Prelude "HOL-Library.Multiset"
begin

text \<open>
  What the allocators of \<open>src/allocator.rs\<close> and \<open>src/allocator/\<close> share: \<open>align_up\<close>, the part of
  \<open>core::alloc::Layout\<close> they use, blocks of memory as intervals of addresses, and the contract of a
  heap, as a locale, with what follows from it for whole histories of calls.
\<close>

section \<open>Alignment\<close>

definition align_up :: "usize \<Rightarrow> usize \<Rightarrow> usize res" where
  "align_up addr align =
     rbind (add_ovf addr align) (\<lambda>x. rbind (sub_ovf x 1) (\<lambda>y. rbind (sub_ovf align 1) (\<lambda>z. Inr (y AND NOT z))))"

lemma unat_exp: "k < 64 \<Longrightarrow> unat (2 ^ k :: u64) = 2 ^ k"
proof -
  assume "k < 64"
  have "(2::u64) ^ k = of_nat (2 ^ k)" by simp
  then have "unat ((2::u64) ^ k) = 2 ^ k mod 2 ^ 64" by (simp only: unat_of_nat) simp
  also have "\<dots> = 2 ^ k" using power_strict_increasing [OF \<open>k < 64\<close>, of "2::nat"] by (rule mod_less) simp
  finally show ?thesis .
qed

lemma and_not_mask_unat: "unat (x AND NOT (mask k) :: 'a::len word) = unat x - unat x mod 2 ^ k"
proof -
  have "x - take_bit k x = x AND NOT (take_bit k x)"
    by (rule disjunctive_diff) (simp add: bit_take_bit_iff)
  also have "\<dots> = x AND NOT (mask k)"
    by (rule bit_eqI) (auto simp: bit_simps)
  finally have "unat (x AND NOT (mask k)) = unat (x - take_bit k x)" by simp
  moreover have t: "unat (take_bit k x) = unat x mod 2 ^ k"
    unfolding unsigned_take_bit_eq by (rule take_bit_nat_def)
  moreover have "take_bit k x \<le> x" unfolding word_le_nat_alt t by simp
  ultimately show ?thesis by (simp only: unat_sub)
qed

text \<open>The least multiple of \<open>k\<close> from \<open>n\<close> on.\<close>

definition round_up :: "nat \<Rightarrow> nat \<Rightarrow> nat" where
  "round_up n k = (n + k - 1) div k * k"

lemma round_up_dvd [simp]: "k dvd round_up n k"
  by (simp add: round_up_def)

lemma round_up_bounds:
  assumes "0 < k"
  shows "n \<le> round_up n k" and "round_up n k < n + k"
proof -
  have "n + k - 1 = (n + k - 1) div k * k + (n + k - 1) mod k" by (rule div_mult_mod_eq [symmetric])
  moreover have "(n + k - 1) mod k < k" using assms by simp
  ultimately show "n \<le> round_up n k" and "round_up n k < n + k" using assms unfolding round_up_def by linarith+
qed

lemma round_up_least:
  assumes "0 < k" and "n \<le> m" and "k dvd m"
  shows "round_up n k \<le> m"
proof -
  from assms(3) obtain q where q: "m = q * k" by (metis dvdE mult.commute)
  have "(n + k - 1) div k \<le> (m + k - 1) div k" using assms(2) by (intro div_le_mono) simp
  also have "m + k - 1 = (k - 1) + q * k" using assms(1) q by simp
  also have "\<dots> div k = q" using assms(1) by (subst div_mult_self1) simp_all
  finally show ?thesis by (simp add: round_up_def q)
qed

lemma round_up_id: "0 < k \<Longrightarrow> k dvd n \<Longrightarrow> round_up n k = n"
  using round_up_least [of k n n] round_up_bounds(1) [of k n] by simp

lemma mask_round_up:
  fixes addr align :: u64
  assumes align: "align = 2 ^ k" "k < 64" and small: "unat addr + unat align < 2 ^ 64"
  shows "unat ((addr + align - 1) AND NOT (align - 1)) = round_up (unat addr) (unat align)"
proof -
  have ua: "unat align = 2 ^ k" using align by (simp add: unat_exp)
  have s: "unat (addr + align) = unat addr + 2 ^ k" using small ua by (simp add: unat_add_no_ovf)
  moreover have "1 \<le> addr + align" unfolding word_le_nat_alt s by (simp add: Suc_le_eq)
  ultimately have "unat (addr + align - 1) = unat addr + unat align - 1" by (simp add: unat_sub ua)
  moreover have "align - 1 = mask k" using align by (simp add: mask_eq_exp_minus_1)
  ultimately show ?thesis by (simp add: and_not_mask_unat round_up_def ua minus_mod_eq_div_mult)
qed

lemma align_up_spec:
  assumes align: "align = 2 ^ k" "k < 64" and small: "unat addr + unat align < 2 ^ 64"
  obtains a where "align_up addr align = Inr a" and "unat a = round_up (unat addr) (unat align)"
    and "unat align dvd unat a" and "addr \<le> a" and "unat a < unat addr + unat align"
proof -
  have pos: "0 < unat align" using align by (simp add: unat_exp)
  have "align_up addr align = Inr ((addr + align - 1) AND NOT (align - 1))"
    using small pos
    by (simp add: align_up_def add_ovf_def sub_ovf_def word_le_nat_alt unat_add_no_ovf Suc_le_eq)
  with that mask_round_up [OF assms] round_up_bounds [OF pos, of "unat addr"] show ?thesis
    by (simp add: word_le_nat_alt)
qed

section \<open>Layouts\<close>

record Layout =
  lay_size :: usize
  lay_align :: usize

definition is_power_of_two :: "usize \<Rightarrow> bool" where
  "is_power_of_two x \<longleftrightarrow> list_ex (\<lambda>k. x = 2 ^ k) [0..<64]"

definition ISIZE_MAX :: usize where "ISIZE_MAX = 0x7FFFFFFFFFFFFFFF"

definition from_size_align :: "usize \<Rightarrow> usize \<Rightarrow> Layout option" where
  "from_size_align sz al =
     (if is_power_of_two al \<and> sz \<le> ISIZE_MAX + 1 - al then Some \<lparr>lay_size = sz, lay_align = al\<rparr> else None)"

definition layout_align_to :: "Layout \<Rightarrow> usize \<Rightarrow> Layout option" where
  "layout_align_to l al = from_size_align (lay_size l) (max (lay_align l) al)"

definition pad_to_align :: "Layout \<Rightarrow> Layout" where
  "pad_to_align l = l\<lparr>lay_size := (lay_size l + lay_align l - 1) AND NOT (lay_align l - 1)\<rparr>"

text \<open>The layouts that exist: a power of two, and a size that can be rounded up to it.\<close>

definition layout_ok :: "Layout \<Rightarrow> bool" where
  "layout_ok l \<longleftrightarrow> is_power_of_two (lay_align l) \<and> lay_size l \<le> ISIZE_MAX + 1 - lay_align l"

lemma is_power_of_two_exp: "is_power_of_two x \<longleftrightarrow> (\<exists>k < 64. x = 2 ^ k)"
  by (auto simp: is_power_of_two_def list_ex_iff)

lemma layout_okE:
  assumes "layout_ok l"
  obtains k where "k < 64" and "lay_align l = 2 ^ k" and "unat (lay_align l) = 2 ^ k"
    and "unat (lay_size l) + 2 ^ k \<le> 2 ^ 63"
proof -
  obtain k where k: "k < 64" "lay_align l = 2 ^ k" using assms by (auto simp: layout_ok_def is_power_of_two_exp)
  have u: "unat (lay_align l) = 2 ^ k" using k by (simp add: unat_exp)
  have "(2::nat) ^ k \<le> 2 ^ 63" using k(1) by (intro power_increasing) simp_all
  then have "unat (ISIZE_MAX + 1 - lay_align l) = 2 ^ 63 - 2 ^ k"
    by (simp add: ISIZE_MAX_def unat_sub word_le_nat_alt u)
  then have "unat (lay_size l) + 2 ^ k \<le> 2 ^ 63"
    using assms \<open>2 ^ k \<le> 2 ^ 63\<close> le_diff_conv2 by (metis layout_ok_def word_le_nat_alt)
  with that k u show ?thesis by blast
qed

lemma from_size_align_Some:
  "from_size_align sz al = Some l \<longleftrightarrow> l = \<lparr>lay_size = sz, lay_align = al\<rparr> \<and> layout_ok l"
  by (auto simp: from_size_align_def layout_ok_def)

section \<open>Blocks\<close>

type_synonym block = "usize \<times> usize" \<comment> \<open>address and size\<close>

definition bytes :: "block \<Rightarrow> nat set" where
  "bytes b = {unat (fst b) ..< unat (fst b) + unat (snd b)}"

text \<open>Blocks that pairwise share no byte and all lie in the heap.\<close>

definition disjoint_in :: "nat set \<Rightarrow> block list \<Rightarrow> bool" where
  "disjoint_in H bs \<longleftrightarrow> (\<forall>b \<in> set bs. bytes b \<subseteq> H) \<and> sorted_wrt (\<lambda>a b. bytes a \<inter> bytes b = {}) bs"

lemma disjoint_in_Nil [simp]: "disjoint_in H []"
  by (simp add: disjoint_in_def)

lemma disjoint_in_mono: "disjoint_in H bs \<Longrightarrow> H \<subseteq> K \<Longrightarrow> disjoint_in K bs"
  by (auto simp: disjoint_in_def)

lemma disjoint_in_Cons:
  "disjoint_in H (b # bs) \<longleftrightarrow> bytes b \<subseteq> H \<and> (\<forall>c \<in> set bs. bytes b \<inter> bytes c = {}) \<and> disjoint_in H bs"
  by (auto simp: disjoint_in_def)

lemma disjoint_in_append:
  "disjoint_in H (as @ bs) \<longleftrightarrow>
     disjoint_in H as \<and> disjoint_in H bs \<and> (\<forall>a \<in> set as. \<forall>b \<in> set bs. bytes a \<inter> bytes b = {})"
  by (auto simp: disjoint_in_def sorted_wrt_append)

lemma disjoint_in_mset:
  assumes "mset as = mset bs"
  shows "disjoint_in H as \<longleftrightarrow> disjoint_in H bs"
proof -
  have imp: "disjoint_in H xs \<Longrightarrow> disjoint_in H ys" if "mset xs = mset ys" for xs ys
    using that
  proof (induction xs arbitrary: ys)
    case (Cons x xs)
    then obtain us vs where ys: "ys = us @ x # vs"
      by (metis in_set_conv_decomp list.set_intros(1) set_mset_mset)
    with Cons.prems(2) have m: "mset xs = mset (us @ vs)" by simp
    have "disjoint_in H (us @ vs)" using Cons.IH [OF _ m] Cons.prems(1) by (simp add: disjoint_in_Cons)
    moreover have "set xs = set us \<union> set vs" using mset_eq_setD [OF m] by simp
    ultimately show ?case
      using Cons.prems(1) by (auto simp: ys disjoint_in_append disjoint_in_Cons Int_commute)
  qed simp
  show ?thesis using imp [OF assms] imp [OF assms [symmetric]] by blast
qed

lemma disjoint_in_shrink:
  assumes "disjoint_in H (map f xs)" and "\<And>x. x \<in> set xs \<Longrightarrow> bytes (g x) \<subseteq> bytes (f x)"
  shows "disjoint_in H (map g xs)"
  using assms
proof (induction xs)
  case (Cons x xs)
  have "bytes (g x) \<inter> bytes (g y) = {}" if "y \<in> set xs" for y
  proof -
    have "bytes (f x) \<inter> bytes (f y) = {}" using Cons.prems(1) that by (simp add: disjoint_in_Cons)
    with Cons.prems(2) [of x] Cons.prems(2) [of y] that show ?thesis by auto
  qed
  with Cons Cons.prems(2) [of x] show ?case by (auto simp: disjoint_in_Cons)
qed simp

lemma disjoint_in_length:
  assumes "disjoint_in H bs" and "finite H" and "\<forall>b \<in> set bs. 0 < snd b"
  shows "length bs \<le> card H"
  using assms
proof (induction bs arbitrary: H)
  case (Cons b bs)
  have b: "unat (fst b) \<in> bytes b" using Cons.prems(3) by (simp add: bytes_def word_less_nat_alt)
  then have "unat (fst b) \<in> H" and "disjoint_in (H - {unat (fst b)}) bs"
    using Cons.prems(1) by (auto simp: disjoint_in_def)
  with Cons.IH [of "H - {unat (fst b)}"] Cons.prems have "length bs \<le> card (H - {unat (fst b)})" by simp
  then have "length bs < card H"
    using card_Diff1_less [OF Cons.prems(2) \<open>unat (fst b) \<in> H\<close>] by (rule le_less_trans)
  then show ?case by simp
qed simp

section \<open>The contract of a heap\<close>

type_synonym live = "(usize \<times> Layout) list"

definition live_block :: "usize \<times> Layout \<Rightarrow> block" where
  "live_block x = (fst x, lay_size (snd x))"

lemma live_block_simps [simp]: "live_block (p, l) = (p, lay_size l)"
  by (simp add: live_block_def)

definition valid_request :: "Layout \<Rightarrow> bool" where
  "valid_request l \<longleftrightarrow> layout_ok l \<and> 0 < lay_size l"

text \<open>What a caller may assume of an outstanding allocation.\<close>

definition live_ok :: "usize \<times> Layout \<Rightarrow> bool" where
  "live_ok x \<longleftrightarrow> fst x \<noteq> 0 \<and> unat (lay_align (snd x)) dvd unat (fst x) \<and> valid_request (snd x)"

lemma live_ok_nonempty: "list_all live_ok live \<Longrightarrow> \<forall>b \<in> set (map live_block live). 0 < snd b"
  by (auto simp: list_all_iff live_block_def live_ok_def valid_request_def)

text \<open>
  A client of the heap: it allocates, frees its \<open>n\<close>-th outstanding allocation, and writes into the
  memory it owns. \<open>None\<close> is a call that does not return.
\<close>

datatype 'w call = Alloc Layout | Dealloc nat | Write 'w

fun heap_run :: "(Layout \<Rightarrow> 's \<Rightarrow> (usize \<times> 's) res option) \<Rightarrow> (usize \<Rightarrow> Layout \<Rightarrow> 's \<Rightarrow> 's res) \<Rightarrow>
    ('w \<Rightarrow> live \<Rightarrow> 's \<Rightarrow> 's) \<Rightarrow> 'w call list \<Rightarrow> 's \<times> live \<Rightarrow> ('s \<times> live) res option" where
  "heap_run al de wr [] x = Some (Inr x)"
| "heap_run al de wr (Alloc l # cs) (s, live) =
     (case al l s of
        None \<Rightarrow> None
      | Some (Inl e) \<Rightarrow> Some (Inl e)
      | Some (Inr (p, s')) \<Rightarrow> heap_run al de wr cs (s', if p = 0 then live else (p, l) # live))"
| "heap_run al de wr (Dealloc n # cs) (s, live) =
     (if n < length live
      then case de (fst (live ! n)) (snd (live ! n)) s of
             Inl e \<Rightarrow> Some (Inl e)
           | Inr s' \<Rightarrow> heap_run al de wr cs (s', take n live @ drop (Suc n) live)
      else heap_run al de wr cs (s, live))"
| "heap_run al de wr (Write w # cs) (s, live) = heap_run al de wr cs (wr w live s, live)"

fun call_ok :: "(Layout \<Rightarrow> bool) \<Rightarrow> 'w call \<Rightarrow> bool" where
  "call_ok request (Alloc l) \<longleftrightarrow> request l"
| "call_ok request _ \<longleftrightarrow> True"

text \<open>
  The contract: on states that represent the outstanding allocations \<open>live\<close>, a request returns,
  with null or with a new allocation, every outstanding allocation can be freed, and the client's
  writes into its own memory do no harm; the outstanding allocations are aligned and disjoint.
\<close>

locale heap_allocator =
  fixes H :: "nat set"
    and request :: "Layout \<Rightarrow> bool"
    and inv :: "'s \<Rightarrow> live \<Rightarrow> bool"
    and alloc :: "Layout \<Rightarrow> 's \<Rightarrow> (usize \<times> 's) res option"
    and dealloc :: "usize \<Rightarrow> Layout \<Rightarrow> 's \<Rightarrow> 's res"
    and client_write :: "'w \<Rightarrow> live \<Rightarrow> 's \<Rightarrow> 's"
  assumes alloc_law: "inv s live \<Longrightarrow> request l \<Longrightarrow>
      \<exists>p s'. alloc l s = Some (Inr (p, s')) \<and> inv s' (if p = 0 then live else (p, l) # live)"
    and dealloc_law: "inv s (us @ (p, l) # vs) \<Longrightarrow> \<exists>s'. dealloc p l s = Inr s' \<and> inv s' (us @ vs)"
    and write_law: "inv s live \<Longrightarrow> inv (client_write w live s) live"
    and inv_live: "inv s live \<Longrightarrow> disjoint_in H (map live_block live) \<and> list_all live_ok live"
begin

lemma run_inv:
  "inv s live \<Longrightarrow> list_all (call_ok request) cs \<Longrightarrow>
    \<exists>s' live'. heap_run alloc dealloc client_write cs (s, live) = Some (Inr (s', live')) \<and> inv s' live'"
proof (induction cs arbitrary: s live)
  case (Cons c cs)
  show ?case
  proof (cases c)
    case (Alloc l)
    then obtain p s' where "alloc l s = Some (Inr (p, s'))" and "inv s' (if p = 0 then live else (p, l) # live)"
      using alloc_law [OF Cons.prems(1), of l] Cons.prems(2) by auto
    with Cons.IH Cons.prems(2) Alloc show ?thesis by simp
  next
    case (Dealloc n)
    show ?thesis
    proof (cases "n < length live")
      case True
      then have "live = take n live @ (fst (live ! n), snd (live ! n)) # drop (Suc n) live"
        by (simp add: id_take_nth_drop)
      with dealloc_law Cons.prems(1) obtain s' where "dealloc (fst (live ! n)) (snd (live ! n)) s = Inr s'"
        and "inv s' (take n live @ drop (Suc n) live)" by metis
      with Cons.IH Cons.prems(2) Dealloc True show ?thesis by simp
    next
      case False
      with Cons Dealloc show ?thesis by simp
    qed
  next
    case (Write w)
    with Cons.IH [OF write_law [OF Cons.prems(1)]] Cons.prems(2) show ?thesis by simp
  qed
qed auto

lemma run_safe:
  assumes "inv s live" and "list_all (call_ok request) cs"
  shows "\<exists>s' live'. heap_run alloc dealloc client_write cs (s, live) = Some (Inr (s', live'))
           \<and> disjoint_in H (map live_block live') \<and> list_all live_ok live'"
  using run_inv [OF assms] inv_live by meson

end

definition demo_calls :: "'w call list" where
  "demo_calls =
     [Alloc \<lparr>lay_size = 24, lay_align = 8\<rparr>, Alloc \<lparr>lay_size = 3, lay_align = 64\<rparr>, Dealloc 1,
      Alloc \<lparr>lay_size = 5000, lay_align = 16\<rparr>]"

lemma demo_calls_ok: "list_all (call_ok valid_request) demo_calls"
  by (simp add: demo_calls_def) code_simp

section \<open>The heap's range\<close>

definition HEAP_START :: usize where "HEAP_START = 0x444444440000"

definition HEAP_SIZE :: usize where "HEAP_SIZE = 56 * 1024 * 1024"

definition heap_range :: "usize \<Rightarrow> usize \<Rightarrow> nat set" where
  "heap_range st sz = {unat st ..< unat st + unat sz}"

definition range_ok :: "usize \<Rightarrow> usize \<Rightarrow> bool" where
  "range_ok st sz \<longleftrightarrow> 0 < st \<and> unat st + unat sz \<le> 2 ^ 63"

lemma kernel_heap_ok: "range_ok HEAP_START HEAP_SIZE"
  by (simp add: range_ok_def HEAP_START_def HEAP_SIZE_def)

lemma range_okD:
  assumes "range_ok st sz"
  shows "0 < st" and "unat (st + sz) = unat st + unat sz" and "unat st + unat sz \<le> 2 ^ 63"
  using assms by (simp_all add: range_ok_def unat_add_no_ovf)

section \<open>Chains of nodes\<close>

text \<open>The nodes met by following \<open>next\<close> pointers.\<close>

fun chain :: "(usize \<Rightarrow> usize option) \<Rightarrow> usize option \<Rightarrow> usize list \<Rightarrow> bool" where
  "chain nxt p [] \<longleftrightarrow> p = None"
| "chain nxt p (a # as) \<longleftrightarrow> p = Some a \<and> chain nxt (nxt a) as"

lemma chain_cong: "chain nxt p as \<Longrightarrow> (\<And>a. a \<in> set as \<Longrightarrow> nxt' a = nxt a) \<Longrightarrow> chain nxt' p as"
  by (induction as arbitrary: p) auto

lemma chain_None [simp]: "chain nxt None as \<longleftrightarrow> as = []"
  by (cases as) auto

lemma chain_Some: "chain nxt (Some a) as \<longleftrightarrow> (\<exists>bs. as = a # bs \<and> chain nxt (nxt a) bs)"
  by (cases as) auto

end
