(* ===== verification/Bump.thy ===== *)
theory Bump
  imports Alloc_Interface
begin

text \<open>
  The bump allocator (\<open>src/allocator/bump.rs\<close>). It meets the contract of a heap on every range that
  keeps clear of address zero and of the upper half of the address space.
\<close>

section \<open>The allocator\<close>

record BumpAllocator =
  heap_start :: usize
  heap_end :: usize
  bump_next :: usize
  allocations :: usize

definition bump_new :: BumpAllocator where
  "bump_new = \<lparr>heap_start = 0, heap_end = 0, bump_next = 0, allocations = 0\<rparr>"

definition bump_init :: "usize \<Rightarrow> usize \<Rightarrow> BumpAllocator \<Rightarrow> BumpAllocator res" where
  "bump_init st sz bump =
     rbind (add_ovf st sz) (\<lambda>e. Inr (bump\<lparr>heap_start := st, heap_end := e, bump_next := st, allocations := 0\<rparr>))"

definition bump_alloc :: "Layout \<Rightarrow> BumpAllocator \<Rightarrow> (usize \<times> BumpAllocator) res" where
  "bump_alloc layout bump =
     rbind (align_up (bump_next bump) (lay_align layout)) (\<lambda>alloc_start.
       case checked_add alloc_start (lay_size layout) of
         None \<Rightarrow> Inr (0, bump)
       | Some alloc_end \<Rightarrow>
           if heap_end bump < alloc_end then Inr (0, bump)
           else rbind (add_ovf (allocations bump) 1) (\<lambda>n.
                  Inr (alloc_start, bump\<lparr>bump_next := alloc_end, allocations := n\<rparr>)))"

definition bump_dealloc :: "usize \<Rightarrow> Layout \<Rightarrow> BumpAllocator \<Rightarrow> BumpAllocator res" where
  "bump_dealloc ptr layout bump =
     rbind (sub_ovf (allocations bump) 1) (\<lambda>n.
       let bump = bump\<lparr>allocations := n\<rparr> in
       Inr (if n = 0 then bump\<lparr>bump_next := heap_start bump\<rparr> else bump))"

section \<open>The invariant\<close>

text \<open>
  The outstanding allocations are counted, and lie below the bump pointer, which is back at the start
  of the heap when there are none.
\<close>

definition bump_inv :: "usize \<Rightarrow> usize \<Rightarrow> BumpAllocator \<Rightarrow> live \<Rightarrow> bool" where
  "bump_inv st sz b live \<longleftrightarrow>
     heap_start b = st \<and> heap_end b = st + sz \<and> st \<le> bump_next b \<and> bump_next b \<le> heap_end b \<and>
     unat (allocations b) = length live \<and> (live = [] \<longrightarrow> bump_next b = st) \<and> list_all live_ok live \<and>
     disjoint_in {unat st ..< unat (bump_next b)} (map live_block live)"

lemma bump_init_inv:
  "range_ok st sz \<Longrightarrow> \<exists>b'. bump_init st sz b = Inr b' \<and> bump_inv st sz b' []"
  by (auto simp: bump_init_def bump_inv_def add_ovf_def word_le_nat_alt range_okD dest: range_okD)

text \<open>An allocation succeeds exactly when the rounded-up block still fits.\<close>

lemma bump_alloc_cases:
  assumes inv: "bump_inv st sz b live" and rng: "range_ok st sz" and l: "valid_request l"
  obtains a where "align_up (bump_next b) (lay_align l) = Inr a" and "bump_next b \<le> a"
    and "unat (lay_align l) dvd unat a"
    and "unat st + unat sz < unat a + unat (lay_size l)" and "bump_alloc l b = Inr (0, b)"
  | a where "align_up (bump_next b) (lay_align l) = Inr a" and "bump_next b \<le> a"
    and "unat (lay_align l) dvd unat a" and "unat a + unat (lay_size l) \<le> unat st + unat sz"
    and "unat (a + lay_size l) = unat a + unat (lay_size l)"
    and "unat (allocations b + 1) = length live + 1"
    and "bump_alloc l b = Inr (a, b\<lparr>bump_next := a + lay_size l, allocations := allocations b + 1\<rparr>)"
proof -
  obtain k where k: "k < 64" "lay_align l = 2 ^ k" "unat (lay_align l) = 2 ^ k" "unat (lay_size l) + 2 ^ k \<le> 2 ^ 63"
    using l layout_okE unfolding valid_request_def by blast
  have nx: "unat (bump_next b) \<le> unat st + unat sz"
    using inv range_okD(2) [OF rng] by (auto simp: bump_inv_def word_le_nat_alt)
  have "unat (bump_next b) + unat (lay_align l) < 2 ^ 64"
    using nx range_okD(3) [OF rng] k l by (simp add: valid_request_def word_less_nat_alt)
  from align_up_spec [OF k(2,1) this] obtain a
    where a: "align_up (bump_next b) (lay_align l) = Inr a" "unat (lay_align l) dvd unat a" "bump_next b \<le> a"
      "unat a < unat (bump_next b) + unat (lay_align l)" .
  have small: "unat a + unat (lay_size l) < 2 ^ 64"
    using a(4) k nx range_okD(3) [OF rng] by simp
  have "length live \<le> card {unat st ..< unat (bump_next b)}"
    using inv disjoint_in_length [OF _ _ live_ok_nonempty] by (fastforce simp: bump_inv_def)
  also have "\<dots> < 2 ^ 63" using nx range_okD(1,3) [OF rng] by (simp add: word_less_nat_alt)
  finally have count: "length live < 2 ^ 63" .
  then have n: "unat (allocations b) + 1 < 2 ^ 64" using inv by (simp add: bump_inv_def)
  show ?thesis
  proof (cases "unat st + unat sz < unat a + unat (lay_size l)")
    case True
    then have "bump_alloc l b = Inr (0, b)"
      using small a(1) inv range_okD(2) [OF rng]
      by (simp add: bump_alloc_def checked_add_def bump_inv_def word_less_nat_alt unat_add_no_ovf)
    with True a k that(1) show ?thesis by simp
  next
    case False
    then have "bump_alloc l b = Inr (a, b\<lparr>bump_next := a + lay_size l, allocations := allocations b + 1\<rparr>)"
      using small a(1) inv range_okD(2) [OF rng] n
      by (simp add: bump_alloc_def checked_add_def bump_inv_def word_less_nat_alt unat_add_no_ovf add_ovf_def)
    with False a k small n inv that(2) show ?thesis by (simp add: unat_add_no_ovf bump_inv_def)
  qed
qed

lemma bump_alloc_inv:
  assumes inv: "bump_inv st sz b live" and rng: "range_ok st sz" and l: "valid_request l"
  shows "\<exists>p b'. bump_alloc l b = Inr (p, b') \<and> bump_inv st sz b' (if p = 0 then live else (p, l) # live)"
proof (cases rule: bump_alloc_cases [OF inv rng l])
  case (1 a)
  with inv show ?thesis by simp
next
  case (2 a)
  have "0 < a" using 2(2) inv range_okD(1) [OF rng] by (simp add: bump_inv_def word_less_nat_alt word_le_nat_alt)
  then have "live_ok (a, l)" using 2(3) l by (simp add: live_ok_def word_neq_0_conv)
  moreover have "disjoint_in {unat st ..< unat a + unat (lay_size l)} ((a, lay_size l) # map live_block live)"
    unfolding disjoint_in_Cons
  proof (intro conjI ballI)
    show "bytes (a, lay_size l) \<subseteq> {unat st ..< unat a + unat (lay_size l)}"
      using 2(2) inv by (auto simp: bytes_def bump_inv_def word_le_nat_alt)
    show "disjoint_in {unat st ..< unat a + unat (lay_size l)} (map live_block live)"
      using 2(2) inv by (auto simp: bump_inv_def word_le_nat_alt elim!: disjoint_in_mono)
    fix c assume "c \<in> set (map live_block live)"
    with inv have "bytes c \<subseteq> {unat st ..< unat (bump_next b)}" by (auto simp: bump_inv_def disjoint_in_def)
    then show "bytes (a, lay_size l) \<inter> bytes c = {}"
      using 2(2) by (fastforce simp: bytes_def word_le_nat_alt)
  qed
  ultimately show ?thesis
    using 2 inv \<open>0 < a\<close> range_okD(2) [OF rng] by (auto simp: bump_inv_def word_le_nat_alt)
qed

lemma bump_dealloc_inv:
  assumes inv: "bump_inv st sz b (us @ (p, l) # vs)"
  shows "\<exists>b'. bump_dealloc p l b = Inr b' \<and> bump_inv st sz b' (us @ vs)"
proof -
  have n: "unat (allocations b) = length us + length vs + 1" using inv by (simp add: bump_inv_def)
  then have one: "1 \<le> allocations b" by (simp add: word_le_nat_alt)
  then have u: "unat (allocations b - 1) = length us + length vs" using n by (simp add: unat_sub)
  have d: "disjoint_in {unat st ..< unat (bump_next b)} (map live_block (us @ vs))"
    using inv by (auto simp: bump_inv_def disjoint_in_append disjoint_in_Cons)
  show ?thesis
  proof (cases "us @ vs = []")
    case True
    then have "unat (allocations b) = unat (1 :: u64)" using n by simp
    then have "allocations b = 1" by (simp only: word_unat_eq_iff)
    with True show ?thesis using inv
      by (simp add: bump_dealloc_def sub_ovf_def bump_inv_def) (metis order_trans)
  next
    case False
    then have "allocations b - 1 \<noteq> 0" using u by (auto simp: unat_eq_0 [symmetric])
    then show ?thesis using inv u one d False
      by (auto simp: bump_dealloc_def sub_ovf_def bump_inv_def list_all_iff)
  qed
qed

lemma bump_inv_live:
  assumes "bump_inv st sz b live" and "range_ok st sz"
  shows "disjoint_in (heap_range st sz) (map live_block live) \<and> list_all live_ok live"
  using assms range_okD(2) [OF assms(2)]
  by (auto simp: bump_inv_def heap_range_def word_le_nat_alt elim!: disjoint_in_mono)

lemma bump_heap:
  "range_ok st sz \<Longrightarrow>
   heap_allocator (heap_range st sz) valid_request (bump_inv st sz) (\<lambda>l b. Some (bump_alloc l b)) bump_dealloc (\<lambda>(w::unit) live b. b)"
  by unfold_locales (metis bump_alloc_inv, metis bump_dealloc_inv, simp, metis bump_inv_live)

interpretation bump: heap_allocator "heap_range HEAP_START HEAP_SIZE" valid_request "bump_inv HEAP_START HEAP_SIZE"
  "\<lambda>l b. Some (bump_alloc l b)" bump_dealloc "\<lambda>(w::unit) live b. b"
  by (rule bump_heap) (rule kernel_heap_ok)

section \<open>Properties\<close>

definition demo_bump :: BumpAllocator where
  "demo_bump = \<lparr>heap_start = HEAP_START, heap_end = HEAP_START + HEAP_SIZE, bump_next = HEAP_START, allocations = 0\<rparr>"

lemma demo_bump_init: "bump_init HEAP_START HEAP_SIZE bump_new = Inr demo_bump"
  by (simp add: bump_init_def bump_new_def demo_bump_def add_ovf_def HEAP_START_def HEAP_SIZE_def)

text \<open>C30. Whatever a client of the bump allocator does, on any heap that keeps clear of address zero and
  of the upper half of the address space: no call panics, the outstanding allocations are aligned as
  requested, share no byte and lie in the heap, and once all of them are freed the allocator is as
  \<open>init\<close> left it, so that the whole heap is available again.\<close>

theorem bump_safe:
  assumes "range_ok st sz" and "bump_init st sz b0 = Inr b" and "list_all (call_ok valid_request) cs"
  shows "\<exists>b' live. heap_run (\<lambda>l b. Some (bump_alloc l b)) bump_dealloc (\<lambda>(w::unit) live b. b) cs (b, []) = Some (Inr (b', live))
           \<and> disjoint_in (heap_range st sz) (map live_block live) \<and> list_all live_ok live
           \<and> (live = [] \<longrightarrow> b' = b)"
proof -
  have "bump_inv st sz b []" using bump_init_inv [OF assms(1), of b0] assms(2) by auto
  moreover have "b = b'" if "bump_inv st sz b []" "bump_inv st sz b' []" for b b' :: BumpAllocator
    using that by (simp add: bump_inv_def unat_eq_0)
  ultimately show ?thesis
    using heap_allocator.run_inv [OF bump_heap [OF assms(1)] _ assms(3), of b "[]"] bump_inv_live [OF _ assms(1)]
    by metis
qed

theorem bump_safe_witness:
  "range_ok HEAP_START HEAP_SIZE \<and> bump_init HEAP_START HEAP_SIZE bump_new = Inr demo_bump
   \<and> list_all (call_ok valid_request) (demo_calls :: unit call list)
   \<and> (\<exists>b' live. heap_run (\<lambda>l b. Some (bump_alloc l b)) bump_dealloc (\<lambda>(w::unit) live b. b) demo_calls (demo_bump, [])
          = Some (Inr (b', live))
        \<and> disjoint_in (heap_range HEAP_START HEAP_SIZE) (map live_block live) \<and> list_all live_ok live)"
  using bump_safe [OF kernel_heap_ok demo_bump_init demo_calls_ok] kernel_heap_ok demo_bump_init demo_calls_ok by fast


text \<open>The bump allocator refuses a request only when the block, moved up to its alignment, does not
  fit between the bump pointer and the end of the heap.\<close>

theorem bump_null_iff:
  assumes "range_ok st sz" and "bump_inv st sz b live" and "valid_request l"
  shows "\<exists>a. align_up (bump_next b) (lay_align l) = Inr a
           \<and> (bump_alloc l b = Inr (0, b) \<longleftrightarrow> unat st + unat sz < unat a + unat (lay_size l))"
  using range_okD(1) [OF assms(1)] assms(2)
  by (cases rule: bump_alloc_cases [OF assms(2,1,3)]) (auto simp: bump_inv_def word_less_nat_alt word_le_nat_alt)

theorem bump_null_iff_witness:
  "bump_inv HEAP_START HEAP_SIZE demo_bump []
   \<and> (\<exists>a. align_up (bump_next demo_bump) 64 = Inr a
        \<and> (bump_alloc \<lparr>lay_size = HEAP_SIZE + 1, lay_align = 64\<rparr> demo_bump = Inr (0, demo_bump)
            \<longleftrightarrow> unat HEAP_START + unat HEAP_SIZE < unat a + unat (HEAP_SIZE + 1)))"
proof -
  have inv: "bump_inv HEAP_START HEAP_SIZE demo_bump []"
    using bump_init_inv [OF kernel_heap_ok, of bump_new] demo_bump_init by simp
  have "valid_request \<lparr>lay_size = HEAP_SIZE + 1, lay_align = 64\<rparr>" by code_simp
  from bump_null_iff [OF kernel_heap_ok inv this] inv show ?thesis by simp
qed

end
