(* ===== verification/Ports.thy ===== *)
theory Ports
  imports Rust_Prelude
begin

text \<open>
  Port-mapped hardware as the drivers see it: a device is its reactions to reads and writes of ports,
  on a state of its own. The drivers take a device as an argument; what they rely on of it is stated
  next to them.
\<close>

record 'd device =
  in8 :: "u16 \<Rightarrow> 'd \<Rightarrow> u8 \<times> 'd"
  in16 :: "u16 \<Rightarrow> 'd \<Rightarrow> u16 \<times> 'd"
  out8 :: "u16 \<Rightarrow> u8 \<Rightarrow> 'd \<Rightarrow> 'd"

end
