(* ===== verification/Vga_Mode13.thy ===== *)
theory Vga_Mode13
  imports Ports Machine
begin

text \<open>
  Graphics mode (\<open>src/vga_mode13.rs\<close>): the switch to mode 13h, port access by port access, the palette
  and the framebuffer. What the code relies on of the VGA is the predicate \<open>vga_card\<close>: its register
  banks behind index and data ports, the write protection of the CRTC, the flip-flop of the attribute
  controller and the DAC's index that advances by itself.
\<close>

section \<open>The driver\<close>

definition WIDTH :: usize where "WIDTH = 320"
definition HEIGHT :: usize where "HEIGHT = 200"
definition FB_ADDR :: usize where "FB_ADDR = 0xA0000"

definition MISC_WRITE :: u16 where "MISC_WRITE = 0x3C2"
definition SEQ_INDEX :: u16 where "SEQ_INDEX = 0x3C4"
definition SEQ_DATA :: u16 where "SEQ_DATA = 0x3C5"
definition CRTC_INDEX :: u16 where "CRTC_INDEX = 0x3D4"
definition CRTC_DATA :: u16 where "CRTC_DATA = 0x3D5"
definition GC_INDEX :: u16 where "GC_INDEX = 0x3CE"
definition GC_DATA :: u16 where "GC_DATA = 0x3CF"
definition AC_PORT :: u16 where "AC_PORT = 0x3C0"
definition INPUT_STATUS1 :: u16 where "INPUT_STATUS1 = 0x3DA"
definition DAC_INDEX :: u16 where "DAC_INDEX = 0x3C8"
definition DAC_DATA :: u16 where "DAC_DATA = 0x3C9"

lemmas vga_ports = MISC_WRITE_def SEQ_INDEX_def SEQ_DATA_def CRTC_INDEX_def CRTC_DATA_def GC_INDEX_def GC_DATA_def
  AC_PORT_def INPUT_STATUS1_def DAC_INDEX_def DAC_DATA_def

fun write_indexed :: "'d device \<Rightarrow> u16 \<Rightarrow> u16 \<Rightarrow> (u8 \<times> u8) list \<Rightarrow> 'd \<Rightarrow> 'd" where
  "write_indexed dev index_port data_port [] d = d"
| "write_indexed dev index_port data_port ((i, v) # tab) d =
     write_indexed dev index_port data_port tab (out8 dev data_port v (out8 dev index_port i d))"

definition seq_table :: "(u8 \<times> u8) list" where
  "seq_table = [(0x00, 0x03), (0x01, 0x01), (0x02, 0x0F), (0x03, 0x00), (0x04, 0x0E)]"

definition crtc_table :: "(u8 \<times> u8) list" where
  "crtc_table =
     [(0x00, 0x5F), (0x01, 0x4F), (0x02, 0x50), (0x03, 0x82),
      (0x04, 0x54), (0x05, 0x80), (0x06, 0xBF), (0x07, 0x1F),
      (0x08, 0x00), (0x09, 0x41), (0x0A, 0x00), (0x0B, 0x00),
      (0x0C, 0x00), (0x0D, 0x00), (0x0E, 0x00), (0x0F, 0x00),
      (0x10, 0x9C), (0x11, 0x0E), (0x12, 0x8F), (0x13, 0x28),
      (0x14, 0x40), (0x15, 0x96), (0x16, 0xB9), (0x17, 0xA3),
      (0x18, 0xFF)]"

definition gc_table :: "(u8 \<times> u8) list" where
  "gc_table =
     [(0x00, 0x00), (0x01, 0x00), (0x02, 0x00), (0x03, 0x00),
      (0x04, 0x00), (0x05, 0x40), (0x06, 0x05), (0x07, 0x0F),
      (0x08, 0xFF)]"

fun write_ac :: "'d device \<Rightarrow> (u8 \<times> u8) list \<Rightarrow> 'd \<Rightarrow> 'd" where
  "write_ac dev [] d = d"
| "write_ac dev ((i, v) # tab) d = write_ac dev tab (out8 dev AC_PORT v (out8 dev AC_PORT i d))"

definition ac_table :: "(u8 \<times> u8) list" where
  "ac_table =
     map (\<lambda>i. (of_nat i, of_nat i)) [0x00..<0x10]
     @ [(0x10, 0x41), (0x11, 0x00), (0x12, 0x0F), (0x13, 0x00), (0x14, 0x00)]"

definition set_mode :: "'d device \<Rightarrow> 'd \<Rightarrow> 'd" where
  "set_mode dev d =
     (let d = out8 dev MISC_WRITE 0x63 d;
          d = write_indexed dev SEQ_INDEX SEQ_DATA seq_table d;
          d = out8 dev CRTC_INDEX 0x11 d;
          (v, d) = in8 dev CRTC_DATA d;
          cr11 = v AND NOT 0x80;
          d = out8 dev CRTC_DATA cr11 d;
          d = write_indexed dev CRTC_INDEX CRTC_DATA crtc_table d;
          d = write_indexed dev GC_INDEX GC_DATA gc_table d;
          (_, d) = in8 dev INPUT_STATUS1 d;
          d = write_ac dev ac_table d
      in out8 dev AC_PORT 0x20 d)"

text \<open>The framebuffer is the memory from \<open>FB_ADDR\<close>.\<close>

definition in_fb :: "u64 \<Rightarrow> bool" where
  "in_fb a \<longleftrightarrow> a - FB_ADDR < WIDTH * HEIGHT"

definition enter_mode13 :: "'d device \<Rightarrow> 'd \<Rightarrow> memory \<Rightarrow> 'd \<times> memory" where
  "enter_mode13 dev d m = (set_mode dev d, \<lambda>a. if in_fb a then 0 else m a)"

definition set_palette_entry :: "'d device \<Rightarrow> u8 \<Rightarrow> u8 \<Rightarrow> u8 \<Rightarrow> u8 \<Rightarrow> 'd \<Rightarrow> 'd" where
  "set_palette_entry dev idx r g b d =
     (let d = out8 dev DAC_INDEX idx d;
          d = out8 dev DAC_DATA (drop_bit 2 r) d;
          d = out8 dev DAC_DATA (drop_bit 2 g) d
      in out8 dev DAC_DATA (drop_bit 2 b) d)"

section \<open>The VGA\<close>

record vga =
  misc :: u8
  seq_idx :: u8
  seq :: "u8 \<Rightarrow> u8"
  crtc_idx :: u8
  crtc :: "u8 \<Rightarrow> u8"
  gc_idx :: u8
  gc :: "u8 \<Rightarrow> u8"
  ac_data :: bool \<comment> \<open>the flip-flop: the next write is data\<close>
  ac_idx :: u8
  ac :: "u8 \<Rightarrow> u8"
  dac_idx :: u8
  dac_phase :: nat \<comment> \<open>components of the entry written so far\<close>
  dac :: "u8 \<Rightarrow> nat \<Rightarrow> u8"

text \<open>
  While bit 7 of CRTC register \<open>0x11\<close> is set, the registers 0 to 7 cannot be written, except for bit 4 of
  register 7.
\<close>

definition crtc_write :: "u8 \<Rightarrow> vga \<Rightarrow> vga" where
  "crtc_write v r =
     (let i = crtc_idx r in
      if i \<le> 7 \<and> crtc r 0x11 AND 0x80 \<noteq> 0
      then (if i = 7 then r\<lparr>crtc := (crtc r)(7 := crtc r 7 AND NOT 0x10 OR v AND 0x10)\<rparr> else r)
      else r\<lparr>crtc := (crtc r)(i := v)\<rparr>)"

definition dac_write :: "u8 \<Rightarrow> vga \<Rightarrow> vga" where
  "dac_write v r =
     (let r = r\<lparr>dac := (dac r)(dac_idx r := (dac r (dac_idx r))(dac_phase r := v AND 0x3F))\<rparr> in
      if dac_phase r = 2 then r\<lparr>dac_phase := 0, dac_idx := dac_idx r + 1\<rparr>
      else r\<lparr>dac_phase := dac_phase r + 1\<rparr>)"

definition vga_out :: "u16 \<Rightarrow> u8 \<Rightarrow> vga \<Rightarrow> vga" where
  "vga_out p v r =
     (if p = MISC_WRITE then r\<lparr>misc := v\<rparr>
      else if p = SEQ_INDEX then r\<lparr>seq_idx := v AND 0x07\<rparr>
      else if p = SEQ_DATA then r\<lparr>seq := (seq r)(seq_idx r := v)\<rparr>
      else if p = CRTC_INDEX then r\<lparr>crtc_idx := v AND 0x1F\<rparr>
      else if p = CRTC_DATA then crtc_write v r
      else if p = GC_INDEX then r\<lparr>gc_idx := v AND 0x0F\<rparr>
      else if p = GC_DATA then r\<lparr>gc := (gc r)(gc_idx r := v)\<rparr>
      else if p = AC_PORT then
        (if ac_data r then r\<lparr>ac := (ac r)(ac_idx r AND 0x1F := v), ac_data := False\<rparr>
         else r\<lparr>ac_idx := v, ac_data := True\<rparr>)
      else if p = DAC_INDEX then r\<lparr>dac_idx := v, dac_phase := 0\<rparr>
      else if p = DAC_DATA then dac_write v r
      else r)"

definition vga_card :: "'d device \<Rightarrow> ('d \<Rightarrow> vga) \<Rightarrow> bool" where
  "vga_card dev view \<longleftrightarrow>
     (\<forall>p v d. view (out8 dev p v d) = vga_out p v (view d))
     \<and> (\<forall>d. fst (in8 dev CRTC_DATA d) = crtc (view d) (crtc_idx (view d)))
     \<and> (\<forall>d. view (snd (in8 dev CRTC_DATA d)) = view d)
     \<and> (\<forall>d. view (snd (in8 dev INPUT_STATUS1 d)) = (view d)\<lparr>ac_data := False\<rparr>)"

definition shows_mode13 :: "vga \<Rightarrow> bool" where
  "shows_mode13 r \<longleftrightarrow>
     misc r = 0x63
     \<and> list_all (\<lambda>(i, v). seq r i = v) seq_table
     \<and> list_all (\<lambda>(i, v). crtc r i = v) crtc_table
     \<and> list_all (\<lambda>(i, v). gc r i = v) gc_table
     \<and> list_all (\<lambda>(i, v). ac r i = v) ac_table
     \<and> bit (ac_idx r) 5"

definition set_regs :: "(u8 \<times> u8) list \<Rightarrow> (u8 \<Rightarrow> u8) \<Rightarrow> u8 \<Rightarrow> u8" where
  "set_regs tab f = fold (\<lambda>(i, v) f. f(i := v)) tab f"

lemma set_regs_simps [simp]: "set_regs [] f = f" "set_regs ((i, v) # tab) f = set_regs tab (f(i := v))"
  by (simp_all add: set_regs_def)

lemma set_regs_other: "i \<notin> fst ` set tab \<Longrightarrow> set_regs tab f i = f i"
  by (induction tab arbitrary: f) (auto simp: set_regs_def)

lemma set_regs_table: "distinct (map fst tab) \<Longrightarrow> list_all (\<lambda>(i, v). set_regs tab f i = v) tab"
  by (induction tab arbitrary: f) (auto simp: set_regs_other)

lemma vga_cardD:
  assumes "vga_card dev view"
  shows "view (out8 dev p v d) = vga_out p v (view d)"
    and "fst (in8 dev CRTC_DATA d) = crtc (view d) (crtc_idx (view d))"
    and "view (snd (in8 dev CRTC_DATA d)) = view d"
    and "view (snd (in8 dev INPUT_STATUS1 d)) = (view d)\<lparr>ac_data := False\<rparr>"
  using assms by (simp_all add: vga_card_def)

lemma vga_outs:
  "vga_out MISC_WRITE v r = r\<lparr>misc := v\<rparr>"
  "vga_out SEQ_INDEX v r = r\<lparr>seq_idx := v AND 0x07\<rparr>"
  "vga_out SEQ_DATA v r = r\<lparr>seq := (seq r)(seq_idx r := v)\<rparr>"
  "vga_out CRTC_INDEX v r = r\<lparr>crtc_idx := v AND 0x1F\<rparr>"
  "vga_out CRTC_DATA v r = crtc_write v r"
  "vga_out GC_INDEX v r = r\<lparr>gc_idx := v AND 0x0F\<rparr>"
  "vga_out GC_DATA v r = r\<lparr>gc := (gc r)(gc_idx r := v)\<rparr>"
  "ac_data r \<Longrightarrow> vga_out AC_PORT v r = r\<lparr>ac := (ac r)(ac_idx r AND 0x1F := v), ac_data := False\<rparr>"
  "\<not> ac_data r \<Longrightarrow> vga_out AC_PORT v r = r\<lparr>ac_idx := v, ac_data := True\<rparr>"
  "vga_out DAC_INDEX v r = r\<lparr>dac_idx := v, dac_phase := 0\<rparr>"
  "vga_out DAC_DATA v r = dac_write v r"
  by (simp_all add: vga_out_def vga_ports)

lemma seq_bank:
  assumes "vga_card dev view" and "\<forall>(i, v) \<in> set tab. i AND 0x07 = i"
  shows "\<exists>k. view (write_indexed dev SEQ_INDEX SEQ_DATA tab d) = (view d)\<lparr>seq_idx := k, seq := set_regs tab (seq (view d))\<rparr>"
  using assms(2)
proof (induction tab arbitrary: d)
  case Nil
  show ?case by (rule exI [of _ "seq_idx (view d)"]) simp
next
  case (Cons e tab)
  obtain i v where e: "e = (i, v)" by force
  with Cons.prems Cons.IH [of "out8 dev SEQ_DATA v (out8 dev SEQ_INDEX i d)"] show ?case
    by (simp add: vga_cardD(1) [OF assms(1)] vga_outs fun_upd_def)
qed

lemma gc_bank:
  assumes "vga_card dev view" and "\<forall>(i, v) \<in> set tab. i AND 0x0F = i"
  shows "\<exists>k. view (write_indexed dev GC_INDEX GC_DATA tab d) = (view d)\<lparr>gc_idx := k, gc := set_regs tab (gc (view d))\<rparr>"
  using assms(2)
proof (induction tab arbitrary: d)
  case Nil
  show ?case by (rule exI [of _ "gc_idx (view d)"]) simp
next
  case (Cons e tab)
  obtain i v where e: "e = (i, v)" by force
  with Cons.prems Cons.IH [of "out8 dev GC_DATA v (out8 dev GC_INDEX i d)"] show ?case
    by (simp add: vga_cardD(1) [OF assms(1)] vga_outs fun_upd_def)
qed

lemma crtc_bank:
  assumes "vga_card dev view" and "\<forall>(i, v) \<in> set tab. i AND 0x1F = i \<and> (i = 0x11 \<longrightarrow> v AND 0x80 = 0)"
    and "crtc (view d) 0x11 AND 0x80 = 0"
  shows "\<exists>k. view (write_indexed dev CRTC_INDEX CRTC_DATA tab d) = (view d)\<lparr>crtc_idx := k, crtc := set_regs tab (crtc (view d))\<rparr>"
  using assms(2,3)
proof (induction tab arbitrary: d)
  case Nil
  show ?case by (rule exI [of _ "crtc_idx (view d)"]) simp
next
  case (Cons e tab)
  obtain i v where e: "e = (i, v)" by force
  with Cons.prems Cons.IH [of "out8 dev CRTC_DATA v (out8 dev CRTC_INDEX i d)"] show ?case
    by (simp add: vga_cardD(1) [OF assms(1)] vga_outs crtc_write_def fun_upd_def)
qed

lemma ac_bank:
  assumes "vga_card dev view" and "\<forall>(i, v) \<in> set tab. i AND 0x1F = i" and "\<not> ac_data (view d)"
  shows "\<exists>k. view (write_ac dev tab d) = (view d)\<lparr>ac_data := False, ac_idx := k, ac := set_regs tab (ac (view d))\<rparr>"
  using assms(2,3)
proof (induction tab arbitrary: d)
  case Nil
  then show ?case by (intro exI [of _ "ac_idx (view d)"]) simp
next
  case (Cons e tab)
  obtain i v where e: "e = (i, v)" by force
  with Cons.prems Cons.IH [of "out8 dev AC_PORT v (out8 dev AC_PORT i d)"] show ?case
    by (simp add: vga_cardD(1) [OF assms(1)] vga_outs fun_upd_def)
qed


lemma clear_bits: "(x AND NOT y) AND y = (0 :: u8)"
  by (rule bit_eqI) (simp add: bit_simps)

lemma tables_ok:
  "\<forall>(i, v) \<in> set seq_table. i AND 0x07 = i" "distinct (map fst seq_table)"
  "\<forall>(i, v) \<in> set gc_table. i AND 0x0F = i" "distinct (map fst gc_table)"
  "\<forall>(i, v) \<in> set crtc_table. i AND 0x1F = i \<and> (i = 0x11 \<longrightarrow> v AND 0x80 = 0)" "distinct (map fst crtc_table)"
  "\<forall>(i, v) \<in> set ac_table. i AND 0x1F = i" "distinct (map fst ac_table)"
  by (simp_all add: seq_table_def gc_table_def crtc_table_def ac_table_def upt_rec)


text \<open>A card, in the state of a text mode with the CRTC protected and the flip-flop expecting data.\<close>

definition vga_device :: "vga device" where
  "vga_device =
     \<lparr>in8 = (\<lambda>p r. (if p = CRTC_DATA then crtc r (crtc_idx r) else 0,
                   if p = INPUT_STATUS1 then r\<lparr>ac_data := False\<rparr> else r)),
      in16 = (\<lambda>p r. (0, r)), out8 = vga_out\<rparr>"

definition text_mode :: vga where
  "text_mode =
     \<lparr>misc = 0x67, seq_idx = 0, seq = (\<lambda>_. 0), crtc_idx = 0, crtc = (\<lambda>i. if i = 0x11 then 0x8E else 0),
      gc_idx = 0, gc = (\<lambda>_. 0), ac_data = True, ac_idx = 0x20, ac = (\<lambda>_. 0), dac_idx = 0, dac_phase = 1, dac = (\<lambda>_ _. 0)\<rparr>"

lemma vga_device_card: "vga_card vga_device (\<lambda>r. r)"
  by (simp add: vga_card_def vga_device_def vga_ports)


text \<open>The palette entry, and nothing else of the palette, is set to the high six bits.\<close>

lemma set_palette_entry_dac:
  assumes vga: "vga_card dev view"
  shows "dac (view (set_palette_entry dev idx r g b d)) =
     (dac (view d))(idx := (dac (view d) idx)(0 := drop_bit 2 r, 1 := drop_bit 2 g, 2 := drop_bit 2 b))"
proof -
  have "drop_bit 2 v AND 0x3F = drop_bit 2 v" for v :: u8
  proof -
    have "drop_bit 2 v AND mask 6 = drop_bit 2 v"
      by (rule bit_eqI) (auto simp: bit_simps dest: bit_imp_le_length)
    then show ?thesis by (simp add: mask_eq_exp_minus_1)
  qed
  then show ?thesis
    by (simp add: set_palette_entry_def Let_def vga_cardD(1) [OF vga] vga_outs dac_write_def eval_nat_numeral)
qed

end
