(* ===== verification/Ata.thy ===== *)
theory Ata
  imports Ports
begin

text \<open>
  The disk driver (\<open>src/ata.rs\<close>), port access by port access. The drive is hardware: the model takes
  its reactions to port reads and writes as an argument \<open>dev\<close>, and states what the driver relies on,
  the read command of the ATA standard, as the predicate \<open>ata_drive\<close>.
\<close>

section \<open>The driver\<close>

definition BASE :: u16 where "BASE = 0x1F0"
definition CTRL :: u16 where "CTRL = 0x3F6"
definition DATA :: u16 where "DATA = BASE + 0"
definition SECCNT :: u16 where "SECCNT = BASE + 2"
definition LBA0 :: u16 where "LBA0 = BASE + 3"
definition LBA1 :: u16 where "LBA1 = BASE + 4"
definition LBA2 :: u16 where "LBA2 = BASE + 5"
definition DRVSEL :: u16 where "DRVSEL = BASE + 6"
definition STATUS :: u16 where "STATUS = BASE + 7"
definition CMD :: u16 where "CMD = BASE + 7"
definition CMD_READ :: u8 where "CMD_READ = 0x20"
definition BSY :: u8 where "BSY = 0x80"
definition DRQ :: u8 where "DRQ = 0x08"
definition ERR_BIT :: u8 where "ERR_BIT = 0x01"

lemmas port_defs = BASE_def CTRL_def DATA_def SECCNT_def LBA0_def LBA1_def LBA2_def DRVSEL_def STATUS_def CMD_def

datatype Drive = Master | Slave

datatype AtaError = NoDrive | DiskError | Overflow

definition delay400ns :: "'d device \<Rightarrow> 'd \<Rightarrow> 'd" where
  "delay400ns dev d = ((\<lambda>d. snd (in8 dev CTRL d)) ^^ 4) d"

text \<open>\<open>spins\<close> stays below \<open>u32::MAX\<close>, so that its increment is that of \<open>nat\<close>.\<close>

function wait_ready :: "'d device \<Rightarrow> nat \<Rightarrow> 'd \<Rightarrow> (AtaError + unit) \<times> 'd" where
  "wait_ready dev spins d =
     (let (s, d) = in8 dev STATUS d in
      if s = 0xFF then (Inl NoDrive, d)
      else if s AND ERR_BIT \<noteq> 0 then (Inl DiskError, d)
      else if s AND BSY = 0 \<and> s AND DRQ \<noteq> 0 then (Inr (), d)
      else if s AND BSY = 0 then (Inl NoDrive, d)
      else if spins + 1 > 1000000 then (Inl NoDrive, d)
      else wait_ready dev (spins + 1) d)"
  by pat_completeness auto
termination
  by (relation "measure (\<lambda>(dev, spins, d). 1000000 - spins)") auto

declare wait_ready.simps [simp del]

text \<open>The words of a sector, low byte first.\<close>

fun read_words :: "'d device \<Rightarrow> nat \<Rightarrow> 'd \<Rightarrow> u8 list \<times> 'd" where
  "read_words dev 0 d = ([], d)"
| "read_words dev (Suc n) d =
     (let (v, d) = in16 dev DATA d; (bs, d) = read_words dev n d
      in (ucast v # ucast (drop_bit 8 v) # bs, d))"

text \<open>The loop over the sectors of \<open>buf\<close>: a sector that fails leaves the rest of it as it was.\<close>

fun read_sectors :: "'d device \<Rightarrow> u8 list list \<Rightarrow> 'd \<Rightarrow> (AtaError + unit) \<times> u8 list \<times> 'd" where
  "read_sectors dev [] d = (Inr (), [], d)"
| "read_sectors dev (chunk # chunks) d =
     (case wait_ready dev 0 d of
        (Inl e, d) \<Rightarrow> (Inl e, concat (chunk # chunks), d)
      | (Inr _, d) \<Rightarrow>
          let (bs, d) = read_words dev (length chunk div 2) d; (r, rest, d) = read_sectors dev chunks d
          in (r, bs @ rest, d))"

fun chunks_exact :: "nat \<Rightarrow> nat \<Rightarrow> 'a list \<Rightarrow> 'a list list" where
  "chunks_exact 0 n xs = []"
| "chunks_exact (Suc k) n xs = take n xs # chunks_exact k n (drop n xs)"

definition ata_read :: "'d device \<Rightarrow> Drive \<Rightarrow> u32 \<Rightarrow> u8 list \<Rightarrow> 'd \<Rightarrow> ((AtaError + unit) \<times> u8 list \<times> 'd) res" where
  "ata_read dev drive lba buf d =
     rbind (rassert (length buf mod 512 = 0)) (\<lambda>_.
       let sectors = (of_nat (length buf div 512) :: u32) in
       if sectors = 0 then Inr (Inr (), buf, d)
       else if sectors > 0x100 then Inr (Inl Overflow, buf, d)
       else
         let drv_bit = (case drive of Master \<Rightarrow> 0 | Slave \<Rightarrow> 1) :: u8;
             d = out8 dev DRVSEL (0xE0 OR push_bit 4 drv_bit OR (ucast (drop_bit 24 lba) AND 0x0F)) d;
             d = delay400ns dev d;
             d = out8 dev SECCNT (if sectors = 256 then 0 else ucast sectors) d;
             d = out8 dev LBA0 (ucast lba) d;
             d = out8 dev LBA1 (ucast (drop_bit 8 lba)) d;
             d = out8 dev LBA2 (ucast (drop_bit 16 lba)) d;
             d = out8 dev CMD CMD_READ d
         in Inr (read_sectors dev (chunks_exact (length buf div 512) 512 buf) d))"

text \<open>Reading into \<open>buf[a..b]\<close>.\<close>

definition read_slice :: "'d device \<Rightarrow> Drive \<Rightarrow> nat \<Rightarrow> nat \<Rightarrow> u8 list \<Rightarrow> 'd \<Rightarrow> ((AtaError + unit) \<times> u8 list \<times> 'd) res" where
  "read_slice dev drive i n buf d =
     rbind (slice_chk buf (i * 512) ((i + n) * 512)) (\<lambda>slice.
     rbind (ata_read dev drive (of_nat i) slice d) (\<lambda>(r, slice, d).
       Inr (r, take (i * 512) buf @ slice @ drop ((i + n) * 512) buf, d)))"

fun read_singles :: "'d device \<Rightarrow> Drive \<Rightarrow> nat \<Rightarrow> nat list \<Rightarrow> u8 list \<Rightarrow> nat \<Rightarrow> 'd \<Rightarrow> (u8 list \<times> nat \<times> 'd) res" where
  "read_singles dev drive i [] buf e d = Inr (buf, e, d)"
| "read_singles dev drive i (j # js) buf e d =
     rbind (read_slice dev drive (i + j) 1 buf d) (\<lambda>(r, buf, d).
       case r of
         Inr _ \<Rightarrow> read_singles dev drive i js buf ((i + j + 1) * 512) d
       | Inl _ \<Rightarrow> Inr (buf, e, d))"

fun read_chunks :: "'d device \<Rightarrow> Drive \<Rightarrow> nat \<Rightarrow> nat list \<Rightarrow> u8 list \<Rightarrow> nat \<Rightarrow> 'd \<Rightarrow> ((AtaError + u8 list \<times> nat) \<times> 'd) res" where
  "read_chunks dev drive max_sectors [] buf e d = Inr (Inr (buf, e), d)"
| "read_chunks dev drive max_sectors (i # is) buf e d =
     (let n = min (max_sectors - i) 128 in
      rbind (read_slice dev drive i n buf d) (\<lambda>(r, buf, d).
        case r of
          Inr _ \<Rightarrow> read_chunks dev drive max_sectors is buf ((i + n) * 512) d
        | Inl NoDrive \<Rightarrow> Inr (Inr (buf, e), d)
        | Inl _ \<Rightarrow>
            if e = 0 then Inr (Inl DiskError, d)
            else rbind (read_singles dev drive i [0..<n] buf e d) (\<lambda>(buf, e, d). Inr (Inr (buf, e), d))))"

definition read_all :: "'d device \<Rightarrow> Drive \<Rightarrow> nat \<Rightarrow> 'd \<Rightarrow> ((AtaError + u8 list) \<times> 'd) res" where
  "read_all dev drive max_bytes d =
     (let max_sectors = (max_bytes + 511) div 512;
          buf = replicate (max_sectors * 512) 0
      in rbind (read_chunks dev drive max_sectors (map (\<lambda>k. k * 128) [0..<(max_sectors + 127) div 128]) buf 0 d)
           (\<lambda>(r, d). Inr (case r of Inl e \<Rightarrow> (Inl e, d) | Inr (buf, e) \<Rightarrow> (Inr (take e buf), d))))"

section \<open>The drive\<close>

text \<open>The status register reads busy \<open>k\<close> times, then \<open>s\<close>.\<close>

fun answers :: "'d device \<Rightarrow> nat \<Rightarrow> u8 \<Rightarrow> 'd \<Rightarrow> 'd \<Rightarrow> bool" where
  "answers dev 0 s d d' \<longleftrightarrow> in8 dev STATUS d = (s, d')"
| "answers dev (Suc k) s d d' \<longleftrightarrow>
     (case in8 dev STATUS d of (b, e) \<Rightarrow> b \<noteq> 0xFF \<and> b AND ERR_BIT = 0 \<and> b AND BSY \<noteq> 0 \<and> answers dev k s e d')"

text \<open>The data register delivers words.\<close>

fun feeds :: "'d device \<Rightarrow> u16 list \<Rightarrow> 'd \<Rightarrow> 'd \<Rightarrow> bool" where
  "feeds dev [] d d' \<longleftrightarrow> d' = d"
| "feeds dev (w # ws) d d' \<longleftrightarrow> (case in16 dev DATA d of (v, e) \<Rightarrow> v = w \<and> feeds dev ws e d')"

fun words_of :: "u8 list \<Rightarrow> u16 list" where
  "words_of (a # b # bs) = (ucast a OR push_bit 8 (ucast b)) # words_of bs"
| "words_of _ = []"

text \<open>The sectors a read command asks for, by the registers at that time; \<open>None\<close> lies beyond the end.\<close>

definition lba28 :: "(u16 \<Rightarrow> u8) \<Rightarrow> nat" where
  "lba28 r = unat (r LBA0) + 2 ^ 8 * unat (r LBA1) + 2 ^ 16 * unat (r LBA2) + 2 ^ 24 * unat (r DRVSEL AND 0x0F)"

definition sectors_at :: "'s list \<Rightarrow> nat \<Rightarrow> nat \<Rightarrow> 's option list" where
  "sectors_at secs i n = map (\<lambda>k. if i + k < length secs then Some (secs ! (i + k)) else None) [0..<n]"

definition requested :: "(Drive \<Rightarrow> u8 list list) \<Rightarrow> (u16 \<Rightarrow> u8) \<Rightarrow> u8 list option list" where
  "requested disk r =
     sectors_at (disk (if bit (r DRVSEL) 4 then Slave else Master)) (lba28 r) (if r SECCNT = 0 then 256 else unat (r SECCNT))"

text \<open>
  A drive that follows the standard: registers hold what is written to them while it is idle, a read
  command starts the transfer of the sectors they ask for, each sector is announced in the status
  register within the patience of the driver and then delivered, and a sector beyond the end is
  announced as an error, which ends the command.
\<close>

definition ata_drive :: "'d device \<Rightarrow> (Drive \<Rightarrow> u8 list list) \<Rightarrow> ('d \<Rightarrow> bool) \<Rightarrow> ('d \<Rightarrow> u16 \<Rightarrow> u8) \<Rightarrow> (u8 list option list \<Rightarrow> 'd \<Rightarrow> bool) \<Rightarrow> bool" where
  "ata_drive dev disk idle regs transfer \<longleftrightarrow>
     (\<forall>drv. \<forall>sec \<in> set (disk drv). length sec = 512) \<and>
     (\<forall>d p v. idle d \<longrightarrow> p \<in> {SECCNT, LBA0, LBA1, LBA2, DRVSEL} \<longrightarrow>
        idle (out8 dev p v d) \<and> regs (out8 dev p v d) = (regs d)(p := v)) \<and>
     (\<forall>d. idle d \<longrightarrow> idle (snd (in8 dev CTRL d)) \<and> regs (snd (in8 dev CTRL d)) = regs d) \<and>
     (\<forall>d. idle d \<longrightarrow> transfer (requested disk (regs d)) (out8 dev CMD CMD_READ d)) \<and>
     (\<forall>sec rest d. transfer (Some sec # rest) d \<longrightarrow>
        (\<exists>k s e d'. k < 1000000 \<and> answers dev k s d e \<and> s AND ERR_BIT = 0 \<and> s AND BSY = 0 \<and> s AND DRQ \<noteq> 0 \<and>
           feeds dev (words_of sec) e d' \<and> transfer rest d')) \<and>
     (\<forall>rest d. transfer (None # rest) d \<longrightarrow>
        (\<exists>k s d'. k < 1000000 \<and> answers dev k s d d' \<and> s \<noteq> 0xFF \<and> s AND ERR_BIT \<noteq> 0 \<and> idle d')) \<and>
     (\<forall>d. transfer [] d \<longrightarrow> idle d)"

lemma ata_driveD:
  assumes "ata_drive dev disk idle regs transfer"
  shows "sec \<in> set (disk drv) \<Longrightarrow> length sec = 512"
    and "idle d \<Longrightarrow> p \<in> {SECCNT, LBA0, LBA1, LBA2, DRVSEL} \<Longrightarrow> idle (out8 dev p v d)"
    and "idle d \<Longrightarrow> p \<in> {SECCNT, LBA0, LBA1, LBA2, DRVSEL} \<Longrightarrow> regs (out8 dev p v d) = (regs d)(p := v)"
    and "idle d \<Longrightarrow> idle (snd (in8 dev CTRL d))"
    and "idle d \<Longrightarrow> regs (snd (in8 dev CTRL d)) = regs d"
    and "idle d \<Longrightarrow> transfer (requested disk (regs d)) (out8 dev CMD CMD_READ d)"
    and "transfer (Some sec # rest) d \<Longrightarrow>
        \<exists>k s e d'. k < 1000000 \<and> answers dev k s d e \<and> s AND ERR_BIT = 0 \<and> s AND BSY = 0 \<and> s AND DRQ \<noteq> 0 \<and>
           feeds dev (words_of sec) e d' \<and> transfer rest d'"
    and "transfer (None # rest) d \<Longrightarrow>
        \<exists>k s d'. k < 1000000 \<and> answers dev k s d d' \<and> s \<noteq> 0xFF \<and> s AND ERR_BIT \<noteq> 0 \<and> idle d'"
    and "transfer [] d \<Longrightarrow> idle d"
  using assms unfolding ata_drive_def by (elim conjE; simp only: simp_thms)+

section \<open>Reading sectors\<close>

lemma wait_ready_answers:
  "answers dev k s d d' \<Longrightarrow> spins + k < 1000000 \<Longrightarrow> s AND ERR_BIT = 0 \<Longrightarrow> s AND BSY = 0 \<Longrightarrow> s AND DRQ \<noteq> 0 \<Longrightarrow>
     wait_ready dev spins d = (Inr (), d')"
proof (induction k arbitrary: d spins)
  case 0
  then show ?case by (subst wait_ready.simps) (auto simp: ERR_BIT_def)
next
  case (Suc k)
  obtain b e where "in8 dev STATUS d = (b, e)" by fastforce
  with Suc show ?case by (subst wait_ready.simps) simp
qed

lemma wait_ready_error:
  "answers dev k s d d' \<Longrightarrow> spins + k < 1000000 \<Longrightarrow> s \<noteq> 0xFF \<Longrightarrow> s AND ERR_BIT \<noteq> 0 \<Longrightarrow>
     wait_ready dev spins d = (Inl DiskError, d')"
proof (induction k arbitrary: d spins)
  case 0
  then show ?case by (subst wait_ready.simps) simp
next
  case (Suc k)
  obtain b e where "in8 dev STATUS d = (b, e)" by fastforce
  with Suc show ?case by (subst wait_ready.simps) simp
qed

lemma word_bytes:
  fixes a b :: u8
  shows "ucast (ucast a OR push_bit 8 (ucast b) :: u16) = a"
    and "ucast (drop_bit 8 (ucast a) OR drop_bit 8 (push_bit 8 (ucast b)) :: u16) = b"
  by (rule bit_eqI, auto simp: bit_simps dest: bit_imp_le_length)+

lemma read_words_feeds:
  "feeds dev (words_of sec) d d' \<Longrightarrow> length sec = 2 * n \<Longrightarrow> read_words dev n d = (sec, d')"
proof (induction n arbitrary: sec d)
  case (Suc n)
  then obtain a b bs where sec: "sec = a # b # bs" by (metis Suc_length_conv mult_Suc_right add_2_eq_Suc)
  obtain v e where "in16 dev DATA d = (v, e)" by fastforce
  with Suc show ?case by (auto simp: sec word_bytes)
qed simp

text \<open>The registers the driver writes ask for the sectors it wants.\<close>

lemma base_256:
  fixes n :: nat
  shows "n mod 2 ^ 8 + 2 ^ 8 * (n div 2 ^ 8 mod 2 ^ 8) + 2 ^ 16 * (n div 2 ^ 16 mod 2 ^ 8) + 2 ^ 24 * (n div 2 ^ 24) = n"
proof -
  have nested: "a + 256 * m = n \<Longrightarrow> b + 256 * k = m \<Longrightarrow> c + 256 * q = k \<Longrightarrow> a + 256 * b + 65536 * c + 16777216 * q = n"
    for a b c k m q :: nat by linarith
  have "n div 65536 = n div 256 div 256" "n div 16777216 = n div 256 div 256 div 256" by (simp_all flip: div_mult2_eq)
  with nested [OF mod_mult_div_eq mod_mult_div_eq mod_mult_div_eq] show ?thesis by simp
qed

lemma lba28_registers:
  fixes lba :: u32
  assumes "unat lba < 2 ^ 28"
    and "r LBA0 = ucast lba" and "r LBA1 = ucast (drop_bit 8 lba)" and "r LBA2 = ucast (drop_bit 16 lba)"
    and "r DRVSEL AND 0x0F = ucast (drop_bit 24 lba) AND 0x0F"
  shows "lba28 r = unat lba"
proof -
  let ?n = "unat lba"
  have u: "unat (ucast x :: u8) = unat x mod 2 ^ 8" for x :: u32
    by (simp add: unsigned_ucast_eq take_bit_eq_mod)
  have "(ucast (drop_bit 24 lba) :: u8) AND 0x0F = take_bit 4 (ucast (drop_bit 24 lba))"
    by (simp add: take_bit_eq_mask mask_eq_exp_minus_1)
  then have "unat ((ucast (drop_bit 24 lba) :: u8) AND 0x0F) = ?n div 2 ^ 24 mod 2 ^ 8 mod 2 ^ 4"
    by (simp add: u drop_bit_eq_div unat_div take_bit_eq_mod unat_mod)
  also have "\<dots> = ?n div 2 ^ 24" using assms(1) by (simp add: less_mult_imp_div_less)
  finally have top: "unat (r DRVSEL AND 0x0F) = ?n div 2 ^ 24" by (simp add: assms(5))
  have "unat (r LBA0) = ?n mod 2 ^ 8" "unat (r LBA1) = ?n div 2 ^ 8 mod 2 ^ 8" "unat (r LBA2) = ?n div 2 ^ 16 mod 2 ^ 8"
    by (simp_all add: assms(2-4) u drop_bit_eq_div unat_div)
  then show ?thesis unfolding lba28_def top using base_256 [of ?n] by (simp only:)
qed

lemma read_sectors_ok:
  assumes drv: "ata_drive dev disk idle regs transfer"
  shows "transfer (map Some secs) d \<Longrightarrow> \<forall>sec \<in> set secs. length sec = 512 \<Longrightarrow> length chunks = length secs \<Longrightarrow>
    \<forall>c \<in> set chunks. length c = 512 \<Longrightarrow> \<exists>d'. read_sectors dev chunks d = (Inr (), concat secs, d') \<and> idle d'"
proof (induction secs arbitrary: chunks d)
  case Nil
  then show ?case using ata_driveD(9) [OF drv] by simp
next
  case (Cons sec secs)
  then obtain c cs where chunks: "chunks = c # cs" by (cases chunks) auto
  obtain k s e d1 where a: "k < 1000000" "answers dev k s d e" "s AND ERR_BIT = 0" "s AND BSY = 0" "s AND DRQ \<noteq> 0"
    "feeds dev (words_of sec) e d1" "transfer (map Some secs) d1"
    using ata_driveD(7) [OF drv] Cons.prems(1) by fastforce
  have "wait_ready dev 0 d = (Inr (), e)" using wait_ready_answers [OF a(2)] a by simp
  moreover have "read_words dev 256 e = (sec, d1)" using read_words_feeds [OF a(6)] Cons.prems(2) by simp
  ultimately show ?case using Cons.IH [OF a(7), of cs] Cons.prems by (auto simp: chunks)
qed

lemma read_sectors_error:
  assumes drv: "ata_drive dev disk idle regs transfer"
  shows "transfer (map Some secs @ None # rest) d \<Longrightarrow> \<forall>sec \<in> set secs. length sec = 512 \<Longrightarrow> length secs < length chunks \<Longrightarrow>
    \<forall>c \<in> set chunks. length c = 512 \<Longrightarrow>
    \<exists>buf d'. read_sectors dev chunks d = (Inl DiskError, buf, d') \<and> length buf = 512 * length chunks \<and> idle d'"
proof (induction secs arbitrary: chunks d)
  case Nil
  then obtain c cs where chunks: "chunks = c # cs" by (cases chunks) auto
  obtain k s d1 where a: "k < 1000000" "answers dev k s d d1" "s \<noteq> 0xFF" "s AND ERR_BIT \<noteq> 0" "idle d1"
    using ata_driveD(8) [OF drv] Nil.prems(1) by fastforce
  have "wait_ready dev 0 d = (Inl DiskError, d1)" using wait_ready_error [OF a(2)] a by simp
  moreover have "length (concat chunks) = 512 * length chunks" using Nil.prems(4) by (induction chunks) auto
  ultimately show ?case using a(5) by (simp add: chunks)
next
  case (Cons sec secs)
  then obtain c cs where chunks: "chunks = c # cs" by (cases chunks) auto
  obtain k s e d1 where a: "k < 1000000" "answers dev k s d e" "s AND ERR_BIT = 0" "s AND BSY = 0" "s AND DRQ \<noteq> 0"
    "feeds dev (words_of sec) e d1" "transfer (map Some secs @ None # rest) d1"
    using ata_driveD(7) [OF drv] Cons.prems(1) by fastforce
  have "wait_ready dev 0 d = (Inr (), e)" using wait_ready_answers [OF a(2)] a by simp
  moreover have "read_words dev 256 e = (sec, d1)" using read_words_feeds [OF a(6)] Cons.prems(2) by simp
  ultimately show ?case using Cons.IH [OF a(7), of cs] Cons.prems by (auto simp: chunks)
qed

text \<open>The sequence of port writes that starts a read.\<close>

lemma chunks_exact_length:
  assumes "k * n \<le> length xs"
  shows "length (chunks_exact k n xs) = k" and "\<forall>c \<in> set (chunks_exact k n xs). length c = n"
proof -
  show "length (chunks_exact k n xs) = k" by (induction k arbitrary: xs) simp_all
  show "\<forall>c \<in> set (chunks_exact k n xs). length c = n" using assms
  proof (induction k arbitrary: xs)
    case (Suc k)
    have le: "k * n + n \<le> length xs" using Suc.prems by (simp only: mult_Suc add.commute)
    then have "n \<le> length xs" by (rule add_leD2)
    then have "length (take n xs) = n" by simp
    moreover have "k * n \<le> length (drop n xs)" unfolding length_drop using le by (rule add_le_imp_le_diff)
    then have "\<forall>c \<in> set (chunks_exact k n (drop n xs)). length c = n" by (rule Suc.IH)
    ultimately show ?case unfolding chunks_exact.simps list.set by blast
  qed simp
qed

lemma delay400ns_idle:
  assumes "ata_drive dev disk idle regs transfer" and "idle d"
  shows "idle (delay400ns dev d)" and "regs (delay400ns dev d) = regs d"
proof -
  have "idle (((\<lambda>d. snd (in8 dev CTRL d)) ^^ n) d) \<and> regs (((\<lambda>d. snd (in8 dev CTRL d)) ^^ n) d) = regs d" for n
    by (induction n) (use assms(2) ata_driveD(4,5) [OF assms(1)] in auto)
  then show "idle (delay400ns dev d)" and "regs (delay400ns dev d) = regs d" unfolding delay400ns_def by blast+
qed

lemma ata_read_transfer:
  assumes drv: "ata_drive dev disk idle regs transfer" and idle: "idle d"
    and n: "0 < n" "n \<le> 256" "length buf = n * 512" and lba: "unat lba < 2 ^ 28"
  obtains d' where "ata_read dev drive lba buf d = Inr (read_sectors dev (chunks_exact n 512 buf) d')"
    and "transfer (sectors_at (disk drive) (unat lba) n) d'"
proof -
  define w :: u32 where "w = of_nat n"
  have w: "unat w = n" using n(2) by (simp add: w_def unat_of_nat)
  have w0: "w \<noteq> 0" "\<not> w > 0x100" "w = 256 \<longleftrightarrow> n = 256"
    using n w by (auto simp: word_less_nat_alt word_unat_eq_iff)
  define sel :: u8 where "sel = 0xE0 OR push_bit 4 (case drive of Master \<Rightarrow> 0 | Slave \<Rightarrow> 1) OR (ucast (drop_bit 24 lba) AND 0x0F)"
  define cnt :: u8 where "cnt = (if w = 256 then 0 else ucast w)"
  let ?d1 = "delay400ns dev (out8 dev DRVSEL sel d)"
  let ?d2 = "out8 dev LBA2 (ucast (drop_bit 16 lba)) (out8 dev LBA1 (ucast (drop_bit 8 lba)) (out8 dev LBA0 (ucast lba) (out8 dev SECCNT cnt ?d1)))"
  have read: "ata_read dev drive lba buf d = Inr (read_sectors dev (chunks_exact n 512 buf) (out8 dev CMD CMD_READ ?d2))"
    using n(3) w0(1,2) by (simp add: ata_read_def w_def sel_def cnt_def Let_def)
  note io = ata_driveD(2,3) [OF drv] and delay = delay400ns_idle [OF drv]
  have i2: "idle ?d2" by (simp add: io(1) delay(1) idle)
  have r2: "regs ?d2 = (regs d)(DRVSEL := sel, SECCNT := cnt, LBA0 := ucast lba, LBA1 := ucast (drop_bit 8 lba), LBA2 := ucast (drop_bit 16 lba))"
    by (simp add: io delay idle)
  have masks: "(0xE0 :: u8) = push_bit 5 (mask 3)" "(0x0F :: u8) = mask 4"
    by (simp_all add: mask_eq_exp_minus_1 push_bit_eq_mult)
  have "(0xE0 OR push_bit 4 b OR x AND 0x0F) AND 0x0F = x AND 0x0F" for b x :: u8
    unfolding masks by (rule bit_eqI) (auto simp: bit_simps)
  then have "sel AND 0x0F = ucast (drop_bit 24 lba) AND 0x0F" by (simp add: sel_def)
  moreover have r3: "regs ?d2 LBA0 = ucast lba" "regs ?d2 LBA1 = ucast (drop_bit 8 lba)" "regs ?d2 LBA2 = ucast (drop_bit 16 lba)"
    "regs ?d2 DRVSEL = sel" "regs ?d2 SECCNT = cnt"
    unfolding r2 by (simp_all add: port_defs)
  ultimately have "lba28 (regs ?d2) = unat lba" by (intro lba28_registers [OF lba]) simp_all
  moreover have "(if bit sel 4 then Slave else Master) = drive"
    unfolding sel_def masks by (cases drive) (auto simp: bit_simps)
  moreover have "(if cnt = 0 then 256 else unat cnt) = n"
  proof (cases "n = 256")
    case True
    then show ?thesis using w0(3) by (simp add: cnt_def)
  next
    case False
    then have "unat cnt = n" using n w w0(3) by (simp add: cnt_def unsigned_ucast_eq take_bit_eq_mod)
    then show ?thesis using n(1) by auto
  qed
  ultimately have "requested disk (regs ?d2) = sectors_at (disk drive) (unat lba) n"
    unfolding requested_def r3 by simp
  with ata_driveD(6) [OF drv i2] that [OF read] show ?thesis by simp
qed

end
