(* ===== verification/Ata_Load.thy ===== *)
theory Ata_Load
  imports Ata
begin

text \<open>
  Loading a whole drive (\<open>read_all\<close> of \<open>src/ata.rs\<close>): from a drive that follows the standard, the
  loop over chunks of 128 sectors and its fallback to single sectors bring the drive's contents into
  memory, up to the limit.
\<close>

section \<open>One command\<close>

lemma sectors_at_inside:
  assumes "i + n \<le> length secs"
  shows "sectors_at secs i n = map Some (take n (drop i secs))"
  by (rule nth_equalityI) (use assms in \<open>auto simp: sectors_at_def\<close>)

lemma sectors_at_beyond:
  assumes "length secs < i + n" and "i \<le> length secs"
  obtains rest where "sectors_at secs i n = map Some (drop i secs) @ None # rest"
proof -
  let ?m = "length secs - i"
  have m: "?m < n" using assms by simp
  have "[0..<?m + (n - ?m)] = [0..<?m] @ [?m..<?m + (n - ?m)]" by (rule upt_add_eq_append) simp
  then have "[0..<n] = [0..<?m] @ ?m # [Suc ?m..<n]" using m upt_conv_Cons [OF m] by simp
  moreover have "map (\<lambda>k. if i + k < length secs then Some (secs ! (i + k)) else None) [0..<?m] = map Some (drop i secs)"
    by (rule nth_equalityI) auto
  ultimately show ?thesis using that assms(2) by (simp add: sectors_at_def)
qed

lemma ata_read_ok:
  assumes drv: "ata_drive dev disk idle regs transfer" and idle: "idle d"
    and n: "0 < n" "n \<le> 256" "length buf = n * 512" and lba: "unat lba + n \<le> length (disk drive)" "unat lba < 2 ^ 28"
  shows "\<exists>d'. ata_read dev drive lba buf d = Inr (Inr (), concat (take n (drop (unat lba) (disk drive))), d') \<and> idle d'"
proof -
  obtain d' where d': "ata_read dev drive lba buf d = Inr (read_sectors dev (chunks_exact n 512 buf) d')"
    "transfer (sectors_at (disk drive) (unat lba) n) d'"
    by (rule ata_read_transfer [OF drv idle n lba(2)])
  have c: "length (chunks_exact n 512 buf) = n" "\<forall>c \<in> set (chunks_exact n 512 buf). length c = 512"
    using chunks_exact_length [of n 512 buf] n(3) by simp_all
  have "\<forall>sec \<in> set (take n (drop (unat lba) (disk drive))). length sec = 512"
    using ata_driveD(1) [OF drv] in_set_takeD in_set_dropD by metis
  moreover have "length (chunks_exact n 512 buf) = length (take n (drop (unat lba) (disk drive)))"
    using c(1) lba(1) by simp
  ultimately show ?thesis
    using read_sectors_ok [OF drv d'(2) [unfolded sectors_at_inside [OF lba(1)]] _ _ c(2)] d'(1) by simp
qed

lemma ata_read_beyond:
  assumes drv: "ata_drive dev disk idle regs transfer" and idle: "idle d"
    and n: "0 < n" "n \<le> 256" "length buf = n * 512"
    and lba: "length (disk drive) < unat lba + n" "unat lba \<le> length (disk drive)" "unat lba < 2 ^ 28"
  shows "\<exists>buf' d'. ata_read dev drive lba buf d = Inr (Inl DiskError, buf', d') \<and> length buf' = n * 512 \<and> idle d'"
proof -
  obtain d' where d': "ata_read dev drive lba buf d = Inr (read_sectors dev (chunks_exact n 512 buf) d')"
    "transfer (sectors_at (disk drive) (unat lba) n) d'"
    by (rule ata_read_transfer [OF drv idle n lba(3)])
  obtain rest where rest: "sectors_at (disk drive) (unat lba) n = map Some (drop (unat lba) (disk drive)) @ None # rest"
    by (rule sectors_at_beyond [OF lba(1,2)])
  have c: "length (chunks_exact n 512 buf) = n" "\<forall>c \<in> set (chunks_exact n 512 buf). length c = 512"
    using chunks_exact_length [of n 512 buf] n(3) by simp_all
  have "\<forall>sec \<in> set (drop (unat lba) (disk drive)). length sec = 512"
    using ata_driveD(1) [OF drv] in_set_dropD by metis
  moreover have "length (drop (unat lba) (disk drive)) < length (chunks_exact n 512 buf)"
    using c(1) lba(1,2) by simp
  ultimately obtain buf' d'' where "read_sectors dev (chunks_exact n 512 buf) d' = (Inl DiskError, buf', d'')"
    "length buf' = 512 * length (chunks_exact n 512 buf)" "idle d''"
    using read_sectors_error [OF drv d'(2) [unfolded rest] _ _ c(2)] by blast
  with d'(1) c(1) show ?thesis by simp
qed

section \<open>The buffer\<close>

text \<open>The buffer has room for \<open>m\<close> sectors, and starts with the first \<open>c\<close> of the drive.\<close>

definition loaded :: "u8 list list \<Rightarrow> nat \<Rightarrow> nat \<Rightarrow> u8 list \<Rightarrow> bool" where
  "loaded secs m c buf \<longleftrightarrow> length buf = m * 512 \<and> c \<le> length secs \<and> c \<le> m \<and> take (c * 512) buf = concat (take c secs)"

lemma length_concat_sectors: "\<forall>sec \<in> set secs. length sec = 512 \<Longrightarrow> length (concat secs) = length secs * 512"
  by (induction secs) auto

lemma unat_of_nat_sector: "i < 2 ^ 28 \<Longrightarrow> unat (of_nat i :: u32) = i"
  by (simp add: unat_of_nat)

lemma slice_ok:
  assumes "length buf = m * 512" and "i + n \<le> m"
  shows "slice_chk buf (i * 512) ((i + n) * 512) = Inr (take (n * 512) (drop (i * 512) buf))"
proof -
  have "(i + n) * 512 \<le> m * 512" using assms(2) by (rule mult_le_mono1)
  then show ?thesis using assms(1) by (simp add: slice_chk_def add_mult_distrib)
qed

text \<open>Reading the next sectors, inside the drive or across its end.\<close>

lemma read_slice_ok:
  assumes drv: "ata_drive dev disk idle regs transfer" and idle: "idle d" and buf: "loaded (disk drive) m i buf"
    and n: "0 < n" "n \<le> 256" "i + n \<le> m" "i + n \<le> length (disk drive)" and m: "m \<le> 2 ^ 28"
  shows "\<exists>buf' d'. read_slice dev drive i n buf d = Inr (Inr (), buf', d') \<and> loaded (disk drive) m (i + n) buf' \<and> idle d'"
proof -
  have len: "length buf = m * 512" and pre: "take (i * 512) buf = concat (take i (disk drive))"
    using buf by (simp_all add: loaded_def)
  have i: "i < 2 ^ 28" using n m by simp
  have u: "unat (of_nat i :: u32) = i" using i by (rule unat_of_nat_sector)
  let ?new = "concat (take n (drop i (disk drive)))"
  have "length (take (n * 512) (drop (i * 512) buf)) = n * 512" using len n(3) by simp
  from ata_read_ok [OF drv idle n(1,2) this, of "of_nat i" drive] n(4) i u
  obtain d' where r: "ata_read dev drive (of_nat i) (take (n * 512) (drop (i * 512) buf)) d = Inr (Inr (), ?new, d')" "idle d'"
    by auto
  let ?buf = "take (i * 512) buf @ ?new @ drop ((i + n) * 512) buf"
  have "\<forall>sec \<in> set (take n (drop i (disk drive))). length sec = 512"
    using ata_driveD(1) [OF drv] in_set_takeD in_set_dropD by metis
  then have "length ?new = n * 512" using length_concat_sectors [of "take n (drop i (disk drive))"] n(4) by simp
  then have "length ?buf = m * 512" and "take ((i + n) * 512) ?buf = take (i * 512) buf @ ?new"
    using len n(3) by (simp_all add: add_mult_distrib)
  moreover have "take (i * 512) buf @ ?new = concat (take (i + n) (disk drive))"
    by (simp only: pre take_add concat_append)
  ultimately have "loaded (disk drive) m (i + n) ?buf" using n by (simp add: loaded_def)
  with r slice_ok [OF len n(3)] show ?thesis by (simp add: read_slice_def)
qed

lemma read_slice_beyond:
  assumes drv: "ata_drive dev disk idle regs transfer" and idle: "idle d" and buf: "loaded (disk drive) m i buf"
    and n: "0 < n" "n \<le> 256" "i + n \<le> m" "length (disk drive) < i + n" and m: "m \<le> 2 ^ 28"
  shows "\<exists>buf' d'. read_slice dev drive i n buf d = Inr (Inl DiskError, buf', d') \<and> loaded (disk drive) m i buf' \<and> idle d'"
proof -
  have len: "length buf = m * 512" and le: "i \<le> length (disk drive)" and pre: "take (i * 512) buf = concat (take i (disk drive))"
    using buf by (simp_all add: loaded_def)
  have i: "i < 2 ^ 28" using n m by simp
  have u: "unat (of_nat i :: u32) = i" using i by (rule unat_of_nat_sector)
  have "length (take (n * 512) (drop (i * 512) buf)) = n * 512" using len n(3) by simp
  from ata_read_beyond [OF drv idle n(1,2) this, of drive "of_nat i"] n(4) i u le
  obtain new d' where r: "ata_read dev drive (of_nat i) (take (n * 512) (drop (i * 512) buf)) d = Inr (Inl DiskError, new, d')"
    "length new = n * 512" "idle d'" by auto
  let ?buf = "take (i * 512) buf @ new @ drop ((i + n) * 512) buf"
  have "length ?buf = m * 512" and "take (i * 512) ?buf = take (i * 512) buf"
    using len n(3) r(2) by (simp_all add: add_mult_distrib)
  then have "loaded (disk drive) m i ?buf" using buf by (simp only: loaded_def)
  with r slice_ok [OF len n(3)] show ?thesis by (simp add: read_slice_def)
qed

section \<open>The loops\<close>

lemma read_singles_loaded:
  assumes drv: "ata_drive dev disk idle regs transfer" and m: "m \<le> 2 ^ 28" and n: "i + n \<le> m"
  shows "idle d \<Longrightarrow> loaded (disk drive) m (i + j) buf \<Longrightarrow> j \<le> n \<Longrightarrow> length (disk drive) \<le> i + n \<Longrightarrow>
    \<exists>buf' d'. read_singles dev drive i [j..<n] buf ((i + j) * 512) d = Inr (buf', length (disk drive) * 512, d')
      \<and> loaded (disk drive) m (length (disk drive)) buf' \<and> idle d'"
proof (induction "n - j" arbitrary: j buf d)
  case 0
  then have "j = n" and "i + j = length (disk drive)" by (simp_all add: loaded_def)
  with 0 show ?case by simp
next
  case (Suc x)
  then have j: "[j..<n] = j # [Suc j..<n]" "j < n" by (simp_all add: upt_conv_Cons)
  show ?case
  proof (cases "i + j < length (disk drive)")
    case True
    then obtain buf1 d1 where r: "read_slice dev drive (i + j) 1 buf d = Inr (Inr (), buf1, d1)"
      "loaded (disk drive) m (i + Suc j) buf1" "idle d1"
      using read_slice_ok [OF drv Suc.prems(1,2), of 1] j(2) n m by auto
    have "x = n - Suc j" "Suc j \<le> n" using Suc.hyps(2) j(2) by simp_all
    from Suc.hyps(1) [OF this(1) r(3,2) this(2) Suc.prems(4)] r(1) show ?thesis by (simp add: j(1))
  next
    case False
    then have eq: "i + j = length (disk drive)" using Suc.prems(2) by (simp add: loaded_def)
    then obtain buf1 d1 where "read_slice dev drive (i + j) 1 buf d = Inr (Inl DiskError, buf1, d1)"
      "loaded (disk drive) m (i + j) buf1" "idle d1"
      using read_slice_beyond [OF drv Suc.prems(1,2), of 1] j(2) n m by auto
    then show ?thesis using eq by (simp add: j(1))
  qed
qed

lemma read_chunks_loaded:
  assumes drv: "ata_drive dev disk idle regs transfer" and m: "m \<le> 2 ^ 28"
    and big: "min m 128 \<le> length (disk drive)"
  shows "idle d \<Longrightarrow> loaded (disk drive) m (min (k * 128) m) buf \<Longrightarrow> k \<le> (m + 127) div 128 \<Longrightarrow>
    \<exists>buf' d'. read_chunks dev drive m (map (\<lambda>k. k * 128) [k..<(m + 127) div 128]) buf (min (k * 128) m * 512) d
        = Inr (Inr (buf', min m (length (disk drive)) * 512), d')
      \<and> loaded (disk drive) m (min m (length (disk drive))) buf' \<and> idle d'"
proof (induction "(m + 127) div 128 - k" arbitrary: k buf d)
  case 0
  then have k: "k = (m + 127) div 128" by simp
  then have "m \<le> k * 128" by simp
  then have "min (k * 128) m = m" by simp
  with 0(2,3) k show ?case by (simp add: loaded_def)
next
  case (Suc x)
  let ?K = "(m + 127) div 128"
  have k: "k < ?K" "[k..<?K] = k # [Suc k..<?K]" using Suc.hyps(2) by (simp_all add: upt_conv_Cons)
  then have lt: "k * 128 < m" by simp
  define n where "n = min (m - k * 128) 128"
  have n: "0 < n" "n \<le> 256" "k * 128 + n \<le> m" "k * 128 + n = min (Suc k * 128) m" using lt by (auto simp: n_def)
  have buf: "loaded (disk drive) m (k * 128) buf" using Suc.prems(2) lt by (simp add: min_def)
  show ?case
  proof (cases "k * 128 + n \<le> length (disk drive)")
    case True
    then obtain buf1 d1 where r: "read_slice dev drive (k * 128) n buf d = Inr (Inr (), buf1, d1)"
      "loaded (disk drive) m (k * 128 + n) buf1" "idle d1"
      using read_slice_ok [OF drv Suc.prems(1) buf n(1-3) _ m] by blast
    have x: "x = ?K - Suc k" "Suc k \<le> ?K" using Suc.hyps(2) by simp_all
    from Suc.hyps(1) [OF x(1) r(3) r(2) [unfolded n(4)] x(2), folded n(4)] r(1) show ?thesis
      by (simp add: k(2) n_def [symmetric])
  next
    case False
    then obtain buf1 d1 where r: "read_slice dev drive (k * 128) n buf d = Inr (Inl DiskError, buf1, d1)"
      "loaded (disk drive) m (k * 128) buf1" "idle d1"
      using read_slice_beyond [OF drv Suc.prems(1) buf n(1-3) _ m] by force
    have k0: "k \<noteq> 0" using False big by (auto simp: n_def)
    obtain buf2 d2 where s: "read_singles dev drive (k * 128) [0..<n] buf1 ((k * 128 + 0) * 512) d1
        = Inr (buf2, length (disk drive) * 512, d2)" "loaded (disk drive) m (length (disk drive)) buf2" "idle d2"
      using read_singles_loaded [OF drv m n(3) r(3), of drive 0 buf1] r(2) False by auto
    have "min m (length (disk drive)) = length (disk drive)" using False n(3) by simp
    moreover have "min (k * 128) m = k * 128" using lt by simp
    ultimately show ?thesis using r(1) s k0 by (simp add: k(2) n_def [symmetric] Let_def)
  qed
qed

lemma read_all_loaded:
  assumes drv: "ata_drive dev disk idle regs transfer" and idle: "idle d"
    and m: "(max_bytes + 511) div 512 \<le> 2 ^ 28" and big: "min ((max_bytes + 511) div 512) 128 \<le> length (disk drive)"
  shows "\<exists>d'. read_all dev drive max_bytes d = Inr (Inr (concat (take ((max_bytes + 511) div 512) (disk drive))), d') \<and> idle d'"
proof -
  let ?m = "(max_bytes + 511) div 512"
  have "loaded (disk drive) ?m (min (0 * 128) ?m) (replicate (?m * 512) 0)" by (simp add: loaded_def)
  from read_chunks_loaded [OF drv m big idle this]
  obtain buf d' where r: "read_chunks dev drive ?m (map (\<lambda>k. k * 128) [0..<(?m + 127) div 128]) (replicate (?m * 512) 0) 0 d
        = Inr (Inr (buf, min ?m (length (disk drive)) * 512), d')"
    "loaded (disk drive) ?m (min ?m (length (disk drive))) buf" "idle d'" by auto
  have "take (min ?m (length (disk drive))) (disk drive) = take ?m (disk drive)" by (simp add: min_def)
  then have "take (min ?m (length (disk drive)) * 512) buf = concat (take ?m (disk drive))"
    using r(2) by (simp only: loaded_def)
  with r(1,3) show ?thesis by (simp add: read_all_def Let_def)
qed

text \<open>A drive that ends within the first chunk is not read at all.\<close>

lemma read_all_small:
  assumes drv: "ata_drive dev disk idle regs transfer" and idle: "idle d"
    and m: "(max_bytes + 511) div 512 \<le> 2 ^ 28" and small: "length (disk drive) < min ((max_bytes + 511) div 512) 128"
  shows "\<exists>d'. read_all dev drive max_bytes d = Inr (Inl DiskError, d') \<and> idle d'"
proof -
  let ?m = "(max_bytes + 511) div 512" let ?n = "min (?m - 0) 128"
  have b: "loaded (disk drive) ?m 0 (replicate (?m * 512) 0)" by (simp add: loaded_def)
  have "0 < ?n" "?n \<le> 256" "0 + ?n \<le> ?m" "length (disk drive) < 0 + ?n" using small by auto
  from read_slice_beyond [OF drv idle b this m]
  obtain buf d' where r: "read_slice dev drive 0 ?n (replicate (?m * 512) 0) d = Inr (Inl DiskError, buf, d')" "idle d'"
    by auto
  have "128 \<le> ?m + 127" using small by simp
  then have "0 < (?m + 127) div 128" by (simp only: div_greater_zero_iff) simp
  then have "[0..<(?m + 127) div 128] = 0 # [1..<(?m + 127) div 128]" by (simp add: upt_conv_Cons)
  with r show ?thesis by (simp add: read_all_def Let_def)
qed

end
