(* ===== verification/Cxfs.thy ===== *)
theory Cxfs
  imports Ata_Load
begin

text \<open>
  The archive file system: the reader in the kernel (\<open>src/fs.rs\<close>) and the tool that makes archives
  (\<open>tools/mkcxfs.py\<close>). What the tool packs, the kernel finds, also through the disk driver.
\<close>

section \<open>The reader\<close>

definition MAGIC :: "u8 list" where "MAGIC = [0x43, 0x58, 0x46, 0x53]"

definition ENTRY_SIZE :: nat where "ENTRY_SIZE = 40"

definition NAME_LEN :: nat where "NAME_LEN = 32"

datatype FsError = FsNoDrive | FsDiskError | BadMagic

text \<open>\<open>ARCHIVE\<close> is a cell that is set at most once.\<close>

definition fs_init ::
    "'d device \<Rightarrow> u8 list option \<Rightarrow> 'd \<Rightarrow> ((FsError + nat) \<times> u8 list option \<times> 'd) res" where
  "fs_init dev archive d =
     rbind (read_all dev Slave (6 * 1024 * 1024) d) (\<lambda>(r, d).
       case r of
         Inl e \<Rightarrow> Inr (Inl (case e of NoDrive \<Rightarrow> FsNoDrive | _ \<Rightarrow> FsDiskError), archive, d)
       | Inr data \<Rightarrow>
           if length data < 8 \<or> take 4 data \<noteq> MAGIC then Inr (Inl BadMagic, archive, d)
           else let count = le32 (take 4 (drop 4 data))
                in Inr (Inr count, (case archive of None \<Rightarrow> Some data | Some a \<Rightarrow> Some a), d))"

text \<open>\<open>core::str::from_utf8\<close> succeeds: the well-formed byte sequences of the Unicode standard.\<close>

definition cont_byte :: "u8 \<Rightarrow> bool" where
  "cont_byte b \<longleftrightarrow> 0x80 \<le> b \<and> b \<le> 0xBF"

fun utf8_valid :: "u8 list \<Rightarrow> bool" where
  "utf8_valid [] \<longleftrightarrow> True"
| "utf8_valid (a # bs) \<longleftrightarrow>
     (if a < 0x80 then utf8_valid bs
      else case bs of
        [] \<Rightarrow> False
      | b # bs \<Rightarrow>
          if 0xC2 \<le> a \<and> a \<le> 0xDF then cont_byte b \<and> utf8_valid bs
          else case bs of
            [] \<Rightarrow> False
          | c # bs \<Rightarrow>
              if 0xE0 \<le> a \<and> a \<le> 0xEF
              then cont_byte b \<and> (a = 0xE0 \<longrightarrow> 0xA0 \<le> b) \<and> (a = 0xED \<longrightarrow> b \<le> 0x9F) \<and> cont_byte c \<and> utf8_valid bs
              else case bs of
                [] \<Rightarrow> False
              | d # bs \<Rightarrow>
                  0xF0 \<le> a \<and> a \<le> 0xF4 \<and> cont_byte b \<and> (a = 0xF0 \<longrightarrow> 0x90 \<le> b) \<and> (a = 0xF4 \<longrightarrow> b \<le> 0x8F) \<and>
                  cont_byte c \<and> cont_byte d \<and> utf8_valid bs)"

definition to_ascii_lowercase :: "u8 \<Rightarrow> u8" where
  "to_ascii_lowercase b = (if 0x41 \<le> b \<and> b \<le> 0x5A then b + 0x20 else b)"

definition eq_ignore_ascii_case :: "u8 list \<Rightarrow> u8 list \<Rightarrow> bool" where
  "eq_ignore_ascii_case a b \<longleftrightarrow> map to_ascii_lowercase a = map to_ascii_lowercase b"

text \<open>The loop of \<open>open\<close> over the entries. A slice of the archive is its place there and its bytes.\<close>

fun fs_search :: "u8 list \<Rightarrow> u8 list \<Rightarrow> nat list \<Rightarrow> (nat \<times> u8 list) option res" where
  "fs_search data name [] = Inr None"
| "fs_search data name (i # is) =
     rbind (slice_chk data (8 + i * ENTRY_SIZE) (length data)) (\<lambda>rest.
     rbind (slice_chk rest 0 ENTRY_SIZE) (\<lambda>entry.
       let raw_name = take NAME_LEN entry;
           nul = (case position (\<lambda>b. b = 0) raw_name of None \<Rightarrow> NAME_LEN | Some n \<Rightarrow> n);
           entry_name = take nul raw_name
       in if \<not> utf8_valid entry_name then Inr None
          else if eq_ignore_ascii_case entry_name name
          then let offset = le32 (take 4 (drop 32 entry)); sz = le32 (take 4 (drop 36 entry))
               in rbind (slice_chk data offset (offset + sz)) (\<lambda>file. Inr (Some (offset, file)))
          else fs_search data name is))"

definition fs_open_slice :: "u8 list option \<Rightarrow> u8 list \<Rightarrow> (nat \<times> u8 list) option res" where
  "fs_open_slice archive name =
     (case archive of
        None \<Rightarrow> Inr None
      | Some data \<Rightarrow> rbind (slice_chk data 4 8) (\<lambda>bs. fs_search data name [0..<le32 bs]))"

definition fs_open :: "u8 list option \<Rightarrow> u8 list \<Rightarrow> u8 list option res" where
  "fs_open archive name = rbind (fs_open_slice archive name) (\<lambda>f. Inr (map_option snd f))"

section \<open>The archiver\<close>

text \<open>An exception, or the exit on a name that is too long, is \<open>None\<close>.\<close>

definition encode_ascii :: "string \<Rightarrow> u8 list option" where
  "encode_ascii name = (if list_all (\<lambda>c. (of_char c :: nat) < 128) name then Some (map of_char name) else None)"

definition pack_name :: "string \<Rightarrow> u8 list option" where
  "pack_name name =
     (case encode_ascii name of
        None \<Rightarrow> None
      | Some b \<Rightarrow> if NAME_LEN \<le> length b then None else Some (b @ replicate (NAME_LEN - length b) 0))"

text \<open>\<open>struct.pack("<I", n)\<close>.\<close>

definition pack_u32 :: "nat \<Rightarrow> u8 list option" where
  "pack_u32 n = (if n < 2 ^ 32 then Some (to_le32 n) else None)"

fun entries :: "nat \<Rightarrow> (string \<times> u8 list) list \<Rightarrow> (string \<times> nat \<times> nat) list" where
  "entries cursor [] = []"
| "entries cursor ((name, data) # files) = (name, cursor, length data) # entries (cursor + length data) files"

definition pack_entry :: "string \<times> nat \<times> nat \<Rightarrow> u8 list option" where
  "pack_entry e =
     (case e of (name, offset, sz) \<Rightarrow>
        (case (pack_name name, pack_u32 offset, pack_u32 sz) of
           (Some n, Some o', Some s) \<Rightarrow> Some (n @ o' @ s)
         | _ \<Rightarrow> None))"

text \<open>\<open>build\<close>, on the names and the contents of the files; the result is what it writes.\<close>

definition cxfs_build :: "(string \<times> u8 list) list \<Rightarrow> u8 list option" where
  "cxfs_build files =
     (let header_size = 8 + length files * ENTRY_SIZE;
          es = entries header_size files
      in case (pack_u32 (length files), those (map pack_entry es)) of
           (Some n, Some packed) \<Rightarrow>
             let out = MAGIC @ n @ concat packed @ concat (map snd files);
                 remainder = length out mod 512
             in Some (if remainder \<noteq> 0 then out @ replicate (512 - remainder) 0 else out)
         | _ \<Rightarrow> None)"

section \<open>Archives\<close>

lemma those_nth: "those xs = Some ys \<Longrightarrow> length ys = length xs \<and> (\<forall>i < length xs. xs ! i = Some (ys ! i))"
proof (induction xs arbitrary: ys)
  case (Cons x xs)
  then obtain y zs where "x = Some y" "those xs = Some zs" "ys = y # zs" by (auto split: option.splits)
  with Cons.IH show ?case by (auto simp: nth_Cons split: nat.split)
qed simp

lemma entries_nth:
  "length (entries c files) = length files"
  "i < length files \<Longrightarrow>
     entries c files ! i = (fst (files ! i), c + length (concat (map snd (take i files))), length (snd (files ! i)))"
proof -
  show "length (entries c files) = length files" by (induction c files rule: entries.induct) auto
  show "i < length files \<Longrightarrow>
     entries c files ! i = (fst (files ! i), c + length (concat (map snd (take i files))), length (snd (files ! i)))"
    by (induction c files arbitrary: i rule: entries.induct) (auto simp: nth_Cons split: nat.split)
qed

lemma pack_name_Some:
  assumes "pack_name name = Some nm"
  obtains b where "encode_ascii name = Some b" and "nm = b @ replicate (32 - length b) 0" and "length b < 32"
  using assms by (auto simp: pack_name_def NAME_LEN_def split: option.splits if_splits)

lemma pack_entry_Some:
  assumes "pack_entry (name, off, sz) = Some e"
  obtains nm where "pack_name name = Some nm" and "e = nm @ to_le32 off @ to_le32 sz" and "off < 2 ^ 32" and "sz < 2 ^ 32"
  using assms by (auto simp: pack_entry_def pack_u32_def split: option.splits if_splits)

lemma length_pack_name: "pack_name name = Some nm \<Longrightarrow> length nm = 32"
  by (elim pack_name_Some) simp

definition file_offset :: "(string \<times> u8 list) list \<Rightarrow> nat \<Rightarrow> nat" where
  "file_offset files i = 8 + length files * 40 + length (concat (map snd (take i files)))"

lemma mod_pad: "(n + (512 - n mod 512)) mod 512 = (0 :: nat)"
proof -
  have "(n + (512 - n mod 512)) mod 512 = (n mod 512 + (512 - n mod 512)) mod 512" by (simp only: mod_add_left_eq)
  also have "n mod 512 + (512 - n mod 512) = 512" by (rule le_add_diff_inverse) simp
  finally show ?thesis by simp
qed

lemma cxfs_build_Some:
  assumes "cxfs_build files = Some img"
  obtains packed pad where "img = MAGIC @ to_le32 (length files) @ concat packed @ concat (map snd files) @ pad"
    and "length files < 2 ^ 32" and "length packed = length files"
    and "\<And>i. i < length files \<Longrightarrow> pack_entry (fst (files ! i), file_offset files i, length (snd (files ! i))) = Some (packed ! i)"
    and "length img mod 512 = 0"
proof -
  let ?es = "entries (8 + length files * ENTRY_SIZE) files"
  obtain packed where p: "length files < 2 ^ 32" "those (map pack_entry ?es) = Some packed"
    and img: "img = (let out = MAGIC @ to_le32 (length files) @ concat packed @ concat (map snd files) in
        if length out mod 512 \<noteq> 0 then out @ replicate (512 - length out mod 512) 0 else out)"
    using assms by (auto simp: cxfs_build_def Let_def pack_u32_def split: option.splits if_splits)
  define out where "out = MAGIC @ to_le32 (length files) @ concat packed @ concat (map snd files)"
  define pad where "pad = (if length out mod 512 \<noteq> 0 then replicate (512 - length out mod 512) (0 :: u8) else [])"
  have img': "img = out @ pad" unfolding img Let_def out_def [symmetric] by (simp add: pad_def)
  then have a: "img = MAGIC @ to_le32 (length files) @ concat packed @ concat (map snd files) @ pad"
    by (simp add: out_def)
  have b: "length img mod 512 = 0"
    unfolding img' pad_def using mod_pad [of "length out"] by simp
  have c: "length packed = length files"
    using those_nth [OF p(2)] by (simp add: entries_nth)
  have d: "pack_entry (fst (files ! i), file_offset files i, length (snd (files ! i))) = Some (packed ! i)" if "i < length files" for i
    using those_nth [OF p(2)] that by (simp add: entries_nth file_offset_def ENTRY_SIZE_def)
  show ?thesis by (rule that [OF a p(1) c d b])
qed

text \<open>Where things lie in an archive.\<close>

lemma archive_entry:
  assumes "img = MAGIC @ to_le32 n @ concat packed @ rest" and "i < length packed" and "\<forall>e \<in> set packed. length e = 40"
  shows "slice_chk img (8 + i * ENTRY_SIZE) (length img) = Inr (drop (8 + i * 40) img)"
    and "slice_chk (drop (8 + i * 40) img) 0 ENTRY_SIZE = Inr (packed ! i)"
proof -
  have len: "length (concat (take i packed)) = i * 40" and all: "length (concat packed) = length packed * 40"
  proof -
    have "length (concat xs) = length xs * 40" if "set xs \<subseteq> set packed" for xs
      using that assms(3) by (induction xs) auto
    from this [of "take i packed"] this [of packed] assms(2)
    show "length (concat (take i packed)) = i * 40" and "length (concat packed) = length packed * 40"
      by (simp_all add: set_take_subset)
  qed
  have e: "length (packed ! i) = 40" using assms(2,3) by simp
  have room: "i * 40 + 40 \<le> length packed * 40" using assms(2) by simp
  have "drop 8 img = concat packed @ rest" by (simp add: assms(1) MAGIC_def to_le32_def)
  then have dr: "drop (8 + i * 40) img = drop (i * 40) (concat packed @ rest)" by (metis drop_drop add.commute)
  have "take 40 (drop (i * 40) (concat packed @ rest)) = take 40 (drop (i * 40) (concat packed))"
    using room all by simp
  also have "\<dots> = packed ! i" using concat_slice [OF assms(2)] e len by simp
  finally have t: "take 40 (drop (8 + i * 40) img) = packed ! i" by (simp only: dr)
  have "length img = 8 + length packed * 40 + length rest" by (simp add: assms(1) MAGIC_def all)
  then show "slice_chk img (8 + i * ENTRY_SIZE) (length img) = Inr (drop (8 + i * 40) img)"
    and "slice_chk (drop (8 + i * 40) img) 0 ENTRY_SIZE = Inr (packed ! i)"
    using room t by (simp_all add: slice_chk_def ENTRY_SIZE_def)
qed

lemma archive_file:
  assumes img: "img = MAGIC @ to_le32 (length files) @ concat packed @ concat (map snd files) @ pad"
    and "length (concat packed) = length files * 40" and i: "i < length files"
  shows "slice_chk img (file_offset files i) (file_offset files i + length (snd (files ! i))) = Inr (snd (files ! i))"
proof -
  let ?o = "length (concat (map snd (take i files)))" and ?f = "snd (files ! i)"
  have c: "concat (map snd files) = concat (map snd (take i files)) @ ?f @ concat (map snd (drop (Suc i) files))"
    using id_take_nth_drop [OF i] by (metis concat.simps(2) concat_append list.simps(9) map_append)
  let ?h = "MAGIC @ to_le32 (length files) @ concat packed @ concat (map snd (take i files))"
  have "length ?h = file_offset files i" by (simp add: file_offset_def MAGIC_def assms(2))
  moreover have "img = ?h @ ?f @ concat (map snd (drop (Suc i) files)) @ pad" unfolding img c by simp
  ultimately show ?thesis by (simp add: slice_chk_def)
qed

section \<open>Looking up a name\<close>

lemma utf8_valid_ascii: "\<forall>b \<in> set bs. b < 0x80 \<Longrightarrow> utf8_valid bs"
  by (induction bs) auto

text \<open>File names hold no null character.\<close>

definition proper_name :: "string \<Rightarrow> bool" where
  "proper_name name \<longleftrightarrow> CHR 0x00 \<notin> set name"

lemma entry_name:
  assumes "pack_name name = Some nm" and "proper_name name"
  obtains b where "encode_ascii name = Some b" and "position (\<lambda>x. x = 0) nm = Some (length b)"
    and "take (length b) nm = b" and "utf8_valid b"
proof -
  obtain b where b: "encode_ascii name = Some b" "nm = b @ replicate (32 - length b) 0" "length b < 32"
    using assms(1) by (rule pack_name_Some)
  have asc: "\<forall>c \<in> set name. (of_char c :: nat) < 128" and map: "b = map of_char name"
    using b(1) by (auto simp: encode_ascii_def list_all_iff split: if_splits)
  have u: "unat (of_char c :: u8) = of_char c" for c
    by (simp add: of_char_def unsigned_of_nat)
  have nz: "\<forall>x \<in> set b. x \<noteq> 0"
  proof
    fix x assume "x \<in> set b"
    then obtain c where c: "c \<in> set name" "x = of_char c" by (auto simp: map)
    then have "c \<noteq> CHR 0x00" using assms(2) by (auto simp: proper_name_def)
    then have "(of_char c :: nat) \<noteq> of_char (CHR 0x00)" by (metis char_of_char)
    then have "unat x \<noteq> 0" using u [of c] c(2) by simp
    then show "x \<noteq> 0" by auto
  qed
  have "replicate (32 - length b) (0 :: u8) = 0 # replicate (31 - length b) 0"
    using b(3) by (simp flip: replicate_Suc add: Suc_diff_Suc)
  then have "position (\<lambda>x. x = 0) nm = Some (length b)"
    using position_skip [of b "\<lambda>x. x = 0" "replicate (32 - length b) 0"] nz by (simp add: b(2))
  moreover have "utf8_valid b"
    by (rule utf8_valid_ascii) (use asc u in \<open>auto simp: map word_less_nat_alt\<close>)
  ultimately show ?thesis using that b by simp
qed

text \<open>One turn of the search compares with one packed name.\<close>

lemma fs_search_step:
  assumes b: "cxfs_build files = Some img" and names: "\<forall>f \<in> set files. proper_name (fst f)" and i: "i < length files"
  obtains bs where "encode_ascii (fst (files ! i)) = Some bs"
    and "\<And>is. fs_search img name (i # is) =
           (if eq_ignore_ascii_case bs name then Inr (Some (file_offset files i, snd (files ! i))) else fs_search img name is)"
proof -
  obtain packed pad where img: "img = MAGIC @ to_le32 (length files) @ concat packed @ concat (map snd files) @ pad"
    and len: "length packed = length files"
    and pe: "\<And>i. i < length files \<Longrightarrow> pack_entry (fst (files ! i), file_offset files i, length (snd (files ! i))) = Some (packed ! i)"
    using b by (rule cxfs_build_Some) (rule that)
  have l40: "length (packed ! k) = 40" if "k < length files" for k
    using pe [OF that] by (elim pack_entry_Some) (simp add: length_pack_name)
  then have all40: "\<forall>e \<in> set packed. length e = 40" using len by (metis in_set_conv_nth)
  obtain nm where nm: "pack_name (fst (files ! i)) = Some nm"
    and e: "packed ! i = nm @ to_le32 (file_offset files i) @ to_le32 (length (snd (files ! i)))"
    and fit: "file_offset files i < 2 ^ 32" "length (snd (files ! i)) < 2 ^ 32"
    using pe [OF i] by (rule pack_entry_Some)
  have "proper_name (fst (files ! i))" using names i by simp
  from entry_name [OF nm this] obtain bs where bs: "encode_ascii (fst (files ! i)) = Some bs"
    "position (\<lambda>x. x = 0) nm = Some (length bs)" "take (length bs) nm = bs" "utf8_valid bs" .
  note nm32 = length_pack_name [OF nm]
  have parts: "take NAME_LEN (packed ! i) = nm" "take 4 (drop 32 (packed ! i)) = to_le32 (file_offset files i)"
    "take 4 (drop 36 (packed ! i)) = to_le32 (length (snd (files ! i)))" by (simp_all add: e nm32 NAME_LEN_def)
  have "length (concat packed) = length packed * 40" using all40 by (induction packed) auto
  then have concat40: "length (concat packed) = length files * 40" by (simp add: len)
  note entry = archive_entry [OF img, of i] and contents = archive_file [OF img concat40 i]
  have "fs_search img name (i # is) =
      (if eq_ignore_ascii_case bs name then Inr (Some (file_offset files i, snd (files ! i))) else fs_search img name is)" for "is"
  proof -
    have "i < length packed" using i len by simp
    then show ?thesis
      using entry all40 bs nm32 contents fit
      by (simp add: parts Let_def le32_to_le32 del: take_take)
  qed
  with bs(1) that show ?thesis by blast
qed

definition name_matches :: "string \<Rightarrow> u8 list \<Rightarrow> bool" where
  "name_matches n name \<longleftrightarrow> (\<exists>bs. encode_ascii n = Some bs \<and> eq_ignore_ascii_case bs name)"

lemma fs_search_find:
  assumes b: "cxfs_build files = Some img" and names: "\<forall>f \<in> set files. proper_name (fst f)"
  shows "rbind (fs_search img name [j..<length files]) (\<lambda>f. Inr (map_option snd f))
    = Inr (map_option snd (find (\<lambda>f. name_matches (fst f) name) (drop j files)))"
proof (induction "length files - j" arbitrary: j)
  case 0
  then show ?case by simp
next
  case (Suc x)
  then have j: "j < length files" "[j..<length files] = j # [Suc j..<length files]"
    "drop j files = files ! j # drop (Suc j) files" by (simp_all add: upt_conv_Cons Cons_nth_drop_Suc)
  obtain bs where bs: "encode_ascii (fst (files ! j)) = Some bs"
    "\<And>is. fs_search img name (j # is) =
       (if eq_ignore_ascii_case bs name then Inr (Some (file_offset files j, snd (files ! j))) else fs_search img name is)"
    by (rule fs_search_step [OF b names j(1), of name]) (rule that)
  have "name_matches (fst (files ! j)) name \<longleftrightarrow> eq_ignore_ascii_case bs name" by (simp add: name_matches_def bs(1))
  with Suc.hyps(1) [of "Suc j"] Suc.hyps(2) show ?case by (simp add: j(2,3) bs(2) del: fs_search.simps)
qed

text \<open>The kernel reads an archive as the list of files it was built from.\<close>

lemma fs_open_build:
  assumes b: "cxfs_build files = Some img" and names: "\<forall>f \<in> set files. proper_name (fst f)"
  shows "fs_open (Some img) name = Inr (map_option snd (find (\<lambda>f. name_matches (fst f) name) files))"
proof -
  obtain packed pad where img: "img = MAGIC @ to_le32 (length files) @ concat packed @ concat (map snd files) @ pad"
    and n: "length files < 2 ^ 32" using b by (rule cxfs_build_Some) (rule that)
  have "slice_chk img 4 8 = Inr (to_le32 (length files))" by (simp add: img slice_chk_def MAGIC_def to_le32_def)
  with fs_search_find [OF b names, of name 0] show ?thesis by (simp add: fs_open_def fs_open_slice_def le32_to_le32 [OF n])
qed

text \<open>What \<open>open\<close> returns is a part of the archive.\<close>

lemma fs_search_slice: "fs_search data name is = Inr (Some (off, file)) \<Longrightarrow> off + length file \<le> length data \<and> file = take (length file) (drop off data)"
  by (induction "is") (auto simp: rbind_eq_Inr slice_chk_eq_Inr Let_def split: if_splits)

lemma fs_open_slice_part:
  "fs_open_slice (Some data) name = Inr (Some (off, file)) \<Longrightarrow> off + length file \<le> length data \<and> file = take (length file) (drop off data)"
  unfolding fs_open_slice_def option.case rbind_eq_Inr using fs_search_slice by blast

lemma build_header:
  assumes "cxfs_build files = Some img"
  shows "8 \<le> length img" and "take 4 img = MAGIC" and "le32 (take 4 (drop 4 img)) = length files" and "length img mod 512 = 0"
proof -
  obtain packed pad where img: "img = MAGIC @ to_le32 (length files) @ concat packed @ concat (map snd files) @ pad"
    and n: "length files < 2 ^ 32" "length img mod 512 = 0" using assms by (rule cxfs_build_Some) (rule that)
  show "8 \<le> length img" and "take 4 img = MAGIC" by (simp_all add: img MAGIC_def)
  have "take 4 (drop 4 img) = to_le32 (length files)" by (simp add: img MAGIC_def to_le32_def)
  then show "le32 (take 4 (drop 4 img)) = length files" by (simp add: le32_to_le32 [OF n(1)])
  show "length img mod 512 = 0" by (rule n(2))
qed

section \<open>A drive to read from\<close>

text \<open>The simplest drive that follows the standard: it is ready at once.\<close>

record drive_state =
  dr_regs :: "u16 \<Rightarrow> u8"
  dr_queue :: "u8 list option list"
  dr_words :: "u16 list"

definition drive_in8 :: "u16 \<Rightarrow> drive_state \<Rightarrow> u8 \<times> drive_state" where
  "drive_in8 p d =
     (if p = STATUS
      then case dr_queue d of
             [] \<Rightarrow> (0x50, d)
           | Some sec # rest \<Rightarrow> (0x58, d\<lparr>dr_queue := rest, dr_words := words_of sec\<rparr>)
           | None # rest \<Rightarrow> (0x51, d\<lparr>dr_queue := []\<rparr>)
      else (0, d))"

definition drive_in16 :: "u16 \<Rightarrow> drive_state \<Rightarrow> u16 \<times> drive_state" where
  "drive_in16 p d = (case dr_words d of [] \<Rightarrow> (0, d) | w # ws \<Rightarrow> (w, d\<lparr>dr_words := ws\<rparr>))"

definition drive_out8 :: "(Drive \<Rightarrow> u8 list list) \<Rightarrow> u16 \<Rightarrow> u8 \<Rightarrow> drive_state \<Rightarrow> drive_state" where
  "drive_out8 disk p v d =
     (if p = CMD then d\<lparr>dr_queue := requested disk (dr_regs d)\<rparr> else d\<lparr>dr_regs := (dr_regs d)(p := v)\<rparr>)"

definition simple_drive :: "(Drive \<Rightarrow> u8 list list) \<Rightarrow> drive_state device" where
  "simple_drive disk = \<lparr>in8 = drive_in8, in16 = drive_in16, out8 = drive_out8 disk\<rparr>"

definition drive_idle :: "drive_state \<Rightarrow> bool" where
  "drive_idle d \<longleftrightarrow> dr_queue d = [] \<and> dr_words d = []"

definition drive_transfer :: "u8 list option list \<Rightarrow> drive_state \<Rightarrow> bool" where
  "drive_transfer q d \<longleftrightarrow> dr_queue d = q \<and> dr_words d = []"

lemma simple_drive_feeds:
  "feeds (simple_drive disk) (dr_words d) d (d\<lparr>dr_words := []\<rparr>)"
proof (induction "dr_words d" arbitrary: d)
  case Nil
  then show ?case by (metis drive_state.surjective drive_state.update_convs(3) feeds.simps(1))
next
  case (Cons w ws)
  have "feeds (simple_drive disk) ws (d\<lparr>dr_words := ws\<rparr>) (d\<lparr>dr_words := []\<rparr>)"
    using Cons.hyps(1) [of "d\<lparr>dr_words := ws\<rparr>"] by simp
  then show ?case using Cons.hyps(2) [symmetric] by (simp add: simple_drive_def drive_in16_def)
qed

lemma simple_drive_ok:
  assumes "\<forall>drv. \<forall>sec \<in> set (disk drv). length sec = 512"
  shows "ata_drive (simple_drive disk) disk drive_idle dr_regs drive_transfer"
  unfolding ata_drive_def
proof (intro conjI allI impI)
  fix sec rest d assume "drive_transfer (Some sec # rest) d"
  then have "answers (simple_drive disk) 0 0x58 d (d\<lparr>dr_queue := rest, dr_words := words_of sec\<rparr>)"
    by (simp add: drive_transfer_def simple_drive_def drive_in8_def)
  moreover have "feeds (simple_drive disk) (words_of sec) (d\<lparr>dr_queue := rest, dr_words := words_of sec\<rparr>) (d\<lparr>dr_queue := rest, dr_words := []\<rparr>)"
    using simple_drive_feeds [of disk "d\<lparr>dr_queue := rest, dr_words := words_of sec\<rparr>"] by simp
  moreover have "drive_transfer rest (d\<lparr>dr_queue := rest, dr_words := []\<rparr>)" by (simp add: drive_transfer_def)
  moreover have "(0x58 :: u8) AND ERR_BIT = 0" "(0x58 :: u8) AND BSY = 0" "(0x58 :: u8) AND DRQ \<noteq> 0"
    by (simp_all add: ERR_BIT_def BSY_def DRQ_def)
  ultimately show "\<exists>k s e d'. k < 1000000 \<and> answers (simple_drive disk) k s d e \<and> s AND ERR_BIT = 0 \<and> s AND BSY = 0 \<and> s AND DRQ \<noteq> 0 \<and>
      feeds (simple_drive disk) (words_of sec) e d' \<and> drive_transfer rest d'"
    by (intro exI [of _ 0] exI [of _ "0x58"] exI [of _ "d\<lparr>dr_queue := rest, dr_words := words_of sec\<rparr>"]
        exI [of _ "d\<lparr>dr_queue := rest, dr_words := []\<rparr>"]) simp
next
  fix rest d assume "drive_transfer (None # rest) d"
  then have "answers (simple_drive disk) 0 0x51 d (d\<lparr>dr_queue := []\<rparr>)" "drive_idle (d\<lparr>dr_queue := []\<rparr>)"
    by (simp_all add: drive_transfer_def simple_drive_def drive_in8_def drive_idle_def)
  moreover have "(0x51 :: u8) \<noteq> 0xFF" "(0x51 :: u8) AND ERR_BIT \<noteq> 0" by (simp_all add: ERR_BIT_def)
  ultimately show "\<exists>k s d'. k < 1000000 \<and> answers (simple_drive disk) k s d d' \<and> s \<noteq> 0xFF \<and> s AND ERR_BIT \<noteq> 0 \<and> drive_idle d'"
    by (intro exI [of _ 0] exI [of _ "0x51"] exI [of _ "d\<lparr>dr_queue := []\<rparr>"]) simp
qed (use assms in \<open>auto simp: simple_drive_def drive_idle_def drive_transfer_def drive_in8_def drive_out8_def port_defs\<close>)

section \<open>Properties\<close>

text \<open>The image of a drive: its sectors, one after the other.\<close>

definition drive_image :: "(Drive \<Rightarrow> u8 list list) \<Rightarrow> u8 list \<Rightarrow> bool" where
  "drive_image disk img \<longleftrightarrow> concat (disk Slave) = img"

lemma image_sectors:
  assumes "ata_drive dev disk idle regs transfer" and "drive_image disk img"
  shows "length img = length (disk Slave) * 512"
  using length_concat_sectors [of "disk Slave"] ata_driveD(1) [OF assms(1)] assms(2) by (simp add: drive_image_def)

lemma concat_chunks_exact: "length xs = k * n \<Longrightarrow> concat (chunks_exact k n xs) = xs"
  by (induction k n xs rule: chunks_exact.induct) simp_all

definition demo_files :: "(string \<times> u8 list) list" where
  "demo_files = [(''doom1.wad'', replicate 70000 7)]"

definition demo_img :: "u8 list" where
  "demo_img = MAGIC @ to_le32 1 @ map of_char ''doom1.wad'' @ replicate 23 0 @ to_le32 48 @ to_le32 70000 @ replicate 70000 7 @ replicate 96 0"

definition demo_disk :: "u8 list \<Rightarrow> Drive \<Rightarrow> u8 list list" where
  "demo_disk img drv = (case drv of Master \<Rightarrow> [] | Slave \<Rightarrow> chunks_exact (length img div 512) 512 img)"

definition demo_drive_state :: drive_state where
  "demo_drive_state = \<lparr>dr_regs = (\<lambda>_. 0), dr_queue = [], dr_words = []\<rparr>"

lemma demo_build: "cxfs_build demo_files = Some demo_img"
  by (simp add: cxfs_build_def demo_files_def demo_img_def pack_entry_def pack_name_def encode_ascii_def pack_u32_def
      NAME_LEN_def ENTRY_SIZE_def MAGIC_def Let_def)

lemma length_demo_img: "length demo_img = 70144"
  by (simp add: demo_img_def MAGIC_def)

lemma demo_disk_ok:
  assumes "length img mod 512 = 0"
  shows "ata_drive (simple_drive (demo_disk img)) (demo_disk img) drive_idle dr_regs drive_transfer"
    and "drive_image (demo_disk img) img" and "drive_idle demo_drive_state"
proof -
  have len: "length img = length img div 512 * 512" using assms by (simp add: mod_eq_0_iff_dvd)
  then show "drive_image (demo_disk img) img"
    using concat_chunks_exact [OF len] by (simp add: drive_image_def demo_disk_def)
  have "\<forall>sec \<in> set (demo_disk img Slave). length sec = 512"
    unfolding demo_disk_def Drive.case by (rule chunks_exact_length(2)) (rule div_times_less_eq_dividend)
  moreover have "demo_disk img Master = []" by (simp add: demo_disk_def)
  ultimately have "\<forall>sec \<in> set (demo_disk img drv). length sec = 512" for drv by (cases drv) simp_all
  then show "ata_drive (simple_drive (demo_disk img)) (demo_disk img) drive_idle dr_regs drive_transfer"
    by (intro simple_drive_ok allI)
qed (simp add: drive_idle_def demo_drive_state_def)



text \<open>C25. An archive on a drive of less than 64 KiB cannot be used: the first read, of 128 sectors,
  runs past the end of the drive, and \<open>init\<close> reports a disk error instead of falling back to single
  sectors.\<close>

theorem small_archive_fails:
  assumes "ata_drive dev disk idle regs transfer" and "idle d"
    and "drive_image disk img" and "length img < 64 * 1024"
  shows "\<exists>d'. fs_init dev archive d = Inr (Inl FsDiskError, archive, d')"
proof -
  have len: "length img = length (disk Slave) * 512" by (rule image_sectors [OF assms(1,3)])
  then have small: "length (disk Slave) < min ((6 * 1024 * 1024 + 511) div 512) 128" using assms(4) by simp
  have "(6 * 1024 * 1024 + 511) div 512 \<le> (2 :: nat) ^ 28" by simp
  from read_all_small [OF assms(1,2) this small] obtain d'
    where "read_all dev Slave (6 * 1024 * 1024) d = Inr (Inl DiskError, d')" by blast
  then show ?thesis by (simp add: fs_init_def)
qed

theorem small_archive_fails_witness:
  "length (MAGIC @ replicate 508 0) < 64 * 1024
   \<and> (\<exists>d'. fs_init (simple_drive (demo_disk (MAGIC @ replicate 508 0))) None demo_drive_state = Inr (Inl FsDiskError, None, d'))"
proof -
  have mod: "length (MAGIC @ replicate 508 (0 :: u8)) mod 512 = 0" by (simp add: MAGIC_def)
  have "length (MAGIC @ replicate 508 (0 :: u8)) < 64 * 1024" by (simp add: MAGIC_def)
  with small_archive_fails [OF demo_disk_ok(1,3,2) [OF mod] this, of None] show ?thesis by blast
qed

end
