(* ===== verification/Doom_Glue.thy ===== *)
theory Doom_Glue
  imports Vga_Mode13 Cxfs
begin

text \<open>
  The services the Doom engine calls (\<open>src/ffi/mod.rs\<close>): the palette of the game data, the copy of a
  frame to the screen, time and sleeping. The game data is any byte string an archive may hold.
\<close>

section \<open>The palette\<close>

definition IWAD :: "u8 list" where "IWAD = [0x49, 0x57, 0x41, 0x44]"
definition PWAD :: "u8 list" where "PWAD = [0x50, 0x57, 0x41, 0x44]"
definition PLAYPAL :: "u8 list" where "PLAYPAL = [0x50, 0x4C, 0x41, 0x59, 0x50, 0x41, 0x4C]"

fun palette_loop :: "'d device \<Rightarrow> nat \<Rightarrow> u8 list list \<Rightarrow> 'd \<Rightarrow> 'd res" where
  "palette_loop dev idx [] d = Inr d"
| "palette_loop dev idx (chunk # chunks) d =
     rbind (index_chk chunk 0) (\<lambda>r. rbind (index_chk chunk 1) (\<lambda>g. rbind (index_chk chunk 2) (\<lambda>b.
       palette_loop dev (idx + 1) chunks (set_palette_entry dev (of_nat idx) r g b d))))"

text \<open>The loop over the directory. Offsets and counts are below \<open>2 ^ 32\<close>, so that sums are those of \<open>nat\<close>.\<close>

fun playpal_loop :: "'d device \<Rightarrow> u8 list \<Rightarrow> nat \<Rightarrow> nat list \<Rightarrow> 'd \<Rightarrow> 'd res" where
  "playpal_loop dev wad dir_offset [] d = Inr d"
| "playpal_loop dev wad dir_offset (i # is) d =
     (let base = dir_offset + i * 16 in
      if base + 16 > length wad then Inr d
      else
        rbind (slice_chk wad base (base + 16)) (\<lambda>entry.
        rbind (slice_chk entry 8 16) (\<lambda>name.
          let e = (case position (\<lambda>b. b = 0) name of None \<Rightarrow> 8 | Some e \<Rightarrow> e) in
        rbind (slice_chk name 0 e) (\<lambda>nm.
          if nm \<noteq> PLAYPAL then playpal_loop dev wad dir_offset is d
          else
            rbind (slice_chk entry 0 4) (\<lambda>off. rbind (slice_chk entry 4 8) (\<lambda>sz.
              let lump_off = le32 off; lump_size = le32 sz in
              if lump_size < 768 \<or> lump_off + 768 > length wad then Inr d
              else rbind (slice_chk wad lump_off (lump_off + 768)) (\<lambda>palette.
                     palette_loop dev 0 (chunks_exact (length palette div 3) 3 palette) d)))))))"

definition load_playpal :: "'d device \<Rightarrow> u8 list \<Rightarrow> 'd \<Rightarrow> 'd res" where
  "load_playpal dev wad d =
     (if length wad < 12 then Inr d
      else rbind (slice_chk wad 0 4) (\<lambda>magic.
        if magic \<noteq> IWAD \<and> magic \<noteq> PWAD then Inr d
        else
          rbind (slice_chk wad 4 8) (\<lambda>nl. rbind (slice_chk wad 8 12) (\<lambda>dir.
            playpal_loop dev wad (le32 dir) [0..<le32 nl] d))))"

text \<open>The name is \<open>doom1.wad\<close>.\<close>

definition DG_Init :: "'d device \<Rightarrow> u8 list option \<Rightarrow> 'd \<Rightarrow> 'd res" where
  "DG_Init dev archive d =
     rbind (fs_open archive [0x64, 0x6F, 0x6F, 0x6D, 0x31, 0x2E, 0x77, 0x61, 0x64]) (\<lambda>f.
       case f of Some wad \<Rightarrow> load_playpal dev wad d | None \<Rightarrow> Inr d)"

section \<open>Frames and time\<close>

definition DG_DrawFrame :: "u64 \<Rightarrow> memory \<Rightarrow> memory" where
  "DG_DrawFrame DG_ScreenBuffer m =
     (if DG_ScreenBuffer = 0 then m
      else (\<lambda>a. if in_fb a then m (DG_ScreenBuffer + (a - FB_ADDR)) else m a))"

definition DG_GetTicksMs :: "u64 \<Rightarrow> u32 res" where
  "DG_GetTicksMs uptime = rbind (mul_ovf uptime 10) (\<lambda>t. Inr (ucast t))"

text \<open>\<open>uptime n\<close> is what the \<open>n\<close>-th test of the loop reads; each test that fails is followed by \<open>hlt\<close>.\<close>

partial_function (option) sleep_until :: "(nat \<Rightarrow> u64) \<Rightarrow> u64 \<Rightarrow> nat \<Rightarrow> nat option" where
  "sleep_until uptime target n = (if uptime n < target then sleep_until uptime target (n + 1) else Some n)"

definition DG_SleepMs :: "u32 \<Rightarrow> u64 \<Rightarrow> (nat \<Rightarrow> u64) \<Rightarrow> nat option res" where
  "DG_SleepMs ms now uptime =
     rbind (add_ovf now (max (ucast ms div 10) 1)) (\<lambda>target. Inr (sleep_until uptime target 0))"

lemma sleep_until_first:
  "n \<le> k \<Longrightarrow> target \<le> uptime k \<Longrightarrow> \<forall>m. n \<le> m \<and> m < k \<longrightarrow> uptime m < target \<Longrightarrow> sleep_until uptime target n = Some k"
proof (induction "k - n" arbitrary: n)
  case 0
  then have "\<not> uptime n < target" by auto
  with 0 show ?case by (subst sleep_until.simps) simp
next
  case (Suc d)
  then have "uptime n < target" by auto
  moreover have "sleep_until uptime target (n + 1) = Some k" using Suc by auto
  ultimately show ?case by (subst sleep_until.simps) simp
qed

text \<open>Once the clock reaches the target, the call returns, at the first test that sees it.\<close>

lemma DG_SleepMs_returns:
  assumes "add_ovf now (max (ucast ms div 10) 1) = Inr target" and "target \<le> uptime k" and "\<forall>m < k. uptime m < target"
  shows "DG_SleepMs ms now uptime = Inr (Some k)"
  using assms sleep_until_first [of 0 k target uptime] by (simp add: DG_SleepMs_def)

text \<open>The milliseconds are exact until the product leaves 32 bits, after 49 days.\<close>

lemma DG_GetTicksMs_exact:
  assumes "unat uptime * 10 < 2 ^ 32"
  shows "\<exists>t. DG_GetTicksMs uptime = Inr t \<and> unat t = unat uptime * 10"
proof -
  have "unat uptime * unat (10 :: u64) < 2 ^ LENGTH(64)" using assms by simp
  then have "mul_ovf uptime 10 = Inr (uptime * 10)" "unat (uptime * 10) = unat uptime * 10"
    by (simp_all add: mul_ovf_def unat_mul_no_ovf)
  then show ?thesis using assms by (simp add: DG_GetTicksMs_def unsigned_ucast_eq take_bit_nat_eq_self)
qed

section \<open>What the palette is\<close>

definition lump_name :: "u8 list \<Rightarrow> nat \<Rightarrow> nat \<Rightarrow> u8 list" where
  "lump_name wad dir i = takeWhile (\<lambda>b. b \<noteq> 0) (take 8 (drop (dir + i * 16 + 8) wad))"

definition palette_at :: "u8 list \<Rightarrow> nat \<Rightarrow> u8 list option" where
  "palette_at wad base =
     (let off = le32 (take 4 (drop base wad)); sz = le32 (take 4 (drop (base + 4) wad)) in
      if sz < 768 \<or> off + 768 > length wad then None else Some (take 768 (drop off wad)))"

text \<open>The first lump called \<open>PLAYPAL\<close> among the directory entries that lie in the file.\<close>

definition playpal :: "u8 list \<Rightarrow> u8 list option" where
  "playpal wad =
     (let n = le32 (take 4 (drop 4 wad)); dir = le32 (take 4 (drop 8 wad)) in
      if length wad < 12 \<or> take 4 wad \<notin> {IWAD, PWAD} then None
      else case find (\<lambda>i. lump_name wad dir i = PLAYPAL) [0..<min n ((length wad - dir) div 16)] of
             None \<Rightarrow> None
           | Some i \<Rightarrow> palette_at wad (dir + i * 16))"

text \<open>The colours of the card, from the given palette if there is one.\<close>

definition colours :: "u8 list option \<Rightarrow> (u8 \<Rightarrow> nat \<Rightarrow> u8) \<Rightarrow> u8 \<Rightarrow> nat \<Rightarrow> u8" where
  "colours p f = (case p of None \<Rightarrow> f | Some pal \<Rightarrow> (\<lambda>i c. if c < 3 then drop_bit 2 (pal ! (unat i * 3 + c)) else f i c))"

lemma palette_loop_dac:
  assumes vga: "vga_card dev view"
  shows "\<forall>c \<in> set chunks. length c = 3 \<Longrightarrow> idx + length chunks \<le> 256 \<Longrightarrow>
    \<exists>d'. palette_loop dev idx chunks d = Inr d' \<and>
      dac (view d') = (\<lambda>i c. if idx \<le> unat i \<and> unat i < idx + length chunks \<and> c < 3
                             then drop_bit 2 (chunks ! (unat i - idx) ! c) else dac (view d) i c)"
proof (induction chunks arbitrary: idx d)
  case Nil
  show ?case by (rule exI [of _ d]) (auto intro!: ext)
next
  case (Cons ch chunks)
  let ?d = "set_palette_entry dev (of_nat idx) (ch ! 0) (ch ! 1) (ch ! 2) d"
  obtain d' where d': "palette_loop dev (idx + 1) chunks ?d = Inr d'"
    "dac (view d') = (\<lambda>i c. if idx + 1 \<le> unat i \<and> unat i < idx + 1 + length chunks \<and> c < 3
                             then drop_bit 2 (chunks ! (unat i - (idx + 1)) ! c) else dac (view ?d) i c)"
    using Cons.IH [of "idx + 1" ?d] Cons.prems by auto
  have idx: "unat (of_nat idx :: u8) = idx" using Cons.prems by (simp add: unat_of_nat)
  have c3: "c = 0 \<or> c = 1 \<or> c = 2" if "c < 3" for c :: nat using that by auto
  have "dac (view d') i c = (if idx \<le> unat i \<and> unat i < idx + length (ch # chunks) \<and> c < 3
          then drop_bit 2 ((ch # chunks) ! (unat i - idx) ! c) else dac (view d) i c)" for i c
  proof (cases "unat i = idx")
    case True
    then have "i = of_nat idx" by (simp add: word_unat_eq_iff idx)
    then show ?thesis using True c3 [of c] by (auto simp: d'(2) set_palette_entry_dac [OF vga])
  next
    case False
    then have "i \<noteq> of_nat idx" using idx by auto
    then have "dac (view ?d) i c = dac (view d) i c" by (simp add: set_palette_entry_dac [OF vga])
    with False show ?thesis unfolding d'(2) by (auto simp: nth_Cons')
  qed
  moreover have "palette_loop dev idx (ch # chunks) d = Inr d'"
    using d'(1) Cons.prems(1) by simp
  ultimately show ?case by blast
qed

lemma chunks_exact_nth:
  "i < k \<Longrightarrow> c < n \<Longrightarrow> k * n \<le> length xs \<Longrightarrow> chunks_exact k n xs ! i ! c = xs ! (i * n + c)"
proof (induction k arbitrary: i xs)
  case (Suc k)
  then show ?case
  proof (cases i)
    case (Suc j)
    have "k * n \<le> length (drop n xs)" using Suc.prems(3) by simp
    then show ?thesis using Suc.IH [of j "drop n xs"] Suc Suc.prems by (simp add: add.assoc)
  qed simp
qed simp

lemma palette_loaded:
  assumes vga: "vga_card dev view" and pal: "length pal = 768"
  shows "\<exists>d'. palette_loop dev 0 (chunks_exact 256 3 pal) d = Inr d' \<and> dac (view d') = colours (Some pal) (dac (view d))"
proof -
  have "length (chunks_exact 256 3 pal) = 256" "\<forall>c \<in> set (chunks_exact 256 3 pal). length c = 3"
    using chunks_exact_length [of 256 3 pal] pal by simp_all
  moreover have "unat i < 256" for i :: u8 using unat_bound [of i] by simp
  ultimately show ?thesis
    using palette_loop_dac [OF vga, of "chunks_exact 256 3 pal" 0 d] chunks_exact_nth [of _ 256 _ 3 pal] pal
    by (auto simp: colours_def intro!: ext)
qed

lemma take_position: "length xs = n \<Longrightarrow> take (case position (\<lambda>x. x = a) xs of None \<Rightarrow> n | Some e \<Rightarrow> e) xs = takeWhile (\<lambda>x. x \<noteq> a) xs"
proof (induction xs arbitrary: n)
  case (Cons x xs)
  show ?case using Cons.prems Cons.IH [OF refl] by (cases "position (\<lambda>x. x = a) xs") auto
qed simp

lemma slice_position:
  assumes "length xs = n"
  shows "slice_chk xs 0 (case position (\<lambda>x. x = a) xs of None \<Rightarrow> n | Some e \<Rightarrow> e) = Inr (takeWhile (\<lambda>x. x \<noteq> a) xs)"
proof -
  have "(case position (\<lambda>x. x = a) xs of None \<Rightarrow> n | Some e \<Rightarrow> e) \<le> length xs"
    using position_Some [of "\<lambda>x. x = a" xs] assms by (auto split: option.splits)
  then show ?thesis using take_position [OF assms, of a] by (simp add: slice_chk_def)
qed

lemma playpal_loop_step:
  assumes "dir + i * 16 + 16 \<le> length wad"
  shows "playpal_loop dev wad dir (i # is) d =
    (if lump_name wad dir i = PLAYPAL
     then (case palette_at wad (dir + i * 16) of
             None \<Rightarrow> Inr d | Some pal \<Rightarrow> palette_loop dev 0 (chunks_exact 256 3 pal) d)
     else playpal_loop dev wad dir is d)"
proof -
  define b where "b = dir + i * 16"
  define e where "e = take 16 (drop b wad)"
  define n where "n = take 8 (drop 8 e)"
  have e: "slice_chk wad b (b + 16) = Inr e" and le: "length e = 16"
    using assms by (simp_all add: e_def b_def slice_chk_def)
  have n: "slice_chk e 8 16 = Inr n" "length n = 8" and o: "slice_chk e 0 4 = Inr (take 4 e)"
    and z: "slice_chk e 4 8 = Inr (take 4 (drop 4 e))"
    using le by (simp_all add: slice_chk_def n_def)
  have te: "take 4 e = take 4 (drop b wad)" "take 4 (drop 4 e) = take 4 (drop (b + 4) wad)"
    by (simp_all add: e_def drop_take add.commute)
  have nm: "takeWhile (\<lambda>b. b \<noteq> 0) n = lump_name wad dir i"
    by (simp add: lump_name_def n_def e_def b_def drop_take add.commute)
  have p: "slice_chk wad off (off + 768) = Inr (take 768 (drop off wad))"
    "min (length wad - off) 768 div 3 = 256" if "\<not> length wad < off + 768" for off
    using that by (simp_all add: slice_chk_def)
  have "\<not> length wad < b + 16" using assms by (simp add: b_def)
  then show ?thesis
    by (simp add: Let_def flip: b_def) (simp add: e n o z te slice_position nm palette_at_def Let_def p)
qed

lemma playpal_loop_end: "length wad < dir + i * 16 + 16 \<Longrightarrow> playpal_loop dev wad dir (i # is) d = Inr d"
  by (simp add: Let_def)

lemma playpal_loop_find:
  "playpal_loop dev wad dir is d =
     (case find (\<lambda>i. lump_name wad dir i = PLAYPAL) (takeWhile (\<lambda>i. i < (length wad - dir) div 16) is) of
        None \<Rightarrow> Inr d
      | Some i \<Rightarrow> (case palette_at wad (dir + i * 16) of
                   None \<Rightarrow> Inr d | Some pal \<Rightarrow> palette_loop dev 0 (chunks_exact 256 3 pal) d))"
proof (induction "is")
  case (Cons i "is")
  have "i < (length wad - dir) div 16 \<longleftrightarrow> dir + i * 16 + 16 \<le> length wad"
    using less_eq_div_iff_mult_less_eq [of 16 "Suc i" "length wad - dir"] by auto
  then show ?case
    using Cons playpal_loop_end [of wad dir i dev "is" d] playpal_loop_step [of dir i wad dev "is" d]
    by (cases "dir + i * 16 + 16 \<le> length wad") (simp_all del: playpal_loop.simps)
qed simp

lemma takeWhile_less_upt: "takeWhile (\<lambda>i. i < m) [0..<n] = [0..<min n m]"
proof (induction n)
  case (Suc n)
  show ?case
  proof (cases "n < m")
    case True
    then have "takeWhile (\<lambda>i. i < m) [0..<n] = [0..<n]" using Suc by simp
    with True show ?thesis by (simp add: takeWhile_append2)
  next
    case False
    with Suc show ?thesis by (cases "m = n") (auto simp: takeWhile_append min_def)
  qed
qed simp

text \<open>
  C23. The palette of the game data reaches the card, for every byte string whatever. \<open>load_playpal\<close> never
  panics, and afterwards the colours of the card are those of the first lump called \<open>PLAYPAL\<close> among the
  directory entries inside the file, reduced to six bits each; without a header, such a lump, or 768
  bytes of it inside the file, they are what they were.
\<close>

theorem load_playpal_colours:
  assumes vga: "vga_card dev view"
  shows "\<exists>d'. load_playpal dev wad d = Inr d' \<and> dac (view d') = colours (playpal wad) (dac (view d))"
proof (cases "length wad < 12 \<or> take 4 wad \<notin> {IWAD, PWAD}")
  case True
  then show ?thesis by (auto simp: load_playpal_def playpal_def colours_def slice_chk_def)
next
  case False
  define n where "n = le32 (take 4 (drop 4 wad))"
  define dir where "dir = le32 (take 4 (drop 8 wad))"
  have l: "load_playpal dev wad d = playpal_loop dev wad dir [0..<n] d"
    using False by (auto simp: load_playpal_def slice_chk_def n_def dir_def)
  have pl: "playpal wad = (case find (\<lambda>i. lump_name wad dir i = PLAYPAL) [0..<min n ((length wad - dir) div 16)] of
             None \<Rightarrow> None | Some i \<Rightarrow> palette_at wad (dir + i * 16))"
    unfolding n_def dir_def playpal_def Let_def using False by (simp only: if_False)
  have "palette_at wad b = Some pal \<Longrightarrow> length pal = 768" for b pal
    by (auto simp: palette_at_def Let_def split: if_splits)
  then show ?thesis
    unfolding l pl playpal_loop_find takeWhile_less_upt using palette_loaded [OF vga]
    by (auto simp: colours_def split: option.splits)
qed

text \<open>A file with one lump, a white palette.\<close>

definition demo_wad :: "u8 list" where
  "demo_wad = IWAD @ to_le32 1 @ to_le32 12 @ (to_le32 28 @ to_le32 768 @ PLAYPAL @ [0]) @ replicate 768 0xFF"

lemma demo_wad_playpal: "playpal demo_wad = Some (replicate 768 0xFF)"
proof -
  have "length demo_wad = 796" by (simp add: demo_wad_def IWAD_def PLAYPAL_def)
  moreover have "le32 (take 4 (drop 4 demo_wad)) = 1" "le32 (take 4 (drop 8 demo_wad)) = 12"
    "le32 (take 4 (drop 12 demo_wad)) = 28" "le32 (take 4 (drop 16 demo_wad)) = 768"
    by (simp_all add: demo_wad_def IWAD_def PLAYPAL_def to_le32_def le32_def)
  moreover have "lump_name demo_wad 12 0 = PLAYPAL"
    by (simp add: lump_name_def demo_wad_def IWAD_def PLAYPAL_def to_le32_def)
  moreover have "take 768 (drop 28 demo_wad) = replicate 768 0xFF" "take 4 demo_wad = IWAD"
    by (simp_all add: demo_wad_def IWAD_def PLAYPAL_def to_le32_def)
  ultimately show ?thesis by (simp add: playpal_def palette_at_def upt_rec)
qed

theorem load_playpal_colours_witness:
  "vga_card vga_device (\<lambda>r. r)
   \<and> (\<exists>d'. load_playpal vga_device demo_wad text_mode = Inr d' \<and> dac text_mode 7 0 = 0 \<and> dac d' 7 0 = 0x3F)"
proof
  show c: "vga_card vga_device (\<lambda>r. r)" by (rule vga_device_card)
  obtain d' where "load_playpal vga_device demo_wad text_mode = Inr d'"
    "dac d' = colours (playpal demo_wad) (dac text_mode)"
    using load_playpal_colours [OF c] by blast
  moreover have "dac text_mode 7 0 = 0" by (simp add: text_mode_def)
  ultimately show "\<exists>d'. load_playpal vga_device demo_wad text_mode = Inr d' \<and> dac text_mode 7 0 = 0 \<and> dac d' 7 0 = 0x3F"
    by (simp add: demo_wad_playpal colours_def)
qed

end
