(* ===== verification/Vga_Text.thy ===== *)
theory Vga_Text
  imports Rust_Prelude
begin

text \<open>
  The text console (\<open>src/vga_buffer.rs\<close>): the writer with its cursor on the bottom row and the screen of
  25 rows of 80 cells, cell access by cell access. The writer is shown equivalent to a terminal that
  keeps every line ever finished, of which the screen is the last 25 rows.
\<close>

section \<open>The writer\<close>

definition BUFFER_HEIGHT :: usize where "BUFFER_HEIGHT = 25"
definition BUFFER_WIDTH :: usize where "BUFFER_WIDTH = 80"

datatype Color =
  Black | Blue | Green | Cyan | Red | Magenta | Brown | LightGray
  | DarkGray | LightBlue | LightGreen | LightCyan | LightRed | Pink | Yellow | White

fun color_value :: "Color \<Rightarrow> u8" where
  "color_value Black = 0" | "color_value Blue = 1" | "color_value Green = 2" | "color_value Cyan = 3"
| "color_value Red = 4" | "color_value Magenta = 5" | "color_value Brown = 6" | "color_value LightGray = 7"
| "color_value DarkGray = 8" | "color_value LightBlue = 9" | "color_value LightGreen = 10" | "color_value LightCyan = 11"
| "color_value LightRed = 12" | "color_value Pink = 13" | "color_value Yellow = 14" | "color_value White = 15"

type_synonym ColorCode = u8

definition ColorCode_new :: "Color \<Rightarrow> Color \<Rightarrow> ColorCode" where
  "ColorCode_new fg bg = push_bit 4 (color_value bg) OR color_value fg"

record ScreenChar =
  ascii_character :: u8
  color_code :: ColorCode

record Writer =
  column_position :: usize
  writer_color :: ColorCode
  buffer :: "ScreenChar list list"

text \<open>\<open>buffer.chars[row][col]\<close>, read and written.\<close>

definition char_read :: "usize \<Rightarrow> usize \<Rightarrow> Writer \<Rightarrow> ScreenChar res" where
  "char_read row col w = rbind (index_chk (buffer w) (unat row)) (\<lambda>r. index_chk r (unat col))"

definition char_write :: "usize \<Rightarrow> usize \<Rightarrow> ScreenChar \<Rightarrow> Writer \<Rightarrow> Writer res" where
  "char_write row col c w =
     rbind (char_read row col w) (\<lambda>_.
       Inr (w\<lparr>buffer := (buffer w)[unat row := (buffer w ! unat row)[unat col := c]]\<rparr>))"

text \<open>\<open>for x in a..b\<close> over a writer.\<close>

fun for_each :: "usize list \<Rightarrow> (usize \<Rightarrow> Writer \<Rightarrow> Writer res) \<Rightarrow> Writer \<Rightarrow> Writer res" where
  "for_each [] f w = Inr w"
| "for_each (x # xs) f w = rbind (f x w) (for_each xs f)"

definition urange :: "usize \<Rightarrow> usize \<Rightarrow> usize list" where
  "urange a b = map of_nat [unat a..<unat b]"

definition clear_row :: "usize \<Rightarrow> Writer \<Rightarrow> Writer res" where
  "clear_row row w =
     (let blank = \<lparr>ascii_character = 0x20, color_code = writer_color w\<rparr> in
      for_each (urange 0 BUFFER_WIDTH) (\<lambda>col. char_write row col blank) w)"

definition new_line :: "Writer \<Rightarrow> Writer res" where
  "new_line w =
     rbind (for_each (urange 1 BUFFER_HEIGHT) (\<lambda>row.
              for_each (urange 0 BUFFER_WIDTH) (\<lambda>col w.
                rbind (char_read row col w) (\<lambda>ch.
                rbind (sub_ovf row 1) (\<lambda>up. char_write up col ch w)))) w) (\<lambda>w.
     rbind (sub_ovf BUFFER_HEIGHT 1) (\<lambda>bottom.
     rbind (clear_row bottom w) (\<lambda>w.
       Inr (w\<lparr>column_position := 0\<rparr>))))"

definition backspace :: "Writer \<Rightarrow> Writer res" where
  "backspace w =
     (if column_position w > 0
      then rbind (sub_ovf (column_position w) 1) (\<lambda>col.
             let w = w\<lparr>column_position := col\<rparr> in
             rbind (sub_ovf BUFFER_HEIGHT 1) (\<lambda>row.
               char_write row col \<lparr>ascii_character = 0x20, color_code = writer_color w\<rparr> w))
      else Inr w)"

definition clear_screen :: "Writer \<Rightarrow> Writer res" where
  "clear_screen w =
     rbind (for_each (urange 0 BUFFER_HEIGHT) clear_row w) (\<lambda>w. Inr (w\<lparr>column_position := 0\<rparr>))"

definition write_byte :: "u8 \<Rightarrow> Writer \<Rightarrow> Writer res" where
  "write_byte byte w =
     (if byte = 0x0A then new_line w
      else if byte = 0x08 then backspace w
      else
        rbind (if column_position w \<ge> BUFFER_WIDTH then new_line w else Inr w) (\<lambda>w.
        rbind (sub_ovf BUFFER_HEIGHT 1) (\<lambda>row.
        let col = column_position w in
        rbind (char_write row col \<lparr>ascii_character = byte, color_code = writer_color w\<rparr> w) (\<lambda>w.
        rbind (add_ovf (column_position w) 1) (\<lambda>c.
          Inr (w\<lparr>column_position := c\<rparr>))))))"

fun write_string :: "u8 list \<Rightarrow> Writer \<Rightarrow> Writer res" where
  "write_string [] w = Inr w"
| "write_string (byte # s) w =
     rbind (if 0x20 \<le> byte \<and> byte \<le> 0x7e \<or> byte = 0x0A \<or> byte = 0x08 then write_byte byte w
            else write_byte 0xfe w) (write_string s)"

section \<open>The screen\<close>

definition screen_ok :: "Writer \<Rightarrow> bool" where
  "screen_ok w \<longleftrightarrow> length (buffer w) = 25 \<and> (\<forall>r \<in> set (buffer w). length r = 80) \<and> unat (column_position w) \<le> 80"

definition blank :: "Writer \<Rightarrow> ScreenChar" where
  "blank w = \<lparr>ascii_character = 0x20, color_code = writer_color w\<rparr>"

lemma char_write_ok:
  assumes "unat row < length (buffer w)" and "unat col < length (buffer w ! unat row)"
  shows "char_write row col c w = Inr (w\<lparr>buffer := (buffer w)[unat row := (buffer w ! unat row)[unat col := c]]\<rparr>)"
  using assms by (simp add: char_write_def char_read_def)

lemma for_each_append: "for_each (xs @ ys) f w = rbind (for_each xs f w) (for_each ys f)"
  by (induction xs arbitrary: w) (auto simp: rbind_def split: sum.splits)

lemma take_step:
  assumes "n < length xs" and "length xs = length ys"
  shows "(take n xs @ drop n ys)[n := xs ! n] = take (Suc n) xs @ drop (Suc n) ys"
proof -
  have "drop n ys = ys ! n # drop (Suc n) ys" using assms by (simp add: Cons_nth_drop_Suc)
  then show ?thesis using assms by (simp add: list_update_append take_Suc_conv_app_nth)
qed

text \<open>A loop that sets the cells of a row from left to right, to values it does not change.\<close>

lemma row_loop:
  assumes w: "length (buffer w) = 25" "row < 25" "length (buffer w ! row) = 80" and vs: "length vs = 80"
    and f: "\<And>col b. col < 80 \<Longrightarrow> length b = 25 \<Longrightarrow> \<forall>r < 25. r \<noteq> row \<longrightarrow> b ! r = buffer w ! r \<Longrightarrow>
        f (of_nat col) (w\<lparr>buffer := b\<rparr>) = char_write (of_nat row) (of_nat col) (vs ! col) (w\<lparr>buffer := b\<rparr>)"
  shows "n \<le> 80 \<Longrightarrow> for_each (map of_nat [0..<n]) f w = Inr (w\<lparr>buffer := (buffer w)[row := take n vs @ drop n (buffer w ! row)]\<rparr>)"
proof (induction n)
  case (Suc n)
  let ?b = "(buffer w)[row := take n vs @ drop n (buffer w ! row)]"
  have "length ?b = 25" "\<forall>r < 25. r \<noteq> row \<longrightarrow> ?b ! r = buffer w ! r" using w by simp_all
  then have "f (of_nat n) (w\<lparr>buffer := ?b\<rparr>) = char_write (of_nat row) (of_nat n) (vs ! n) (w\<lparr>buffer := ?b\<rparr>)"
    using f Suc.prems by simp
  also have "\<dots> = Inr (w\<lparr>buffer := (buffer w)[row := (take n vs @ drop n (buffer w ! row))[n := vs ! n]]\<rparr>)"
    using w vs Suc.prems by (subst char_write_ok) (simp_all add: unat_of_nat)
  finally show ?case
    using Suc w vs take_step [of n vs "buffer w ! row"] by (simp add: for_each_append)
qed simp

lemma row_loop_full:
  assumes w: "length (buffer w) = 25" "row < 25" "length (buffer w ! row) = 80" and vs: "length vs = 80"
    and f: "\<And>col b. col < 80 \<Longrightarrow> length b = 25 \<Longrightarrow> \<forall>r < 25. r \<noteq> row \<longrightarrow> b ! r = buffer w ! r \<Longrightarrow>
        f (of_nat col) (w\<lparr>buffer := b\<rparr>) = char_write (of_nat row) (of_nat col) (vs ! col) (w\<lparr>buffer := b\<rparr>)"
  shows "for_each (urange 0 BUFFER_WIDTH) f w = Inr (w\<lparr>buffer := (buffer w)[row := vs]\<rparr>)"
proof -
  have "unat (80 :: usize) = 80" by simp
  then have u: "urange 0 BUFFER_WIDTH = map of_nat [0..<80]" by (simp only: urange_def BUFFER_WIDTH_def unat_0)
  have t: "take 80 vs @ drop 80 (buffer w ! row) = vs" using w vs by simp
  have "for_each (map of_nat [0..<80]) f w = Inr (w\<lparr>buffer := (buffer w)[row := take 80 vs @ drop 80 (buffer w ! row)]\<rparr>)"
    by (rule row_loop [OF w vs f order.refl])
  then show ?thesis unfolding u t .
qed

definition blank_row :: "Writer \<Rightarrow> ScreenChar list" where
  "blank_row w = replicate 80 (blank w)"

lemma clear_row_eq:
  assumes w: "length (buffer w) = 25" "\<forall>r \<in> set (buffer w). length r = 80" "row < 25"
  shows "clear_row (of_nat row) w = Inr (w\<lparr>buffer := (buffer w)[row := blank_row w]\<rparr>)"
proof -
  have "length (buffer w ! row) = 80" using w by simp
  then show ?thesis
    unfolding clear_row_def Let_def
    by (rule row_loop_full [OF w(1,3)]) (simp_all add: blank_row_def blank_def)
qed

text \<open>The copying of a row one up, and of all rows.\<close>

definition copy_row :: "usize \<Rightarrow> Writer \<Rightarrow> Writer res" where
  "copy_row row =
     for_each (urange 0 BUFFER_WIDTH) (\<lambda>col w.
       rbind (char_read row col w) (\<lambda>ch. rbind (sub_ovf row 1) (\<lambda>up. char_write up col ch w)))"

lemma copy_row_eq:
  assumes w: "length (buffer w) = 25" "\<forall>r \<in> set (buffer w). length r = 80" "row < 24"
  shows "copy_row (of_nat (Suc row)) w = Inr (w\<lparr>buffer := (buffer w)[row := buffer w ! Suc row]\<rparr>)"
proof -
  have "sub_ovf (of_nat (Suc row)) 1 = Inr (of_nat row :: usize)"
    using w(3) by (simp add: sub_ovf_def word_le_nat_alt unat_word_ariths unat_of_nat)
  moreover have l: "length (buffer w ! row) = 80" "length (buffer w ! Suc row) = 80" using w by simp_all
  moreover have "char_read (of_nat (Suc row)) (of_nat col) (w\<lparr>buffer := b\<rparr>) = Inr (buffer w ! Suc row ! col)"
    if "col < 80" "length b = 25" "\<forall>r < 25. r \<noteq> row \<longrightarrow> b ! r = buffer w ! r" for col b
    using that w(3) l by (simp add: char_read_def unat_of_nat unat_word_ariths)
  ultimately show ?thesis
    unfolding copy_row_def by (intro row_loop_full) (use w in simp_all)
qed

lemma copy_rows:
  assumes w: "buffer w = r0 # rs" "length rs = 24" "\<forall>r \<in> set (r0 # rs). length r = 80"
  shows "n \<le> 24 \<Longrightarrow> for_each (map (\<lambda>i. of_nat (Suc i)) [0..<n]) copy_row w =
     Inr (w\<lparr>buffer := take n (rs @ [r0]) @ drop n (r0 # rs)\<rparr>)"
proof (induction n)
  case 0
  show ?case using w by simp
next
  case (Suc n)
  let ?b = "take n (rs @ [r0]) @ drop n (r0 # rs)"
  have "length ?b = 25" and nx: "?b ! Suc n = (rs @ [r0]) ! n"
    using w(2) Suc.prems by (simp_all add: nth_append)
  moreover have "\<forall>r \<in> set ?b. length r = 80"
    using w(3) by (auto dest!: in_set_takeD in_set_dropD)
  ultimately have "copy_row (of_nat (Suc n)) (w\<lparr>buffer := ?b\<rparr>) = Inr (w\<lparr>buffer := ?b[n := (rs @ [r0]) ! n]\<rparr>)"
    using copy_row_eq [of "w\<lparr>buffer := ?b\<rparr>" n] Suc.prems by simp
  then show ?case
    using Suc w(2) take_step [of n "rs @ [r0]" "r0 # rs"] by (simp add: for_each_append)
qed

lemma new_line_eq:
  assumes w: "screen_ok w"
  shows "new_line w = Inr (w\<lparr>column_position := 0, buffer := tl (buffer w) @ [blank_row w]\<rparr>)"
proof -
  obtain r0 rs where b: "buffer w = r0 # rs" using w by (cases "buffer w") (auto simp: screen_ok_def)
  with w have rs: "length rs = 24" "\<forall>r \<in> set (r0 # rs). length r = 80" by (simp_all add: screen_ok_def)
  have "unat (1 :: usize) = 1" "unat BUFFER_HEIGHT = 25" by (simp_all add: BUFFER_HEIGHT_def)
  then have "urange 1 BUFFER_HEIGHT = map (\<lambda>i. of_nat i) [Suc 0..<Suc 24]" by (simp only: urange_def One_nat_def) simp
  also have "\<dots> = map (\<lambda>i. of_nat (Suc i)) [0..<24]" by (simp only: map_Suc_upt [symmetric] map_map comp_def)
  finally have u: "urange 1 BUFFER_HEIGHT = map (\<lambda>i. of_nat (Suc i)) [0..<24]" .
  let ?w = "w\<lparr>buffer := rs @ [last rs]\<rparr>"
  have "drop 23 (butlast rs @ [last rs]) = [last rs]" using rs(1) by simp
  moreover have "butlast rs @ [last rs] = rs" using rs(1) by (intro append_butlast_last_id) auto
  ultimately have "drop 24 (r0 # rs) = [last rs]" by simp
  with copy_rows [OF b rs order.refl] have 1: "for_each (urange 1 BUFFER_HEIGHT) copy_row w = Inr ?w"
    using rs(1) by (simp add: u)
  have "last rs \<in> set rs" using rs(1) by (intro last_in_set) auto
  then have 2: "clear_row (of_nat 24) ?w = Inr (?w\<lparr>buffer := (buffer ?w)[24 := blank_row ?w]\<rparr>)"
    using rs by (intro clear_row_eq) auto
  have 3: "sub_ovf BUFFER_HEIGHT 1 = Inr (of_nat 24)" by (simp add: sub_ovf_def BUFFER_HEIGHT_def)
  have "new_line w = rbind (for_each (urange 1 BUFFER_HEIGHT) copy_row w) (\<lambda>w. rbind (sub_ovf BUFFER_HEIGHT 1) (\<lambda>bottom.
     rbind (clear_row bottom w) (\<lambda>w. Inr (w\<lparr>column_position := 0\<rparr>))))"
    by (simp only: new_line_def copy_row_def [abs_def])
  also have "\<dots> = Inr (w\<lparr>column_position := 0, buffer := rs @ [blank_row w]\<rparr>)"
    unfolding 1 3 rbind_Inr 2 using rs(1) by (simp add: blank_row_def blank_def list_update_append)
  finally show ?thesis by (simp add: b)
qed

text \<open>The cells of the bottom row.\<close>

lemma bottom_row: "screen_ok w \<Longrightarrow> buffer w = butlast (buffer w) @ [last (buffer w)]"
  by (cases "buffer w" rule: rev_cases) (auto simp: screen_ok_def)

lemma bottom_write:
  assumes w: "screen_ok w" and col: "unat col < 80"
  shows "rbind (sub_ovf BUFFER_HEIGHT 1) (\<lambda>row. char_write row col c w) =
    Inr (w\<lparr>buffer := butlast (buffer w) @ [(last (buffer w))[unat col := c]]\<rparr>)"
proof -
  have 1: "sub_ovf BUFFER_HEIGHT 1 = Inr 24" by (simp add: sub_ovf_def BUFFER_HEIGHT_def)
  obtain rs r where b: "buffer w = rs @ [r]" using bottom_row [OF w] by blast
  with w have "length rs = 24" "length r = 80" by (simp_all add: screen_ok_def)
  with b col show ?thesis by (simp add: 1 char_write_ok list_update_append nth_append)
qed

section \<open>The terminal\<close>

text \<open>
  The reference: the finished lines and the line under the cursor, as cells. A line is finished by a
  newline, or by a character that no longer fits.
\<close>

type_synonym term_state = "ScreenChar list list \<times> ScreenChar list"

fun term_byte :: "ColorCode \<Rightarrow> u8 \<Rightarrow> term_state \<Rightarrow> term_state" where
  "term_byte c b (ls, cur) =
     (if b = 0x0A then (ls @ [cur], [])
      else if b = 0x08 then (ls, butlast cur)
      else if length cur \<ge> 80 then (ls @ [cur], [\<lparr>ascii_character = b, color_code = c\<rparr>])
      else (ls, cur @ [\<lparr>ascii_character = b, color_code = c\<rparr>]))"

definition glyph :: "u8 \<Rightarrow> u8" where
  "glyph b = (if 0x20 \<le> b \<and> b \<le> 0x7e \<or> b = 0x0A \<or> b = 0x08 then b else 0xfe)"

definition term_string :: "ColorCode \<Rightarrow> u8 list \<Rightarrow> term_state \<Rightarrow> term_state" where
  "term_string c s t = fold (\<lambda>b. term_byte c (glyph b)) s t"

definition pad :: "ColorCode \<Rightarrow> ScreenChar list \<Rightarrow> ScreenChar list" where
  "pad c l = l @ replicate (80 - length l) \<lparr>ascii_character = 0x20, color_code = c\<rparr>"

text \<open>The last 25 of the rows that were above, the finished lines and the current line.\<close>

definition last_rows :: "'a list \<Rightarrow> 'a list" where
  "last_rows xs = drop (length xs - 25) xs"

definition shows_term :: "ScreenChar list list \<Rightarrow> term_state \<Rightarrow> Writer \<Rightarrow> bool" where
  "shows_term upper t w \<longleftrightarrow>
     length upper = 24 \<and> (\<forall>r \<in> set upper. length r = 80) \<and> (\<forall>l \<in> set (fst t). length l \<le> 80) \<and> length (snd t) \<le> 80
     \<and> unat (column_position w) = length (snd t)
     \<and> buffer w = last_rows (upper @ map (pad (writer_color w)) (fst t) @ [pad (writer_color w) (snd t)])"

lemma length_last_rows: "24 < length xs \<Longrightarrow> length (last_rows xs) = 25"
  by (simp add: last_rows_def)

lemma last_rows_snoc: "24 \<le> length xs \<Longrightarrow> last_rows (xs @ [x]) = drop (length xs - 24) xs @ [x]"
  by (simp add: last_rows_def Suc_diff_le)

lemma last_rows_snoc2:
  assumes "24 \<le> length xs"
  shows "last_rows (xs @ [x, y]) = tl (last_rows (xs @ [x])) @ [y]"
proof -
  have "length xs - 23 = Suc (length xs - 24)" using assms by simp
  then have "drop (length xs - 23) xs = tl (drop (length xs - 24) xs)" by (simp only: drop_Suc tl_drop)
  moreover have "drop (length xs - 24) xs \<noteq> []" using assms by (simp only: drop_eq_Nil)
  ultimately show ?thesis
    using assms last_rows_snoc [of "xs @ [x]" y] last_rows_snoc [of xs x] by (simp add: Suc_diff_le)
qed

lemma length_pad [simp]: "length l \<le> 80 \<Longrightarrow> length (pad c l) = 80"
  by (simp add: pad_def)

lemma shows_term_rows:
  assumes "shows_term upper (ls, cur) w"
  obtains xs where "buffer w = xs @ [pad (writer_color w) cur]" and "length xs = 24" and "\<forall>r \<in> set xs. length r = 80"
    and "\<And>r. last_rows (upper @ map (pad (writer_color w)) ls @ [r]) = xs @ [r]"
    and "\<And>r. last_rows (upper @ map (pad (writer_color w)) (ls @ [cur]) @ [r]) = tl (buffer w) @ [r]"
proof -
  let ?c = "writer_color w"
  let ?rows = "upper @ map (pad ?c) ls"
  let ?xs = "drop (length ?rows - 24) ?rows"
  have len: "24 \<le> length ?rows" using assms by (simp add: shows_term_def)
  have snoc: "last_rows (?rows @ [r]) = ?xs @ [r]" for r using last_rows_snoc [OF len] .
  have b: "buffer w = ?xs @ [pad ?c cur]" using assms snoc [of "pad ?c cur"] by (simp add: shows_term_def)
  have "\<forall>r \<in> set ?rows. length r = 80" using assms by (auto simp: shows_term_def)
  then have all: "\<forall>r \<in> set ?xs. length r = 80" by (meson in_set_dropD)
  have "last_rows (?rows @ [pad ?c cur, r]) = tl (buffer w) @ [r]" for r
    using last_rows_snoc2 [OF len, of "pad ?c cur" r] unfolding snoc b .
  then show ?thesis
    using that [OF b _ all] snoc len by simp
qed

lemma shows_term_ok:
  assumes "shows_term upper u w"
  shows "screen_ok w"
proof -
  obtain ls cur where u: "u = (ls, cur)" by force
  with assms have t: "shows_term upper (ls, cur) w" by simp
  obtain xs where b: "buffer w = xs @ [pad (writer_color w) cur]" and lx: "length xs = 24" and ax: "\<forall>r \<in> set xs. length r = 80"
    and sn: "\<And>r. last_rows (upper @ map (pad (writer_color w)) ls @ [r]) = xs @ [r]"
    and nl: "\<And>r. last_rows (upper @ map (pad (writer_color w)) (ls @ [cur]) @ [r]) = tl (buffer w) @ [r]"
    using t by (rule shows_term_rows) (rule that)
  have "length cur \<le> 80" "unat (column_position w) = length cur" using t by (simp_all add: shows_term_def)
  with b lx ax show ?thesis by (simp add: screen_ok_def)
qed

lemma new_line_term:
  assumes t: "shows_term upper (ls, cur) w"
  shows "\<exists>w'. new_line w = Inr w' \<and> shows_term upper (ls @ [cur], []) w' \<and> writer_color w' = writer_color w"
proof -
  obtain xs where b: "buffer w = xs @ [pad (writer_color w) cur]" and lx: "length xs = 24" and ax: "\<forall>r \<in> set xs. length r = 80"
    and sn: "\<And>r. last_rows (upper @ map (pad (writer_color w)) ls @ [r]) = xs @ [r]"
    and nl: "\<And>r. last_rows (upper @ map (pad (writer_color w)) (ls @ [cur]) @ [r]) = tl (buffer w) @ [r]"
    using t by (rule shows_term_rows) (rule that)
  have "blank_row w = pad (writer_color w) []" by (simp add: blank_row_def blank_def pad_def)
  with t nl [of "blank_row w"] show ?thesis
    unfolding new_line_eq [OF shows_term_ok [OF t]] by (simp add: shows_term_def)
qed

lemma put_term:
  assumes t: "shows_term upper (ls, cur) w" and "length cur < 80"
  shows "\<exists>w'. rbind (sub_ovf BUFFER_HEIGHT 1) (\<lambda>row.
        let col = column_position w in
        rbind (char_write row col \<lparr>ascii_character = b, color_code = writer_color w\<rparr> w) (\<lambda>w.
        rbind (add_ovf (column_position w) 1) (\<lambda>c. Inr (w\<lparr>column_position := c\<rparr>)))) = Inr w'
     \<and> shows_term upper (ls, cur @ [\<lparr>ascii_character = b, color_code = writer_color w\<rparr>]) w' \<and> writer_color w' = writer_color w"
proof -
  let ?c = "writer_color w" and ?k = "column_position w"
  let ?cell = "\<lparr>ascii_character = b, color_code = ?c\<rparr>"
  obtain xs where b: "buffer w = xs @ [pad (writer_color w) cur]" and lx: "length xs = 24" and ax: "\<forall>r \<in> set xs. length r = 80"
    and sn: "\<And>r. last_rows (upper @ map (pad (writer_color w)) ls @ [r]) = xs @ [r]"
    and nl: "\<And>r. last_rows (upper @ map (pad (writer_color w)) (ls @ [cur]) @ [r]) = tl (buffer w) @ [r]"
    using t by (rule shows_term_rows) (rule that)
  have k: "unat ?k = length cur" using t by (simp add: shows_term_def)
  have "(pad ?c cur)[length cur := ?cell] = pad ?c (cur @ [?cell])"
    using assms(2) by (simp add: pad_def list_update_append Suc_diff_Suc [symmetric])
  then have w: "char_write 24 ?k ?cell w = Inr (w\<lparr>buffer := xs @ [pad ?c (cur @ [?cell])]\<rparr>)"
    using bottom_write [OF shows_term_ok [OF t], of ?k ?cell] k assms(2) b
    by (simp add: sub_ovf_def BUFFER_HEIGHT_def)
  have "add_ovf ?k 1 = Inr (?k + 1)" "unat (?k + 1) = length cur + 1"
    using k assms(2) by (simp_all add: add_ovf_def unat_add_no_ovf)
  then show ?thesis
    using w t sn [of "pad ?c (cur @ [?cell])"] assms(2) by (simp add: sub_ovf_def BUFFER_HEIGHT_def shows_term_def)
qed

lemma backspace_term:
  assumes t: "shows_term upper (ls, cur) w"
  shows "\<exists>w'. backspace w = Inr w' \<and> shows_term upper (ls, butlast cur) w' \<and> writer_color w' = writer_color w"
proof (cases cur rule: rev_cases)
  case Nil
  with t have "column_position w = 0" by (simp add: shows_term_def unat_eq_0)
  with Nil t show ?thesis by (simp add: backspace_def)
next
  case (snoc cur' x)
  let ?c = "writer_color w" and ?k = "column_position w"
  obtain xs where b: "buffer w = xs @ [pad (writer_color w) cur]" and lx: "length xs = 24" and ax: "\<forall>r \<in> set xs. length r = 80"
    and sn: "\<And>r. last_rows (upper @ map (pad (writer_color w)) ls @ [r]) = xs @ [r]"
    and nl: "\<And>r. last_rows (upper @ map (pad (writer_color w)) (ls @ [cur]) @ [r]) = tl (buffer w) @ [r]"
    using t by (rule shows_term_rows) (rule that)
  have k: "unat ?k = length cur" "length cur \<le> 80" using t by (simp_all add: shows_term_def)
  then have k1: "?k > 0" "sub_ovf ?k 1 = Inr (?k - 1)" "unat (?k - 1) = length cur'"
    using snoc by (auto simp: word_less_nat_alt sub_ovf_def word_le_nat_alt unat_sub)
  let ?w = "w\<lparr>column_position := ?k - 1\<rparr>"
  have "(pad ?c cur)[length cur' := blank w] = pad ?c cur'"
    using k(2) snoc by (simp add: pad_def blank_def list_update_append Suc_diff_Suc [symmetric] del: replicate.simps)
      (simp add: replicate_app_Cons_same replicate_append_same)
  moreover have "screen_ok ?w" using shows_term_ok [OF t] k1(3) k(2) snoc by (simp add: screen_ok_def)
  ultimately have "backspace w = Inr (?w\<lparr>buffer := xs @ [pad ?c cur']\<rparr>)"
    using bottom_write [of ?w "?k - 1" "blank w"] k1 k(2) b snoc by (simp add: backspace_def blank_def)
  then show ?thesis
    using t sn [of "pad ?c cur'"] k1(3) snoc by (simp add: shows_term_def)
qed

lemma write_byte_term:
  assumes t: "shows_term upper t w"
  shows "\<exists>w'. write_byte b w = Inr w' \<and> shows_term upper (term_byte (writer_color w) b t) w' \<and> writer_color w' = writer_color w"
proof -
  obtain ls cur where u: "t = (ls, cur)" by force
  note t = t [unfolded u]
  have col: "column_position w \<ge> BUFFER_WIDTH \<longleftrightarrow> length cur \<ge> 80"
    using t by (simp add: shows_term_def BUFFER_WIDTH_def word_le_nat_alt)
  consider "b = 0x0A" | "b = 0x08" | "b \<noteq> 0x0A" "b \<noteq> 0x08" "length cur \<ge> 80" | "b \<noteq> 0x0A" "b \<noteq> 0x08" "length cur < 80"
    by force
  then show ?thesis
  proof cases
    case 1
    with new_line_term [OF t] u show ?thesis by (simp add: write_byte_def)
  next
    case 2
    with backspace_term [OF t] u show ?thesis by (simp add: write_byte_def)
  next
    case 3
    obtain w1 where "new_line w = Inr w1" "shows_term upper (ls @ [cur], []) w1" "writer_color w1 = writer_color w"
      using new_line_term [OF t] by blast
    with put_term [of upper "ls @ [cur]" "[]" w1 b] 3 u col show ?thesis by (simp add: write_byte_def)
  next
    case 4
    with put_term [OF t, of b] u col show ?thesis by (simp add: write_byte_def)
  qed
qed

lemma write_string_term:
  "shows_term upper t w \<Longrightarrow>
     \<exists>w'. write_string s w = Inr w' \<and> shows_term upper (term_string (writer_color w) s t) w' \<and> writer_color w' = writer_color w"
proof (induction s arbitrary: t w)
  case (Cons b s)
  obtain w1 where "write_byte (glyph b) w = Inr w1" "shows_term upper (term_byte (writer_color w) (glyph b) t) w1"
    "writer_color w1 = writer_color w"
    using write_byte_term [OF Cons.prems] by blast
  with Cons.IH [of "term_byte (writer_color w) (glyph b) t" w1] show ?case
    by (auto simp: term_string_def glyph_def split: if_splits)
qed (simp add: term_string_def)

section \<open>Correctness of the console\<close>

lemma clear_rows:
  assumes w: "screen_ok w"
  shows "n \<le> 25 \<Longrightarrow> for_each (map of_nat [0..<n]) clear_row w =
     Inr (w\<lparr>buffer := take n (replicate 25 (blank_row w)) @ drop n (buffer w)\<rparr>)"
proof (induction n)
  case 0
  show ?case by simp
next
  case (Suc n)
  let ?b = "take n (replicate 25 (blank_row w)) @ drop n (buffer w)"
  have "length ?b = 25" "\<forall>r \<in> set ?b. length r = 80"
    using w Suc.prems by (auto simp: screen_ok_def blank_row_def dest!: in_set_takeD in_set_dropD)
  then have "clear_row (of_nat n) (w\<lparr>buffer := ?b\<rparr>) = Inr (w\<lparr>buffer := ?b[n := replicate 25 (blank_row w) ! n]\<rparr>)"
    using clear_row_eq [of "w\<lparr>buffer := ?b\<rparr>" n] Suc.prems by (simp add: blank_row_def blank_def)
  moreover have "?b[n := replicate 25 (blank_row w) ! n] = take (Suc n) (replicate 25 (blank_row w)) @ drop (Suc n) (buffer w)"
    using Suc.prems w by (intro take_step) (simp_all add: screen_ok_def)
  ultimately show ?case using Suc by (simp add: for_each_append del: replicate.simps take_replicate)
qed

lemma clear_screen_eq:
  assumes "screen_ok w"
  shows "clear_screen w = Inr (w\<lparr>column_position := 0, buffer := replicate 25 (blank_row w)\<rparr>)"
proof -
  have "unat BUFFER_HEIGHT = 25" by (simp add: BUFFER_HEIGHT_def)
  then have u: "urange 0 BUFFER_HEIGHT = map of_nat [0..<25]" by (simp only: urange_def unat_0)
  have "take 25 (replicate 25 (blank_row w)) @ drop 25 (buffer w) = replicate 25 (blank_row w)"
    using assms by (simp add: screen_ok_def)
  with clear_rows [OF assms order.refl] show ?thesis unfolding clear_screen_def u by (simp only: rbind_Inr) simp
qed

lemma bottom_ok:
  assumes "screen_ok w" "unat col < 80"
  shows "screen_ok (w\<lparr>buffer := butlast (buffer w) @ [(last (buffer w))[unat col := c]]\<rparr>)"
proof -
  have "buffer w \<noteq> []" using assms(1) by (auto simp: screen_ok_def)
  then show ?thesis using assms last_in_set [of "buffer w"] by (auto simp: screen_ok_def dest: in_set_butlastD)
qed

lemma new_line_ok: "screen_ok w \<Longrightarrow> \<exists>w'. new_line w = Inr w' \<and> screen_ok w' \<and> column_position w' = 0"
  using new_line_eq [of w] by (cases "buffer w") (auto simp: screen_ok_def blank_row_def)

lemma put_ok:
  assumes w: "screen_ok w" "unat (column_position w) < 80"
  shows "\<exists>w'. rbind (sub_ovf BUFFER_HEIGHT 1) (\<lambda>row.
        let col = column_position w in
        rbind (char_write row col c w) (\<lambda>w.
        rbind (add_ovf (column_position w) 1) (\<lambda>c. Inr (w\<lparr>column_position := c\<rparr>)))) = Inr w' \<and> screen_ok w'"
proof -
  let ?k = "column_position w"
  have "char_write 24 ?k c w = Inr (w\<lparr>buffer := butlast (buffer w) @ [(last (buffer w))[unat ?k := c]]\<rparr>)"
    using bottom_write [OF w] by (simp add: sub_ovf_def BUFFER_HEIGHT_def)
  moreover have "add_ovf ?k 1 = Inr (?k + 1)" "unat (?k + 1) = unat ?k + 1"
    using w(2) by (simp_all add: add_ovf_def unat_add_no_ovf)
  ultimately show ?thesis
    using bottom_ok [OF w, of c] w(2) by (simp add: sub_ovf_def BUFFER_HEIGHT_def screen_ok_def)
qed

lemma backspace_ok: "screen_ok w \<Longrightarrow> \<exists>w'. backspace w = Inr w' \<and> screen_ok w'"
proof (cases "column_position w = 0")
  case False
  assume w: "screen_ok w"
  let ?k = "column_position w - 1"
  have "1 \<le> column_position w" using False by (simp add: word_le_nat_alt Suc_le_eq unat_gt_0)
  then have k: "sub_ovf (column_position w) 1 = Inr ?k" "unat ?k < 80"
    using w by (auto simp: sub_ovf_def word_le_nat_alt unat_sub screen_ok_def)
  then have "screen_ok (w\<lparr>column_position := ?k\<rparr>)" using w by (simp add: screen_ok_def)
  with bottom_write [OF this k(2)] bottom_ok [OF this k(2)] k False show ?thesis
    by (simp add: backspace_def word_greater_zero_iff)
qed (simp add: backspace_def)

lemma write_byte_ok:
  assumes w: "screen_ok w"
  shows "\<exists>w'. write_byte b w = Inr w' \<and> screen_ok w'"
proof -
  consider "b = 0x0A" | "b = 0x08" | "b \<noteq> 0x0A" "b \<noteq> 0x08" by force
  then show ?thesis
  proof cases
    case 3
    show ?thesis
    proof (cases "column_position w \<ge> BUFFER_WIDTH")
      case True
      obtain w' where "new_line w = Inr w'" "screen_ok w'" "column_position w' = 0" using new_line_ok [OF w] by blast
      with put_ok [of w'] 3 True show ?thesis by (simp add: write_byte_def)
    next
      case False
      then have "unat (column_position w) < 80" by (simp add: BUFFER_WIDTH_def word_le_nat_alt)
      with put_ok [OF w] 3 False show ?thesis by (simp add: write_byte_def)
    qed
  qed (use new_line_ok [OF w] backspace_ok [OF w] in \<open>auto simp: write_byte_def\<close>)
qed

lemma write_string_ok:
  "screen_ok w \<Longrightarrow> \<exists>w'. write_string s w = Inr w' \<and> screen_ok w'"
proof (induction s arbitrary: w)
  case (Cons b s)
  obtain w1 where "write_byte (glyph b) w = Inr w1" "screen_ok w1" using write_byte_ok [OF Cons.prems] by blast
  with Cons.IH [of w1] show ?case by (auto simp: glyph_def split: if_splits)
qed simp

text \<open>The calls of the console's clients.\<close>

datatype console_op = Print "u8 list" | Clear

fun console_run :: "console_op list \<Rightarrow> Writer \<Rightarrow> Writer res" where
  "console_run [] w = Inr w"
| "console_run (Print s # ops) w = rbind (write_string s w) (console_run ops)"
| "console_run (Clear # ops) w = rbind (clear_screen w) (console_run ops)"

text \<open>
  The console cannot be driven out of its array. From every writer of the right shape (25 rows of 80
  cells, the cursor at most one past the last column), whatever is on the screen and whatever bytes are
  printed and however often the screen is cleared, no call panics on an index or on arithmetic, and the
  writer keeps the right shape.
\<close>

theorem console_type_safe:
  assumes "screen_ok w"
  shows "\<exists>w'. console_run ops w = Inr w' \<and> screen_ok w'"
  using assms
proof (induction ops w rule: console_run.induct)
  case (2 s ops w)
  then show ?case using write_string_ok [of w s] by auto
next
  case (3 ops w)
  have "screen_ok (w\<lparr>column_position := 0, buffer := replicate 25 (blank_row w)\<rparr>)"
    by (simp add: screen_ok_def blank_row_def)
  with 3 clear_screen_eq [of w] show ?case by auto
qed simp

text \<open>
  C13. The console is a terminal. After the screen is cleared, printing any text leaves the screen and the
  cursor exactly as a terminal that keeps every line would show its last 25 rows: text wraps at 80
  columns, newline and backspace act on the line under the cursor, what scrolls out at the top is lost
  and nothing else, unprintable bytes appear as a block, and the cells to the right of the cursor are
  blank. The code shifts the rows cell by cell.
\<close>

theorem console_is_terminal:
  assumes "screen_ok w"
  shows "\<exists>w1 w2. clear_screen w = Inr w1 \<and> write_string s w1 = Inr w2 \<and>
    (let (ls, cur) = term_string (writer_color w) s ([], []); c = writer_color w in
     unat (column_position w2) = length cur
     \<and> buffer w2 = last_rows (replicate 24 (pad c []) @ map (pad c) ls @ [pad c cur]))"
proof -
  let ?w1 = "w\<lparr>column_position := 0, buffer := replicate 25 (blank_row w)\<rparr>"
  have br: "blank_row w = pad (writer_color w) []" by (simp add: blank_row_def blank_def pad_def)
  have "shows_term (replicate 24 (pad (writer_color w) [])) ([], []) ?w1"
    by (simp add: shows_term_def last_rows_def br numeral_eq_Suc replicate_append_same)
  from write_string_term [OF this, of s] obtain w2 where
    "write_string s ?w1 = Inr w2" "shows_term (replicate 24 (pad (writer_color w) [])) (term_string (writer_color w) s ([], [])) w2"
    "writer_color w2 = writer_color w" by auto
  then show ?thesis
    using clear_screen_eq [OF assms] by (auto simp: shows_term_def split: prod.splits)
qed

definition console :: Writer where
  "console = \<lparr>column_position = 0, writer_color = ColorCode_new Yellow Black,
     buffer = replicate 25 (replicate 80 \<lparr>ascii_character = 0, color_code = 0\<rparr>)\<rparr>"

lemma console_ok: "screen_ok console"
  by (simp add: screen_ok_def console_def)

theorem console_type_safe_witness: "screen_ok console \<and> (\<exists>w'. console_run [Print [0x68, 0x08, 0x0A, 0xC3], Clear] console = Inr w' \<and> screen_ok w')"
  using console_ok console_type_safe [OF console_ok] by blast

theorem console_is_terminal_witness:
  "screen_ok console \<and> (\<exists>w1 w2. clear_screen console = Inr w1 \<and> write_string [0x68, 0x69, 0x0A, 0x6F, 0x08] w1 = Inr w2
     \<and> column_position w2 = 0 \<and> map ascii_character (take 3 (buffer w2 ! 23)) = [0x68, 0x69, 0x20])"
proof
  let ?s = "[0x68, 0x69, 0x0A, 0x6F, 0x08] :: u8 list" and ?c = "writer_color console"
  show "screen_ok console" by (rule console_ok)
  have t: "term_string ?c ?s ([], []) = ([[\<lparr>ascii_character = 0x68, color_code = ?c\<rparr>, \<lparr>ascii_character = 0x69, color_code = ?c\<rparr>]], [])"
    by (simp add: term_string_def glyph_def)
  obtain w1 w2 where "clear_screen console = Inr w1" "write_string ?s w1 = Inr w2" "unat (column_position w2) = 0"
    "buffer w2 = last_rows (replicate 24 (pad ?c []) @ map (pad ?c) (fst (term_string ?c ?s ([], []))) @ [pad ?c []])"
    using console_is_terminal [OF console_ok, of ?s] unfolding t by (auto simp: Let_def)
  moreover from this(4) have "map ascii_character (take 3 (buffer w2 ! 23)) = [0x68, 0x69, 0x20]"
    unfolding t by (simp add: last_rows_def nth_append pad_def numeral_eq_Suc)
  ultimately show "\<exists>w1 w2. clear_screen console = Inr w1 \<and> write_string ?s w1 = Inr w2
     \<and> column_position w2 = 0 \<and> map ascii_character (take 3 (buffer w2 ! 23)) = [0x68, 0x69, 0x20]"
    by (auto simp: unat_eq_0)
qed

end
