(* ===== verification/Syscalls.thy ===== *)
theory Syscalls
  imports Vga_Text
begin

text \<open>
  System calls (\<open>src/syscall.rs\<close>): the dispatcher with its effect on the console, the handler of \<open>int 0x80\<close>
  and the helpers that invoke it. The handler leaves the result in one static variable, which the
  helpers read after the interrupt returned; threads may be switched in between.
\<close>

section \<open>The calls\<close>

datatype Syscall = Uptime | PutChar | Exit

fun as_u64 :: "Syscall \<Rightarrow> u64" where
  "as_u64 Uptime = 0"
| "as_u64 PutChar = 1"
| "as_u64 Exit = 2"

text \<open>The bytes that \<open>print!("{}", c as char)\<close> writes: a byte as a char is the code point of that number.\<close>

definition char_utf8 :: "u8 \<Rightarrow> u8 list" where
  "char_utf8 c = (if c < 0x80 then [c] else [0xC0 OR drop_bit 6 c, 0x80 OR (c AND 0x3F)])"

record sys =
  SYSCALL_RETURN :: u64
  sys_console :: Writer
  sys_ticks :: u64

definition dispatch :: "u64 \<Rightarrow> u64 \<Rightarrow> u64 \<Rightarrow> u64 \<Rightarrow> sys \<Rightarrow> (u64 \<times> sys) res" where
  "dispatch number arg1 arg2 arg3 s =
     (if number = 0 then Inr (sys_ticks s, s)
      else if number = 1 then
        let c = (ucast (arg1 AND 0xff) :: u8) in
        rbind (write_string (if c = 0x0A then [0x0A] else char_utf8 c) (sys_console s)) (\<lambda>w.
          Inr (0, s\<lparr>sys_console := w\<rparr>))
      else if number = 2 then Inr (0, s)
      else Inr (- 1, s))"

text \<open>The arguments are the registers \<open>rax\<close>, \<open>rdi\<close>, \<open>rsi\<close> and \<open>rdx\<close> at entry.\<close>

definition syscall_handler :: "u64 \<Rightarrow> u64 \<Rightarrow> u64 \<Rightarrow> u64 \<Rightarrow> sys \<Rightarrow> sys res" where
  "syscall_handler rax rdi rsi rdx s =
     rbind (dispatch rax rdi rsi rdx s) (\<lambda>(result, s). Inr (s\<lparr>SYSCALL_RETURN := result\<rparr>))"

text \<open>The helpers on an otherwise idle machine; \<open>g\<close> is what the other argument registers happen to hold.\<close>

definition syscall0 :: "u64 \<Rightarrow> u64 \<times> u64 \<times> u64 \<Rightarrow> sys \<Rightarrow> (u64 \<times> sys) res" where
  "syscall0 n = (\<lambda>(rdi, rsi, rdx) s. rbind (syscall_handler n rdi rsi rdx s) (\<lambda>s. Inr (SYSCALL_RETURN s, s)))"

definition syscall1 :: "u64 \<Rightarrow> u64 \<Rightarrow> u64 \<times> u64 \<Rightarrow> sys \<Rightarrow> (u64 \<times> sys) res" where
  "syscall1 n a1 = (\<lambda>(rsi, rdx) s. rbind (syscall_handler n a1 rsi rdx s) (\<lambda>s. Inr (SYSCALL_RETURN s, s)))"

definition syscall2 :: "u64 \<Rightarrow> u64 \<Rightarrow> u64 \<Rightarrow> u64 \<Rightarrow> sys \<Rightarrow> (u64 \<times> sys) res" where
  "syscall2 n a1 a2 rdx s = rbind (syscall_handler n a1 a2 rdx s) (\<lambda>s. Inr (SYSCALL_RETURN s, s))"

section \<open>Several threads\<close>

text \<open>
  The two steps of a call: the interrupt, during which interrupts are off, and the load of the result.
  A tick of the timer may come between any two steps.
\<close>

datatype sys_event =
    Int80 nat u64 u64 u64 u64 \<comment> \<open>the thread and its registers\<close>
  | LoadReturn nat
  | SysTick

fun sys_run :: "sys_event list \<Rightarrow> sys \<Rightarrow> ((nat \<times> u64) list \<times> sys) res" where
  "sys_run [] s = Inr ([], s)"
| "sys_run (Int80 t n a b c # es) s = rbind (syscall_handler n a b c s) (sys_run es)"
| "sys_run (LoadReturn t # es) s = rbind (sys_run es s) (\<lambda>(rs, s'). Inr ((t, SYSCALL_RETURN s) # rs, s'))"
| "sys_run (SysTick # es) s = sys_run es (s\<lparr>sys_ticks := sys_ticks s + 1\<rparr>)"

section \<open>Correctness\<close>

lemma dispatch_total:
  assumes "screen_ok (sys_console s)"
  shows "\<exists>r s'. dispatch n a b c s = Inr (r, s') \<and> screen_ok (sys_console s')"
proof (cases "n = 1")
  case True
  let ?c = "ucast (a AND 0xff) :: u8"
  obtain w where "write_string (if ?c = 0x0A then [0x0A] else char_utf8 ?c) (sys_console s) = Inr w" "screen_ok w"
    using write_string_ok [OF assms] by blast
  with True show ?thesis by (simp add: dispatch_def Let_def)
qed (use assms in \<open>auto simp: dispatch_def\<close>)

text \<open>On an idle machine every call returns, with the result of the dispatcher; unknown numbers give \<open>u64::MAX\<close>.\<close>

lemma syscall_returns:
  assumes "screen_ok (sys_console s)"
  shows "\<exists>s'. syscall2 n a1 a2 rdx s = Inr (if n = 0 then sys_ticks s else if n = 1 \<or> n = 2 then 0 else - 1, s')
    \<and> screen_ok (sys_console s')"
proof -
  obtain r s' where d: "dispatch n a1 a2 rdx s = Inr (r, s')" "screen_ok (sys_console s')"
    using dispatch_total [OF assms] by blast
  then have "r = (if n = 0 then sys_ticks s else if n = 1 \<or> n = 2 then 0 else - 1)"
    by (auto simp: dispatch_def Let_def rbind_eq_Inr split: if_splits)
  with d show ?thesis by (simp add: syscall2_def syscall_handler_def)
qed

text \<open>A byte from 128 on is printed as two blocks: its encoding has two bytes, neither of them printable.\<close>

lemma putchar_high_byte:
  assumes "0x80 \<le> c"
  shows "term_string col (char_utf8 c) ([], []) =
    ([], [\<lparr>ascii_character = 0xfe, color_code = col\<rparr>, \<lparr>ascii_character = 0xfe, color_code = col\<rparr>])"
proof -
  have hi: "bit (0xC0 OR drop_bit 6 c) 7" "bit (0x80 OR (c AND 0x3F)) 7"
    by (simp_all add: bit_or_iff bit_numeral_rec numeral_eq_Suc)
  have "glyph b = 0xfe" if "bit b 7" for b
  proof -
    have "128 \<le> unat b" using bit_unat_ge [OF that] by simp
    then show ?thesis by (auto simp: glyph_def word_le_nat_alt word_unat_eq_iff)
  qed
  with hi assms show ?thesis by (simp add: term_string_def char_utf8_def)
qed

lemma sys_run_append:
  "sys_run (es @ es') s = rbind (sys_run es s) (\<lambda>(rs, s1). rbind (sys_run es' s1) (\<lambda>(rs', s2). Inr (rs @ rs', s2)))"
  by (induction es s rule: sys_run.induct) (auto simp: rbind_def split_beta split: sum.split)

fun is_int80 :: "sys_event \<Rightarrow> bool" where
  "is_int80 (Int80 _ _ _ _ _) = True"
| "is_int80 _ = False"

lemma sys_run_quiet:
  "list_all (\<lambda>e. \<not> is_int80 e) es \<Longrightarrow>
     \<exists>rs s'. sys_run es s = Inr (rs, s') \<and> SYSCALL_RETURN s' = SYSCALL_RETURN s \<and> sys_console s' = sys_console s"
  by (induction es s rule: sys_run.induct) fastforce+



end
