(* ===== verification/Linked_List.thy ===== *)
theory Linked_List
  imports Alloc_Interface
begin

text \<open>
  The first-fit free-list allocator (\<open>src/allocator/linked_list.rs\<close>). Its free list lives in the free
  memory itself: the model keeps the nodes written at addresses, and follows their pointers. It
  refines a list of free regions on which allocation is a first-fit search, and it meets the contract
  of a heap.
\<close>

section \<open>The allocator\<close>

record ListNode =
  node_size :: usize
  node_next :: "usize option"

text \<open>\<open>mem::size_of\<close> and \<open>mem::align_of\<close> of a node: a word and a pointer.\<close>

definition NODE_SIZE :: usize where "NODE_SIZE = 16"

definition NODE_ALIGN :: usize where "NODE_ALIGN = 8"

definition node_new :: "usize \<Rightarrow> ListNode" where
  "node_new z = \<lparr>node_size = z, node_next = None\<rparr>"

text \<open>\<open>start_addr\<close> is the address of the node, so \<open>end_addr\<close> takes the address too.\<close>

definition end_addr :: "usize \<Rightarrow> ListNode \<Rightarrow> usize res" where
  "end_addr a node = add_ovf a (node_size node)"

record LinkedListAllocator =
  ll_head :: ListNode
  ll_nodes :: "usize \<Rightarrow> ListNode" \<comment> \<open>memory, as the nodes written at its addresses\<close>

definition ll_new :: "(usize \<Rightarrow> ListNode) \<Rightarrow> LinkedListAllocator" where
  "ll_new nodes = \<lparr>ll_head = node_new 0, ll_nodes = nodes\<rparr>"

definition add_free_region :: "usize \<Rightarrow> usize \<Rightarrow> LinkedListAllocator \<Rightarrow> LinkedListAllocator res" where
  "add_free_region addr z s =
     rbind (align_up addr NODE_ALIGN) (\<lambda>a.
     rbind (rassert (a = addr)) (\<lambda>_.
     rbind (rassert (NODE_SIZE \<le> z)) (\<lambda>_.
       let node = (node_new z)\<lparr>node_next := node_next (ll_head s)\<rparr> in
       Inr (s\<lparr>ll_nodes := (ll_nodes s)(addr := node), ll_head := (ll_head s)\<lparr>node_next := Some addr\<rparr>\<rparr>))))"

definition ll_init :: "usize \<Rightarrow> usize \<Rightarrow> LinkedListAllocator \<Rightarrow> LinkedListAllocator res" where
  "ll_init st sz s = add_free_region st sz s"

definition alloc_from_region :: "usize \<Rightarrow> ListNode \<Rightarrow> usize \<Rightarrow> usize \<Rightarrow> usize option res" where
  "alloc_from_region a region z align =
     rbind (align_up a align) (\<lambda>alloc_start.
       case checked_add alloc_start z of
         None \<Rightarrow> Inr None
       | Some alloc_end \<Rightarrow>
           rbind (end_addr a region) (\<lambda>e.
             if e < alloc_end then Inr None
             else rbind (sub_ovf e alloc_end) (\<lambda>excess.
                    if 0 < excess \<and> excess < NODE_SIZE then Inr None else Inr (Some alloc_start))))"

text \<open>The cursor \<open>current\<close> of the search: the head, or the node at an address.\<close>

definition next_of :: "LinkedListAllocator \<Rightarrow> usize option \<Rightarrow> usize option" where
  "next_of s cur = (case cur of None \<Rightarrow> node_next (ll_head s) | Some a \<Rightarrow> node_next (ll_nodes s a))"

definition set_next :: "usize option \<Rightarrow> usize option \<Rightarrow> LinkedListAllocator \<Rightarrow> LinkedListAllocator" where
  "set_next cur nx s =
     (case cur of
        None \<Rightarrow> s\<lparr>ll_head := (ll_head s)\<lparr>node_next := nx\<rparr>\<rparr>
      | Some a \<Rightarrow> s\<lparr>ll_nodes := (ll_nodes s)(a := (ll_nodes s a)\<lparr>node_next := nx\<rparr>)\<rparr>)"

text \<open>The loop ends only if the chain of nodes does; \<open>None\<close> is a search that does not return.\<close>

partial_function (option) find_region ::
    "usize option \<Rightarrow> usize \<Rightarrow> usize \<Rightarrow> LinkedListAllocator \<Rightarrow> ((usize \<times> usize) option \<times> LinkedListAllocator) res option" where
  "find_region cur z align s =
     (case next_of s cur of
        None \<Rightarrow> Some (Inr (None, s))
      | Some region \<Rightarrow>
          (case alloc_from_region region (ll_nodes s region) z align of
             Inl e \<Rightarrow> Some (Inl e)
           | Inr (Some alloc_start) \<Rightarrow>
               (let nx = next_of s (Some region);
                    s = set_next (Some region) None s;
                    s = set_next cur None s;
                    s = set_next cur nx s
                in Some (Inr (Some (region, alloc_start), s)))
           | Inr None \<Rightarrow> find_region (Some region) z align s))"

definition size_align :: "Layout \<Rightarrow> (usize \<times> usize) res" where
  "size_align layout =
     (case layout_align_to layout NODE_ALIGN of
        None \<Rightarrow> Inl (Expect ''alignment failed'')
      | Some layout \<Rightarrow>
          let layout = pad_to_align layout in Inr (max (lay_size layout) NODE_SIZE, lay_align layout))"

definition ll_alloc :: "Layout \<Rightarrow> LinkedListAllocator \<Rightarrow> (usize \<times> LinkedListAllocator) res option" where
  "ll_alloc layout s =
     (case size_align layout of
        Inl e \<Rightarrow> Some (Inl e)
      | Inr (z, align) \<Rightarrow>
          (case find_region None z align s of
             None \<Rightarrow> None
           | Some (Inl e) \<Rightarrow> Some (Inl e)
           | Some (Inr (None, s)) \<Rightarrow> Some (Inr (0, s))
           | Some (Inr (Some (region, alloc_start), s)) \<Rightarrow>
               Some (case checked_add alloc_start z of
                       None \<Rightarrow> Inl (Expect ''overflow'')
                     | Some alloc_end \<Rightarrow>
                         rbind (end_addr region (ll_nodes s region)) (\<lambda>e.
                         rbind (sub_ovf e alloc_end) (\<lambda>excess.
                           if 0 < excess
                           then rbind (add_free_region alloc_end excess s) (\<lambda>s. Inr (alloc_start, s))
                           else Inr (alloc_start, s))))))"

definition ll_dealloc :: "usize \<Rightarrow> Layout \<Rightarrow> LinkedListAllocator \<Rightarrow> LinkedListAllocator res" where
  "ll_dealloc ptr layout s = rbind (size_align layout) (\<lambda>(z, _). add_free_region ptr z s)"

section \<open>The specification: a list of free regions\<close>

text \<open>Where a block of \<open>z\<close> bytes goes in a region, if what it leaves behind is nothing or room for a node.\<close>

definition fit :: "usize \<Rightarrow> usize \<Rightarrow> block \<Rightarrow> usize option" where
  "fit z align r =
     (let st = round_up (unat (fst r)) (unat align); rest = unat (fst r) + unat (snd r)
      in if st + unat z = rest \<or> st + unat z + 16 \<le> rest then Some (of_nat st) else None)"

fun first_fit :: "usize \<Rightarrow> usize \<Rightarrow> block list \<Rightarrow> (block \<times> usize \<times> block list) option" where
  "first_fit z align [] = None"
| "first_fit z align (r # rs) =
     (case fit z align r of
        Some st \<Rightarrow> Some (r, st, rs)
      | None \<Rightarrow> map_option (\<lambda>(q, st, rs'). (q, st, r # rs')) (first_fit z align rs))"

text \<open>What is cut off above the block becomes the first free region; what lies below it is lost.\<close>

definition free_alloc :: "usize \<Rightarrow> usize \<Rightarrow> block list \<Rightarrow> usize \<times> block list" where
  "free_alloc z align rs =
     (case first_fit z align rs of
        None \<Rightarrow> (0, rs)
      | Some ((a, y), st, rs') \<Rightarrow>
          (st, if st + z = a + y then rs' else (st + z, a + y - (st + z)) # rs'))"

text \<open>The size and alignment of the block that serves a layout.\<close>

definition block_align :: "Layout \<Rightarrow> usize" where
  "block_align l = max (lay_align l) 8"

definition block_size :: "Layout \<Rightarrow> usize" where
  "block_size l = of_nat (max (round_up (unat (lay_size l)) (unat (block_align l))) 16)"

text \<open>The allocator represents the free regions met along the chain.\<close>

definition ll_rep :: "LinkedListAllocator \<Rightarrow> block list \<Rightarrow> bool" where
  "ll_rep s rs \<longleftrightarrow>
     chain (\<lambda>a. node_next (ll_nodes s a)) (node_next (ll_head s)) (map fst rs) \<and>
     list_all (\<lambda>r. node_size (ll_nodes s (fst r)) = snd r) rs \<and> distinct (map fst rs)"

section \<open>Blocks that serve a layout\<close>

text \<open>
  The layouts the allocator can serve: \<open>size_align\<close> panics when the size cannot be rounded up to the
  alignment of a node.
\<close>

definition ll_request :: "Layout \<Rightarrow> bool" where
  "ll_request l \<longleftrightarrow> valid_request l \<and> lay_size l \<le> ISIZE_MAX - 7"

lemma ll_requestE:
  assumes "ll_request l"
  obtains k where "k < 64" and "block_align l = 2 ^ k" and "unat (block_align l) = 2 ^ k"
    and "8 dvd unat (block_align l)" and "unat (lay_align l) dvd unat (block_align l)"
    and "unat (lay_size l) + 2 ^ k \<le> 2 ^ 63" and "0 < unat (lay_size l)"
proof -
  obtain k where k: "k < 64" "lay_align l = 2 ^ k" "unat (lay_align l) = 2 ^ k" "unat (lay_size l) + 2 ^ k \<le> 2 ^ 63"
    using assms layout_okE unfolding valid_request_def ll_request_def by blast
  have pos: "0 < unat (lay_size l)" and s: "unat (lay_size l) + 8 \<le> 2 ^ 63"
    using assms by (auto simp: ll_request_def valid_request_def word_less_nat_alt word_le_nat_alt ISIZE_MAX_def)
  show ?thesis
  proof (cases "k < 3")
    case True
    then have "(2::nat) ^ k < 2 ^ 3" by (intro power_strict_increasing) simp_all
    then have b: "block_align l = 2 ^ 3" using k(3) by (simp add: block_align_def max_def word_le_nat_alt)
    have "unat (lay_align l) dvd 2 ^ 3" unfolding k(3) by (rule le_imp_power_dvd) (use True in simp)
    then show ?thesis using that [of 3] b s pos by simp
  next
    case False
    then have "(2::nat) ^ 3 dvd 2 ^ k" and le: "(2::nat) ^ 3 \<le> 2 ^ k"
      by (intro le_imp_power_dvd power_increasing; simp)+
    have "8 \<le> lay_align l" using k(3) le by (simp add: word_le_nat_alt)
    then have "block_align l = lay_align l" by (simp add: block_align_def max_def)
    then show ?thesis using that [of k] k \<open>2 ^ 3 dvd 2 ^ k\<close> pos by simp
  qed
qed

lemma unat_block_size:
  assumes "ll_request l"
  shows "unat (block_size l) = max (round_up (unat (lay_size l)) (unat (block_align l))) 16"
    and "unat (block_size l) + unat (block_align l) \<le> 2 ^ 63"
    and "unat (block_align l) dvd unat (block_size l)"
proof -
  obtain k where k: "k < 64" "unat (block_align l) = 2 ^ k" "8 dvd unat (block_align l)"
      "unat (lay_size l) + 2 ^ k \<le> 2 ^ 63" "0 < unat (lay_size l)"
    using ll_requestE [OF assms] by metis
  let ?r = "round_up (unat (lay_size l)) (unat (block_align l))"
  have pos: "0 < unat (block_align l)" by (simp add: k)
  have "k \<le> 63" using k(1) by simp
  then have d: "2 ^ k dvd (2::nat) ^ 63" by (rule le_imp_power_dvd)
  then have "2 ^ k dvd (2::nat) ^ 63 - 2 ^ k" by (rule dvd_diff_nat) simp
  then have "?r \<le> 2 ^ 63 - 2 ^ k" unfolding k(2) using k(4) by (intro round_up_least) auto
  then have r: "?r + 2 ^ k \<le> 2 ^ 63" using dvd_imp_le [OF d] by simp
  have dv: "unat (block_align l) dvd max ?r 16"
  proof (cases "16 \<le> ?r")
    case False
    have "unat (block_align l) \<le> ?r"
      using round_up_bounds(1) [OF pos, of "unat (lay_size l)"] k(5) by (intro dvd_imp_le) auto
    moreover from k(3) obtain j where "unat (block_align l) = 8 * j" by (rule dvdE)
    ultimately have "unat (block_align l) = 8" using False pos by simp
    with False show ?thesis by simp
  qed (simp add: max_def)
  have "max ?r 16 < 2 ^ 64" using r by simp
  then show u: "unat (block_size l) = max ?r 16" unfolding block_size_def by (simp add: unat_of_nat)
  show "unat (block_align l) dvd unat (block_size l)" unfolding u by (rule dv)
  show "unat (block_size l) + unat (block_align l) \<le> 2 ^ 63"
  proof (cases "16 \<le> ?r")
    case True
    with u r k(2) show ?thesis by (simp add: max_def)
  next
    case False
    with dv k(3) have "unat (block_align l) \<le> 16" by (simp add: max_def dvd_imp_le)
    with False u show ?thesis by (simp add: max_def)
  qed
qed

lemma block_size_bounds:
  assumes "ll_request l"
  shows "16 \<le> unat (block_size l)" and "unat (lay_size l) \<le> unat (block_size l)" and "8 dvd unat (block_size l)"
proof -
  obtain k where k: "unat (block_align l) = 2 ^ k" "8 dvd unat (block_align l)"
    using ll_requestE [OF assms] by metis
  note u = unat_block_size [OF assms]
  show "16 \<le> unat (block_size l)" using u(1) by simp
  show "unat (lay_size l) \<le> unat (block_size l)"
    using u(1) round_up_bounds(1) [of "unat (block_align l)" "unat (lay_size l)"] k(1) by simp
  show "8 dvd unat (block_size l)" using k(2) u(3) by (rule dvd_trans)
qed

lemma size_align_spec:
  assumes "ll_request l"
  shows "size_align l = Inr (block_size l, block_align l)"
proof -
  obtain k where k: "k < 64" "block_align l = 2 ^ k" "unat (block_align l) = 2 ^ k"
      "unat (lay_size l) + 2 ^ k \<le> 2 ^ 63"
    using ll_requestE [OF assms] by metis
  let ?l = "\<lparr>lay_size = lay_size l, lay_align = block_align l\<rparr>"
  have "(2::nat) ^ k \<le> 2 ^ 63" using k(1) by (intro power_increasing) simp_all
  then have "unat (ISIZE_MAX + 1 - block_align l) = 2 ^ 63 - 2 ^ k"
    by (simp add: ISIZE_MAX_def unat_sub word_le_nat_alt k(3))
  then have "lay_size l \<le> ISIZE_MAX + 1 - block_align l"
    unfolding word_le_nat_alt using k(4) by simp
  then have "layout_align_to l NODE_ALIGN = Some ?l"
    using k(1,2) by (auto simp: layout_align_to_def from_size_align_Some layout_ok_def is_power_of_two_exp
        block_align_def NODE_ALIGN_def)
  moreover have "unat (lay_size (pad_to_align ?l)) = round_up (unat (lay_size l)) (unat (block_align l))"
    using mask_round_up [OF k(2,1), of "lay_size l"] k(3,4) \<open>2 ^ k \<le> 2 ^ 63\<close> by (simp add: pad_to_align_def)
  then have "max (lay_size (pad_to_align ?l)) 16 = block_size l"
    using unat_block_size(1) [OF assms] by (simp add: word_unat_eq_iff max_def word_le_nat_alt)
  ultimately show ?thesis by (simp add: size_align_def pad_to_align_def NODE_SIZE_def)
qed

section \<open>The allocator refines its specification\<close>

definition region_ok :: "block \<Rightarrow> bool" where
  "region_ok r \<longleftrightarrow> 8 dvd unat (fst r) \<and> 16 \<le> unat (snd r) \<and> unat (fst r) + unat (snd r) \<le> 2 ^ 63"

text \<open>What \<open>size_align\<close> hands to the search.\<close>

definition search_ok :: "usize \<Rightarrow> usize \<Rightarrow> bool" where
  "search_ok z align \<longleftrightarrow> (\<exists>k < 64. align = 2 ^ k) \<and> 8 dvd unat align \<and> 0 < unat z \<and> 8 dvd unat z
     \<and> unat z + unat align \<le> 2 ^ 63"

lemma search_ok_block:
  assumes "ll_request l"
  shows "search_ok (block_size l) (block_align l)"
proof -
  obtain k where k: "k < 64" "block_align l = 2 ^ k" "8 dvd unat (block_align l)"
    using ll_requestE [OF assms] by metis
  with unat_block_size(2) [OF assms] block_size_bounds [OF assms] show ?thesis
    by (auto simp: search_ok_def)
qed

lemma unat_of_nat_64: "n < 2 ^ 64 \<Longrightarrow> unat (of_nat n :: u64) = n"
  by (simp add: unat_of_nat)

lemma fit_Some:
  assumes "fit z align r = Some st" and "region_ok r" and "search_ok z align"
  shows "unat align dvd unat st" and "fst r \<le> st" and "unat (st + z) = unat st + unat z"
    and "unat st + unat z \<le> unat (fst r) + unat (snd r)"
    and "unat st + unat z < unat (fst r) + unat (snd r) \<Longrightarrow> unat st + unat z + 16 \<le> unat (fst r) + unat (snd r)"
proof -
  have pos: "0 < unat align" using assms(3) by (auto simp: search_ok_def unat_exp)
  let ?n = "round_up (unat (fst r)) (unat align)"
  have n: "?n + unat z = unat (fst r) + unat (snd r) \<or> ?n + unat z + 16 \<le> unat (fst r) + unat (snd r)" "st = of_nat ?n"
    using assms(1) by (auto simp: fit_def Let_def split: if_splits)
  then have "?n < 2 ^ 64" using assms(2) by (auto simp: region_ok_def)
  with n(2) have u: "unat st = ?n" by (simp add: unat_of_nat_64)
  show "unat align dvd unat st" by (simp add: u)
  show "fst r \<le> st" by (simp add: word_le_nat_alt u round_up_bounds pos)
  show le: "unat st + unat z \<le> unat (fst r) + unat (snd r)" using n(1) by (auto simp: u)
  show "unat (st + z) = unat st + unat z" using le assms(2) by (simp add: unat_add_no_ovf region_ok_def)
  show "unat st + unat z + 16 \<le> unat (fst r) + unat (snd r)"
    if "unat st + unat z < unat (fst r) + unat (snd r)" using n(1) that by (auto simp: u)
qed

lemma alloc_from_region_fit:
  assumes "region_ok (a, node_size node)" and "search_ok z align"
  shows "alloc_from_region a node z align = Inr (fit z align (a, node_size node))"
proof -
  obtain k where k: "align = 2 ^ k" "k < 64" using assms(2) by (auto simp: search_ok_def)
  have e: "unat a + unat (node_size node) \<le> 2 ^ 63" "unat z + unat align \<le> 2 ^ 63" "0 < unat z"
    using assms by (auto simp: region_ok_def search_ok_def)
  then have "unat a + unat align < 2 ^ 64" by simp
  from align_up_spec [OF k this] obtain b where b: "align_up a align = Inr b"
    "unat b = round_up (unat a) (unat align)" "unat b < unat a + unat align" by metis
  have "unat b + unat z < 2 ^ 64" using b(3) e by simp
  then have c: "checked_add b z = Some (b + z)" "unat (b + z) = unat b + unat z"
    by (auto simp: checked_add_def unat_add_no_ovf)
  have d: "end_addr a node = Inr (a + node_size node)" "unat (a + node_size node) = unat a + unat (node_size node)"
    using e(1) by (auto simp: end_addr_def add_ovf_def unat_add_no_ovf)
  have "b = of_nat (round_up (unat a) (unat align))" by (simp flip: b(2))
  with b(1,2) c d show ?thesis
    by (auto simp: alloc_from_region_def fit_def Let_def sub_ovf_def NODE_SIZE_def word_less_nat_alt word_le_nat_alt
        unat_sub)
qed

lemma first_fit_Some:
  assumes "first_fit z align rs = Some (r, st, rs')"
  obtains us vs where "rs = us @ r # vs" and "rs' = us @ vs" and "fit z align r = Some st"
    and "list_all (\<lambda>u. fit z align u = None) us"
proof -
  have "\<exists>us vs. rs = us @ r # vs \<and> rs' = us @ vs \<and> fit z align r = Some st \<and> list_all (\<lambda>u. fit z align u = None) us"
    using assms
  proof (induction rs arbitrary: rs')
    case (Cons q rs)
    show ?case
    proof (cases "fit z align q")
      case None
      with Cons.prems obtain rs'' where "first_fit z align rs = Some (r, st, rs'')" and rs': "rs' = q # rs''" by auto
      with Cons.IH obtain us vs where "rs = us @ r # vs" "rs'' = us @ vs" "fit z align r = Some st"
        "list_all (\<lambda>u. fit z align u = None) us" by blast
      then show ?thesis using None rs' by (intro exI [of _ "q # us"] exI [of _ vs]) simp
    next
      case (Some t)
      with Cons.prems have "r = q \<and> st = t \<and> rs' = rs" by auto
      with Some show ?thesis by (intro exI [of _ "[]"] exI [of _ rs]) simp
    qed
  qed simp
  with that show ?thesis by blast
qed

text \<open>
  From the cursor on, the search returns what the first-fit search of the list does, and takes the
  region it finds out of the chain; it changes no size, and no other pointer.
\<close>

definition unlinked :: "usize option \<Rightarrow> block list \<Rightarrow> block list \<Rightarrow> LinkedListAllocator \<Rightarrow> LinkedListAllocator \<Rightarrow> bool" where
  "unlinked cur rs rs' s s' \<longleftrightarrow>
     chain (\<lambda>a. node_next (ll_nodes s' a)) (next_of s' cur) (map fst rs') \<and>
     (\<forall>a. node_size (ll_nodes s' a) = node_size (ll_nodes s a)) \<and>
     (\<forall>c. c \<noteq> cur \<longrightarrow> c \<notin> Some ` fst ` set rs \<longrightarrow> next_of s' c = next_of s c)"

lemma unlinked_here:
  assumes "chain (\<lambda>a. node_next (ll_nodes s a)) (next_of s cur) (a # map fst rs)" and "distinct (a # map fst rs)"
    and "cur \<notin> Some ` set (a # map fst rs)"
  shows "unlinked cur ((a, z) # rs) rs s (set_next cur (next_of s (Some a)) (set_next cur None (set_next (Some a) None s)))"
proof -
  let ?s = "set_next cur (next_of s (Some a)) (set_next cur None (set_next (Some a) None s))"
  have same: "node_next (ll_nodes ?s b) = node_next (ll_nodes s b)" if "b \<in> set (map fst rs)" for b
    using that assms(2,3) by (cases cur) (auto simp: set_next_def)
  have "chain (\<lambda>a. node_next (ll_nodes s a)) (node_next (ll_nodes s a)) (map fst rs)"
    using assms(1) by simp
  then have "chain (\<lambda>a. node_next (ll_nodes ?s a)) (node_next (ll_nodes s a)) (map fst rs)"
    by (rule chain_cong) (rule same)
  moreover have "next_of ?s cur = node_next (ll_nodes s a)"
    by (cases cur) (auto simp: set_next_def next_of_def)
  moreover have "node_size (ll_nodes ?s b) = node_size (ll_nodes s b)" for b
    by (cases cur) (auto simp: set_next_def)
  moreover have "next_of ?s c = next_of s c" if "c \<noteq> cur" "c \<noteq> Some a" for c
    using that by (cases cur; cases c) (auto simp: set_next_def next_of_def)
  ultimately show ?thesis by (auto simp: unlinked_def)
qed

lemma find_region_refines:
  assumes "chain (\<lambda>a. node_next (ll_nodes s a)) (next_of s cur) (map fst rs)" and "distinct (map fst rs)"
    and "cur \<notin> Some ` fst ` set rs" and "list_all (\<lambda>r. node_size (ll_nodes s (fst r)) = snd r) rs"
    and "list_all region_ok rs" and "search_ok z align"
  shows "case first_fit z align rs of
           None \<Rightarrow> find_region cur z align s = Some (Inr (None, s))
         | Some (r, st, rs') \<Rightarrow> \<exists>s'. find_region cur z align s = Some (Inr (Some (fst r, st), s')) \<and> unlinked cur rs rs' s s'"
  using assms
proof (induction rs arbitrary: cur)
  case Nil
  then show ?case by (subst find_region.simps) simp
next
  case (Cons r rs)
  obtain a y where r: "r = (a, y)" by (cases r)
  have nx: "next_of s cur = Some a" and y: "node_size (ll_nodes s a) = y" and ok: "region_ok (a, y)"
    using Cons.prems by (auto simp: r)
  have afr: "alloc_from_region a (ll_nodes s a) z align = Inr (fit z align (a, y))"
    using alloc_from_region_fit [of a "ll_nodes s a"] ok y Cons.prems(6) by simp
  show ?case
  proof (cases "fit z align r")
    case (Some st)
    then show ?thesis
      using unlinked_here [of s cur a rs y] Cons.prems(1-3) nx afr
      by (subst find_region.simps) (simp add: r Let_def image_image)
  next
    case None
    then have step: "find_region cur z align s = find_region (Some a) z align s"
      using nx afr by (subst find_region.simps) (simp add: r)
    have IH: "case first_fit z align rs of
           None \<Rightarrow> find_region (Some a) z align s = Some (Inr (None, s))
         | Some (r, st, rs') \<Rightarrow> \<exists>s'. find_region (Some a) z align s = Some (Inr (Some (fst r, st), s')) \<and> unlinked (Some a) rs rs' s s'"
      by (rule Cons.IH) (use Cons.prems in \<open>auto simp: r next_of_def\<close>)
    have "unlinked cur (r # rs) (r # rs') s s'" if "unlinked (Some a) rs rs' s s'" for rs' s'
    proof -
      have "next_of s' cur = Some a" using that Cons.prems(3) nx by (auto simp: unlinked_def r)
      with that show ?thesis by (auto simp: unlinked_def r next_of_def)
    qed
    with IH None step show ?thesis by (auto split: option.splits)
  qed
qed

lemma add_free_region_rep:
  assumes "ll_rep s rs" and "8 dvd unat a" and "unat a + 8 < 2 ^ 64" and "16 \<le> unat z" and "a \<notin> fst ` set rs"
  shows "\<exists>s'. add_free_region a z s = Inr s' \<and> ll_rep s' ((a, z) # rs)"
proof -
  have "(8 :: u64) = 2 ^ 3" and "(3 :: nat) < 64" and "unat a + unat (8 :: u64) < 2 ^ 64" using assms(3) by simp_all
  then obtain b where "align_up a 8 = Inr b" "unat b = round_up (unat a) (unat (8 :: u64))"
    by (rule align_up_spec) (rule that)
  then have "align_up a NODE_ALIGN = Inr a" using assms(2) by (simp add: round_up_id word_unat_eq_iff NODE_ALIGN_def)
  then obtain s' where s': "add_free_region a z s = Inr s'"
    and nodes: "ll_nodes s' = (ll_nodes s)(a := \<lparr>node_size = z, node_next = node_next (ll_head s)\<rparr>)"
    and hd: "node_next (ll_head s') = Some a"
    using assms(4) by (auto simp: add_free_region_def Let_def NODE_SIZE_def word_le_nat_alt node_new_def)
  have same: "node_next (ll_nodes s' b) = node_next (ll_nodes s b)" if "b \<in> set (map fst rs)" for b
    using that assms(5) by (auto simp: nodes)
  have "chain (\<lambda>b. node_next (ll_nodes s b)) (node_next (ll_head s)) (map fst rs)"
    using assms(1) by (simp add: ll_rep_def)
  then have "chain (\<lambda>b. node_next (ll_nodes s' b)) (node_next (ll_head s)) (map fst rs)"
    by (rule chain_cong) (rule same)
  moreover have "list_all (\<lambda>r. node_size (ll_nodes s' (fst r)) = snd r) rs"
    using assms(1,5) by (auto simp: ll_rep_def nodes list_all_iff image_iff)
  ultimately show ?thesis using s' assms(1,5) hd by (auto simp: ll_rep_def nodes)
qed

lemma unlinked_rep:
  assumes "unlinked None rs rs' s s'" and "ll_rep s rs" and "rs = us @ r # vs" and "rs' = us @ vs"
  shows "ll_rep s' rs'"
  using assms by (auto simp: ll_rep_def unlinked_def next_of_def list_all_iff)

lemma disjoint_in_addr:
  assumes "disjoint_in H (us @ b # vs)" and "c \<in> set us \<union> set vs" and "0 < snd c"
  shows "unat (fst c) \<notin> bytes b"
proof -
  have "unat (fst c) \<in> bytes c" using assms(3) by (simp add: bytes_def word_less_nat_alt)
  moreover have "bytes b \<inter> bytes c = {}" using assms(1,2) by (auto simp: disjoint_in_append disjoint_in_Cons)
  ultimately show ?thesis by blast
qed

text \<open>What a block leaves above it in its region goes back to the free list.\<close>

lemma cut_off_above:
  assumes rep: "ll_rep s (us @ vs)" and ok: "list_all region_ok (us @ (a, y) # vs)"
    and dis: "disjoint_in H (us @ (a, y) # vs)" and so: "search_ok z al" and fit: "fit z al (a, y) = Some st"
    and rest: "st + z \<noteq> a + y"
  shows "0 < a + y - (st + z)"
    and "\<exists>s'. add_free_region (st + z) (a + y - (st + z)) s = Inr s' \<and> ll_rep s' ((st + z, a + y - (st + z)) # us @ vs)"
proof -
  have r: "region_ok (a, y)" using ok by simp
  then have ay: "unat (a + y) = unat a + unat y" by (simp add: region_ok_def unat_add_no_ovf)
  note f = fit_Some [OF fit r so, simplified]
  have le: "st + z \<le> a + y" using f(3,4) ay by (simp add: word_le_nat_alt)
  have lt: "unat (st + z) < unat a + unat y"
    using rest le ay by (metis le_neq_trans word_less_nat_alt)
  then have x: "16 \<le> unat (a + y - (st + z))" using f(3,5) ay le by (simp add: unat_sub)
  then show "0 < a + y - (st + z)" by (simp add: word_less_nat_alt)
  have "st + z \<notin> fst ` set (us @ vs)"
  proof
    assume "st + z \<in> fst ` set (us @ vs)"
    then obtain c where "c \<in> set (us @ vs)" and c2: "fst c = st + z" by (metis imageE)
    then have c: "c \<in> set us \<union> set vs" by simp
    with ok have "region_ok c" by (auto simp: list_all_iff)
    then have "0 < snd c" by (simp add: region_ok_def word_less_nat_alt)
    from disjoint_in_addr [OF dis c this] f(2,3) lt c2 show False
      by (simp add: bytes_def word_le_nat_alt)
  qed
  moreover have "8 dvd unat (st + z)" using f(1,3) so by (auto simp: search_ok_def intro: dvd_trans)
  moreover have "unat (st + z) + 8 < 2 ^ 64" using lt r by (simp add: region_ok_def)
  ultimately show "\<exists>s'. add_free_region (st + z) (a + y - (st + z)) s = Inr s' \<and> ll_rep s' ((st + z, a + y - (st + z)) # us @ vs)"
    using add_free_region_rep [OF rep _ _ x] by blast
qed

text \<open>One step of the allocator is one step of the specification.\<close>

lemma ll_alloc_refines:
  assumes rep: "ll_rep s rs" and ok: "list_all region_ok rs" and dis: "disjoint_in H rs" and l: "ll_request l"
    and free: "free_alloc (block_size l) (block_align l) rs = (p, rs')"
  shows "\<exists>s'. ll_alloc l s = Some (Inr (p, s')) \<and> ll_rep s' rs'"
proof -
  let ?z = "block_size l" let ?al = "block_align l"
  note so = search_ok_block [OF l]
  have find: "case first_fit ?z ?al rs of
           None \<Rightarrow> find_region None ?z ?al s = Some (Inr (None, s))
         | Some (r, st, rs') \<Rightarrow> \<exists>s'. find_region None ?z ?al s = Some (Inr (Some (fst r, st), s')) \<and> unlinked None rs rs' s s'"
    by (rule find_region_refines) (use rep ok so in \<open>auto simp: ll_rep_def next_of_def\<close>)
  show ?thesis
  proof (cases "first_fit ?z ?al rs")
    case None
    with find free rep show ?thesis by (simp add: ll_alloc_def size_align_spec [OF l] free_alloc_def)
  next
    case (Some x)
    then obtain a y st rs1 where ff: "first_fit ?z ?al rs = Some ((a, y), st, rs1)" by (cases x) auto
    then obtain us vs where rs: "rs = us @ (a, y) # vs" "rs1 = us @ vs" "fit ?z ?al (a, y) = Some st"
      by (rule first_fit_Some)
    from ff find obtain s1 where s1: "find_region None ?z ?al s = Some (Inr (Some (a, st), s1))"
      "unlinked None rs rs1 s s1" by auto
    have rep1: "ll_rep s1 (us @ vs)" using unlinked_rep s1(2) rep rs by blast
    have r: "region_ok (a, y)" using ok by (simp add: rs)
    note f = fit_Some [OF rs(3) r so, simplified]
    have sz: "node_size (ll_nodes s1 a) = y" using s1(2) rep by (simp add: unlinked_def ll_rep_def rs)
    have ay: "unat (a + y) = unat a + unat y" "end_addr a (ll_nodes s1 a) = Inr (a + y)"
      using r sz by (simp_all add: region_ok_def unat_add_no_ovf end_addr_def add_ovf_def)
    have ca: "checked_add st ?z = Some (st + ?z)"
      using f(3) unat_bound [of "st + ?z"] by (simp add: checked_add_def)
    have le: "st + ?z \<le> a + y" using f(3,4) ay(1) by (simp add: word_le_nat_alt)
    have alloc: "ll_alloc l s = Some (if 0 < a + y - (st + ?z)
        then rbind (add_free_region (st + ?z) (a + y - (st + ?z)) s1) (\<lambda>s. Inr (st, s)) else Inr (st, s1))"
      using s1(1) ca ay(2) le by (simp add: ll_alloc_def size_align_spec [OF l] sub_ovf_def)
    show ?thesis
    proof (cases "st + ?z = a + y")
      case True
      with free ff alloc rep1 rs(2) show ?thesis by (simp add: free_alloc_def)
    next
      case False
      with cut_off_above [OF rep1 ok [unfolded rs] dis [unfolded rs] so rs(3)] free ff alloc rs(2) show ?thesis
        by (auto simp: free_alloc_def)
    qed
  qed
qed

section \<open>The contract\<close>

definition ll_block :: "usize \<times> Layout \<Rightarrow> block" where
  "ll_block x = (fst x, block_size (snd x))"

text \<open>Free regions and outstanding blocks share no byte, and all could hold a node.\<close>

definition free_inv :: "nat set \<Rightarrow> block list \<Rightarrow> live \<Rightarrow> bool" where
  "free_inv H rs live \<longleftrightarrow>
     list_all region_ok rs \<and> disjoint_in H (rs @ map ll_block live) \<and>
     list_all (\<lambda>x. live_ok x \<and> ll_request (snd x) \<and> 8 dvd unat (fst x)) live"

definition ll_inv :: "nat set \<Rightarrow> LinkedListAllocator \<Rightarrow> live \<Rightarrow> bool" where
  "ll_inv H s live \<longleftrightarrow> (\<exists>rs. ll_rep s rs \<and> free_inv H rs live)"

lemma disjoint_in_split:
  assumes "disjoint_in H (us @ b # vs)" and "disjoint_in (bytes b) cs"
  shows "disjoint_in H (cs @ us @ vs)"
proof -
  have b: "bytes b \<subseteq> H" "\<forall>c \<in> set us \<union> set vs. bytes b \<inter> bytes c = {}" "disjoint_in H (us @ vs)"
    using assms(1) by (auto simp: disjoint_in_append disjoint_in_Cons)
  have "bytes c \<inter> bytes d = {}" if "c \<in> set cs" "d \<in> set (us @ vs)" for c d
  proof -
    have "bytes c \<subseteq> bytes b" using assms(2) that(1) by (simp add: disjoint_in_def)
    moreover have "bytes b \<inter> bytes d = {}" using b(2) that(2) by simp
    ultimately show ?thesis by blast
  qed
  moreover have "disjoint_in H cs" using assms(2) b(1) by (rule disjoint_in_mono)
  ultimately show ?thesis using b(3) unfolding disjoint_in_append [of H cs] by blast
qed

lemma live_ok_fit:
  assumes "fit (block_size l) (block_align l) (a, y) = Some st" and "region_ok (a, y)" and "ll_request l" and "0 < a"
  shows "live_ok (st, l)" and "8 dvd unat st" and "st \<noteq> 0"
proof -
  note f = fit_Some [OF assms(1,2) search_ok_block [OF assms(3)]]
  obtain k where k: "8 dvd unat (block_align l)" "unat (lay_align l) dvd unat (block_align l)"
    using ll_requestE [OF assms(3)] by metis
  show "8 dvd unat st" using k(1) f(1) by (rule dvd_trans)
  show "st \<noteq> 0" using f(2) assms(4) by auto
  then show "live_ok (st, l)"
    using dvd_trans [OF k(2) f(1)] assms(3) by (simp add: live_ok_def ll_request_def)
qed

lemma disjoint_in_cut:
  assumes "fit z al (a, y) = Some st" and "region_ok (a, y)" and "search_ok z al"
  shows "disjoint_in (bytes (a, y)) [(st + z, a + y - (st + z)), (st, z)]"
proof -
  note f = fit_Some [OF assms, simplified]
  have ay: "unat (a + y) = unat a + unat y" using assms(2) by (simp add: region_ok_def unat_add_no_ovf)
  then have "st + z \<le> a + y" using f(3,4) by (simp add: word_le_nat_alt)
  then have "unat (a + y - (st + z)) = unat a + unat y - (unat st + unat z)" using f(3) ay by (simp add: unat_sub)
  then show ?thesis using f(2,3,4) by (auto simp: disjoint_in_Cons bytes_def word_le_nat_alt)
qed

lemma free_alloc_inv:
  assumes inv: "free_inv H rs live" and l: "ll_request l" and zero: "0 \<notin> H"
    and free: "free_alloc (block_size l) (block_align l) rs = (p, rs')"
  shows "free_inv H rs' (if p = 0 then live else (p, l) # live)"
proof (cases "first_fit (block_size l) (block_align l) rs")
  case None
  with free inv show ?thesis by (simp add: free_alloc_def)
next
  case (Some x)
  let ?z = "block_size l" let ?al = "block_align l"
  obtain a y st rs1 where ff: "first_fit ?z ?al rs = Some ((a, y), st, rs1)" using Some by (cases x) auto
  then obtain us vs where rs: "rs = us @ (a, y) # vs" "rs1 = us @ vs" "fit ?z ?al (a, y) = Some st"
    by (rule first_fit_Some)
  have r: "region_ok (a, y)" using inv by (simp add: free_inv_def rs)
  let ?x = "a + y - (st + ?z)"
  have dis: "disjoint_in H ((us @ (a, y) # vs) @ map ll_block live)" using inv by (simp add: free_inv_def rs)
  have "unat a \<in> bytes (a, y)" using r by (simp add: bytes_def region_ok_def)
  then have "unat a \<in> H" using dis by (auto simp: disjoint_in_def)
  then have "0 < a" using zero by (metis word_gt_0 unat_0)
  note lo = live_ok_fit [OF rs(3) r l this]
  have "disjoint_in H ([(st + ?z, ?x), (st, ?z)] @ us @ vs @ map ll_block live)"
    by (rule disjoint_in_split [where b = "(a, y)"])
      (use dis disjoint_in_cut [OF rs(3) r search_ok_block [OF l]] in simp_all)
  then have d: "disjoint_in H (((st + ?z, ?x) # us @ vs) @ map ll_block ((st, l) # live))"
    by (rule disjoint_in_mset [THEN iffD1, rotated]) (simp add: ll_block_def)
  have live: "list_all (\<lambda>x. live_ok x \<and> ll_request (snd x) \<and> 8 dvd unat (fst x)) ((st, l) # live)"
    using inv lo l by (simp add: free_inv_def)
  have ok: "list_all region_ok (us @ vs)" using inv by (simp add: free_inv_def rs)
  show ?thesis
  proof (cases "st + ?z = a + y")
    case True
    with d have "disjoint_in H ((us @ vs) @ map ll_block ((st, l) # live))" by (simp add: disjoint_in_Cons)
    with live ok True lo(3) free ff rs(2) show ?thesis by (auto simp: free_alloc_def free_inv_def)
  next
    case False
    note f = fit_Some [OF rs(3) r search_ok_block [OF l], simplified]
    have ay: "unat (a + y) = unat a + unat y" using r by (simp add: region_ok_def unat_add_no_ovf)
    have le: "st + ?z \<le> a + y" using f(3,4) ay by (simp add: word_le_nat_alt)
    then have "unat (st + ?z) < unat a + unat y" using False ay by (metis le_neq_trans word_less_nat_alt)
    then have "region_ok (st + ?z, ?x)"
      using f r ay le search_ok_block [OF l]
      by (auto simp: region_ok_def unat_sub search_ok_def intro: dvd_trans dvd_add)
    with d live ok False lo(3) free ff rs(2) show ?thesis by (auto simp: free_alloc_def free_inv_def)
  qed
qed

lemma ll_alloc_inv:
  assumes "ll_inv H s live" and "ll_request l" and "0 \<notin> H"
  shows "\<exists>p s'. ll_alloc l s = Some (Inr (p, s')) \<and> ll_inv H s' (if p = 0 then live else (p, l) # live)"
proof -
  obtain rs where rs: "ll_rep s rs" "free_inv H rs live" using assms(1) by (auto simp: ll_inv_def)
  obtain p rs' where free: "free_alloc (block_size l) (block_align l) rs = (p, rs')" by fastforce
  have "list_all region_ok rs" "disjoint_in H rs"
    using rs(2) by (simp_all add: free_inv_def disjoint_in_append)
  with ll_alloc_refines [OF rs(1) _ _ assms(2) free] free_alloc_inv [OF rs(2) assms(2,3) free] show ?thesis
    unfolding ll_inv_def by blast
qed

lemma ll_dealloc_inv:
  assumes "ll_inv H s (us @ (p, l) # vs)" and small: "H \<subseteq> {..< 2 ^ 63}"
  shows "\<exists>s'. ll_dealloc p l s = Inr s' \<and> ll_inv H s' (us @ vs)"
proof -
  obtain rs where rs: "ll_rep s rs" "free_inv H rs (us @ (p, l) # vs)" using assms(1) by (auto simp: ll_inv_def)
  have l: "ll_request l" and dv: "8 dvd unat p" using rs(2) by (auto simp: free_inv_def)
  note bs = block_size_bounds [OF l]
  have dis: "disjoint_in H ((rs @ map ll_block us) @ (p, block_size l) # map ll_block vs)"
    using rs(2) by (simp add: free_inv_def ll_block_def)
  then have "bytes (p, block_size l) \<subseteq> {..< 2 ^ 63}" using small by (auto simp: disjoint_in_def)
  moreover have "unat p + unat (block_size l) - 1 \<in> bytes (p, block_size l)" using bs(1) by (simp add: bytes_def)
  ultimately have hi: "unat p + unat (block_size l) \<le> 2 ^ 63" using bs(1) by (auto dest: subsetD)
  then have r: "region_ok (p, block_size l)" using bs(1) dv by (simp add: region_ok_def)
  have "p \<notin> fst ` set rs"
  proof
    assume "p \<in> fst ` set rs"
    then obtain c where c: "c \<in> set rs" "fst c = p" by (metis imageE)
    then have "region_ok c" using rs(2) by (auto simp: free_inv_def list_all_iff)
    then have "0 < snd c" by (simp add: region_ok_def word_less_nat_alt)
    with disjoint_in_addr [OF dis, of c] c bs(1) show False by (simp add: bytes_def)
  qed
  then obtain s' where "add_free_region p (block_size l) s = Inr s'" "ll_rep s' ((p, block_size l) # rs)"
    using add_free_region_rep [OF rs(1) dv _ bs(1)] hi by auto
  moreover have "disjoint_in H (((p, block_size l) # rs) @ map ll_block (us @ vs))"
    by (rule disjoint_in_mset [THEN iffD1, OF _ dis]) simp
  then have "free_inv H ((p, block_size l) # rs) (us @ vs)"
    using rs(2) r by (auto simp: free_inv_def)
  ultimately show ?thesis by (auto simp: ll_dealloc_def size_align_spec [OF l] ll_inv_def)
qed

text \<open>The client writes into its blocks, and with them over nodes that overlap them.\<close>

definition ll_write :: "(usize \<Rightarrow> ListNode) \<Rightarrow> live \<Rightarrow> LinkedListAllocator \<Rightarrow> LinkedListAllocator" where
  "ll_write w live s = s\<lparr>ll_nodes := \<lambda>a.
     if list_ex (\<lambda>(p, l). unat a < unat p + unat (lay_size l) \<and> unat p < unat a + unat NODE_SIZE) live
     then w a else ll_nodes s a\<rparr>"

lemma ll_write_inv:
  assumes "ll_inv H s live"
  shows "ll_inv H (ll_write w live s) live"
proof -
  obtain rs where rs: "ll_rep s rs" "free_inv H rs live" using assms by (auto simp: ll_inv_def)
  have same: "ll_nodes (ll_write w live s) (fst r) = ll_nodes s (fst r)" if r: "r \<in> set rs" for r
  proof -
    have "\<not> (unat (fst r) < unat p + unat (lay_size l) \<and> unat p < unat (fst r) + 16)" if x: "(p, l) \<in> set live" for p l
    proof -
      have "bytes r \<inter> bytes (ll_block (p, l)) = {}" and "ll_request l"
        using rs(2) r x by (auto simp: free_inv_def disjoint_in_append list_all_iff)
      moreover have "16 \<le> unat (snd r)" using rs(2) r by (auto simp: free_inv_def list_all_iff region_ok_def)
      moreover have "max (unat (fst r)) (unat p) \<notin> bytes r \<inter> bytes (ll_block (p, l))" using calculation(1) by simp
      ultimately show ?thesis
        using block_size_bounds(1,2) [of l] by (auto simp: bytes_def ll_block_def max_def split: if_splits)
    qed
    then show ?thesis by (auto simp: ll_write_def list_ex_iff NODE_SIZE_def)
  qed
  have "ll_rep (ll_write w live s) rs"
    unfolding ll_rep_def
  proof (intro conjI)
    have "chain (\<lambda>a. node_next (ll_nodes s a)) (node_next (ll_head s)) (map fst rs)"
      using rs(1) by (simp add: ll_rep_def)
    then have "chain (\<lambda>a. node_next (ll_nodes (ll_write w live s) a)) (node_next (ll_head s)) (map fst rs)"
      by (rule chain_cong) (use same in auto)
    then show "chain (\<lambda>a. node_next (ll_nodes (ll_write w live s) a)) (node_next (ll_head (ll_write w live s))) (map fst rs)"
      by (simp add: ll_write_def)
  qed (use rs(1) same in \<open>auto simp: ll_rep_def list_all_iff\<close>)
  with rs(2) show ?thesis by (auto simp: ll_inv_def)
qed

lemma ll_inv_live:
  assumes "ll_inv H s live"
  shows "disjoint_in H (map live_block live) \<and> list_all live_ok live"
proof -
  obtain rs where rs: "free_inv H rs live" using assms by (auto simp: ll_inv_def)
  then have dis: "disjoint_in H (map ll_block live)" and req: "\<forall>x \<in> set live. ll_request (snd x)"
    by (simp_all add: free_inv_def disjoint_in_append list_all_iff)
  have "disjoint_in H (map live_block live)"
    by (rule disjoint_in_shrink [OF dis])
      (use req block_size_bounds(2) in \<open>auto simp: bytes_def live_block_def ll_block_def intro: less_le_trans\<close>)
  with rs show ?thesis by (simp add: free_inv_def list_all_iff)
qed

lemma heap_range_bounds:
  assumes "range_ok st sz"
  shows "0 \<notin> heap_range st sz" and "heap_range st sz \<subseteq> {..< 2 ^ 63}"
  using range_okD(1,3) [OF assms] by (auto simp: heap_range_def word_less_nat_alt)

lemma ll_heap:
  assumes "range_ok st sz"
  shows "heap_allocator (heap_range st sz) ll_request (ll_inv (heap_range st sz)) ll_alloc ll_dealloc ll_write"
  by unfold_locales
    (metis ll_alloc_inv heap_range_bounds(1) [OF assms], metis ll_dealloc_inv heap_range_bounds(2) [OF assms],
      rule ll_write_inv, assumption, rule ll_inv_live, assumption)

interpretation ll: heap_allocator "heap_range HEAP_START HEAP_SIZE" ll_request "ll_inv (heap_range HEAP_START HEAP_SIZE)"
  ll_alloc ll_dealloc ll_write
  by (rule ll_heap) (rule kernel_heap_ok)

lemma ll_init_inv:
  assumes "range_ok st sz" and "8 dvd unat st" and "16 \<le> unat sz"
  shows "\<exists>s. ll_init st sz (ll_new nodes) = Inr s \<and> ll_inv (heap_range st sz) s []"
proof -
  have "ll_rep (ll_new nodes) []" by (simp add: ll_rep_def ll_new_def node_new_def)
  moreover have "unat st + 8 < 2 ^ 64" using range_okD(3) [OF assms(1)] by simp
  ultimately obtain s where "add_free_region st sz (ll_new nodes) = Inr s" "ll_rep s [(st, sz)]"
    using add_free_region_rep assms(2,3) by fastforce
  moreover have "free_inv (heap_range st sz) [(st, sz)] []"
    using assms range_okD(3) [OF assms(1)] by (simp add: free_inv_def disjoint_in_Cons region_ok_def bytes_def heap_range_def)
  ultimately show ?thesis by (auto simp: ll_init_def ll_inv_def)
qed

section \<open>Properties\<close>

text \<open>The kernel's heap as one region: what \<open>init\<close> makes of it.\<close>

definition demo_ll :: LinkedListAllocator where
  "demo_ll = \<lparr>ll_head = \<lparr>node_size = 0, node_next = Some HEAP_START\<rparr>,
     ll_nodes = (\<lambda>a. if a = HEAP_START then \<lparr>node_size = HEAP_SIZE, node_next = None\<rparr> else node_new 0)\<rparr>"

definition demo_regions :: "block list" where "demo_regions = [(HEAP_START, HEAP_SIZE)]"

lemma demo_ll_init: "ll_init HEAP_START HEAP_SIZE (ll_new (\<lambda>_. node_new 0)) = Inr demo_ll"
  by (simp add: ll_init_def ll_new_def node_new_def demo_ll_def add_free_region_def align_up_def add_ovf_def sub_ovf_def
      NODE_ALIGN_def NODE_SIZE_def HEAP_START_def HEAP_SIZE_def fun_eq_iff)

lemma demo_heap_size: "8 dvd unat HEAP_START" "16 \<le> unat HEAP_SIZE"
  by (simp_all add: HEAP_START_def HEAP_SIZE_def)

lemma demo_layout_request: "ll_request \<lparr>lay_size = 24, lay_align = 64\<rparr>"
  by code_simp

lemma demo_regions_ok: "list_all region_ok demo_regions" "disjoint_in (heap_range HEAP_START HEAP_SIZE) demo_regions"
  by (simp_all add: demo_regions_def region_ok_def disjoint_in_Cons bytes_def heap_range_def HEAP_START_def HEAP_SIZE_def)

lemma demo_ll_rep: "ll_rep demo_ll demo_regions"
  by (simp add: ll_rep_def demo_ll_def demo_regions_def)

text \<open>C27. The pointer-based free list implements first fit: whenever the chain of nodes in memory stands
  for a list of disjoint free regions, allocation terminates without a panic, returns the address the
  first-fit search of that list returns (null if no region fits), and leaves a chain that stands for
  the remaining regions, the part cut off above the block first.\<close>

theorem ll_first_fit:
  assumes "ll_rep s rs" and "list_all region_ok rs" and "disjoint_in H rs" and "ll_request l"
  shows "\<exists>s'. ll_alloc l s = Some (Inr (fst (free_alloc (block_size l) (block_align l) rs), s'))
           \<and> ll_rep s' (snd (free_alloc (block_size l) (block_align l) rs))"
  by (rule ll_alloc_refines [OF assms]) simp

theorem ll_first_fit_witness:
  "ll_rep demo_ll demo_regions \<and> list_all region_ok demo_regions \<and> ll_request \<lparr>lay_size = 24, lay_align = 64\<rparr>
   \<and> (\<exists>s'. ll_alloc \<lparr>lay_size = 24, lay_align = 64\<rparr> demo_ll = Some (Inr (HEAP_START, s'))
        \<and> ll_rep s' [(HEAP_START + 64, HEAP_SIZE - 64)])"
proof -
  have "free_alloc (block_size \<lparr>lay_size = 24, lay_align = 64\<rparr>) (block_align \<lparr>lay_size = 24, lay_align = 64\<rparr>) demo_regions
      = (HEAP_START, [(HEAP_START + 64, HEAP_SIZE - 64)])"
    by (simp add: free_alloc_def demo_regions_def fit_def round_up_def block_size_def block_align_def max_def
        HEAP_START_def HEAP_SIZE_def word_le_nat_alt)
  with ll_first_fit [OF demo_ll_rep demo_regions_ok demo_layout_request] demo_ll_rep demo_regions_ok(1) demo_layout_request
  show ?thesis by simp
qed


definition demo_ll_calls :: "(usize \<Rightarrow> ListNode) call list" where
  "demo_ll_calls = [Alloc \<lparr>lay_size = 24, lay_align = 64\<rparr>, Write (\<lambda>_. node_new 7), Alloc \<lparr>lay_size = 24, lay_align = 64\<rparr>, Dealloc 1]"


text \<open>A layout that satisfies the rules of \<open>Layout\<close> can still panic the free-list allocator: a byte
  array of \<open>isize::MAX\<close> bytes cannot be rounded up to the alignment of a node, and \<open>size_align\<close> expects
  that it can, where \<open>alloc\<close> should return null.\<close>

theorem ll_alloc_can_panic:
  "valid_request \<lparr>lay_size = ISIZE_MAX, lay_align = 1\<rparr>
   \<and> ll_alloc \<lparr>lay_size = ISIZE_MAX, lay_align = 1\<rparr> s = Some (Inl (Expect ''alignment failed''))"
proof -
  have "valid_request \<lparr>lay_size = ISIZE_MAX, lay_align = 1\<rparr>" by code_simp
  moreover have "size_align \<lparr>lay_size = ISIZE_MAX, lay_align = 1\<rparr> = Inl (Expect ''alignment failed'')" by code_simp
  ultimately show ?thesis by (simp add: ll_alloc_def)
qed

end
