(* ===== verification/Fixed_Block.thy ===== *)
theory Fixed_Block
  imports Linked_List
begin

text \<open>
  The kernel's allocator (\<open>src/allocator/fixed_size_block.rs\<close>): free lists of blocks of nine sizes, on
  top of a general heap from the crate \<open>linked_list_allocator\<close>, which is a parameter: the functions
  \<open>aff\<close> (\<open>allocate_first_fit\<close>) and \<open>dea\<close> (\<open>deallocate\<close>), with the contract of a heap as what is relied
  on. The free lists live in the free blocks: the model keeps the pointers written at addresses.
\<close>

section \<open>The allocator\<close>

definition BLOCK_SIZES :: "usize list" where
  "BLOCK_SIZES = [8, 16, 32, 64, 128, 256, 512, 1024, 2048]"

record 'h FixedSizeBlockAllocator =
  list_heads :: "usize option list"
  block_nodes :: "usize \<Rightarrow> usize option" \<comment> \<open>memory, as the \<open>next\<close> pointers of the nodes written at its addresses\<close>
  fallback_allocator :: 'h

definition fixed_new :: "'h \<Rightarrow> (usize \<Rightarrow> usize option) \<Rightarrow> 'h FixedSizeBlockAllocator" where
  "fixed_new h nodes = \<lparr>list_heads = replicate (length BLOCK_SIZES) None, block_nodes = nodes, fallback_allocator = h\<rparr>"

definition fixed_init :: "(usize \<Rightarrow> usize \<Rightarrow> 'h \<Rightarrow> 'h) \<Rightarrow> usize \<Rightarrow> usize \<Rightarrow> 'h FixedSizeBlockAllocator \<Rightarrow> 'h FixedSizeBlockAllocator" where
  "fixed_init ini st sz s = s\<lparr>fallback_allocator := ini st sz (fallback_allocator s)\<rparr>"

definition fallback_alloc ::
    "(Layout \<Rightarrow> 'h \<Rightarrow> usize option \<times> 'h) \<Rightarrow> Layout \<Rightarrow> 'h FixedSizeBlockAllocator \<Rightarrow> usize \<times> 'h FixedSizeBlockAllocator" where
  "fallback_alloc aff layout s =
     (case aff layout (fallback_allocator s) of
        (Some ptr, h) \<Rightarrow> (ptr, s\<lparr>fallback_allocator := h\<rparr>)
      | (None, h) \<Rightarrow> (0, s\<lparr>fallback_allocator := h\<rparr>))"

definition list_index :: "Layout \<Rightarrow> nat option" where
  "list_index layout =
     (let required = max (lay_size layout) (lay_align layout) in position (\<lambda>s. required \<le> s) BLOCK_SIZES)"

definition fixed_alloc ::
    "(Layout \<Rightarrow> 'h \<Rightarrow> usize option \<times> 'h) \<Rightarrow> Layout \<Rightarrow> 'h FixedSizeBlockAllocator \<Rightarrow> (usize \<times> 'h FixedSizeBlockAllocator) res" where
  "fixed_alloc aff layout s =
     (case list_index layout of
        Some index \<Rightarrow>
          rbind (index_chk (list_heads s) index) (\<lambda>head.
            case head of
              Some node \<Rightarrow>
                Inr (node, s\<lparr>list_heads := (list_heads s)[index := block_nodes s node],
                             block_nodes := (block_nodes s)(node := None)\<rparr>)
            | None \<Rightarrow>
                rbind (index_chk BLOCK_SIZES index) (\<lambda>block_size.
                  case from_size_align block_size block_size of
                    None \<Rightarrow> Inl (Explicit ''called Result::unwrap() on an Err value'')
                  | Some layout \<Rightarrow> Inr (fallback_alloc aff layout s)))
      | None \<Rightarrow> Inr (fallback_alloc aff layout s))"

definition fixed_dealloc ::
    "(usize \<Rightarrow> Layout \<Rightarrow> 'h \<Rightarrow> 'h) \<Rightarrow> usize \<Rightarrow> Layout \<Rightarrow> 'h FixedSizeBlockAllocator \<Rightarrow> 'h FixedSizeBlockAllocator res" where
  "fixed_dealloc dea ptr layout s =
     (case list_index layout of
        Some index \<Rightarrow>
          rbind (index_chk BLOCK_SIZES index) (\<lambda>block_size.
          rbind (rassert (8 \<le> block_size)) (\<lambda>_. \<comment> \<open>\<open>size_of::<ListNode>()\<close>\<close>
          rbind (rassert (8 \<le> block_size)) (\<lambda>_. \<comment> \<open>\<open>align_of::<ListNode>()\<close>\<close>
          rbind (index_chk (list_heads s) index) (\<lambda>head.
            Inr (s\<lparr>block_nodes := (block_nodes s)(ptr := head), list_heads := (list_heads s)[index := Some ptr]\<rparr>)))))
      | None \<Rightarrow>
          if ptr = 0 then Inl (Expect ''dealloc called with null pointer'')
          else Inr (s\<lparr>fallback_allocator := dea ptr layout (fallback_allocator s)\<rparr>))"

text \<open>\<open>ptr::copy_nonoverlapping\<close> of \<open>n\<close> bytes.\<close>

definition copy_bytes :: "usize \<Rightarrow> usize \<Rightarrow> usize \<Rightarrow> (usize \<Rightarrow> u8) \<Rightarrow> usize \<Rightarrow> u8" where
  "copy_bytes src dst n mem = (\<lambda>a. if a - dst < n then mem (src + (a - dst)) else mem a)"

definition fixed_realloc ::
    "(Layout \<Rightarrow> 'h \<Rightarrow> usize option \<times> 'h) \<Rightarrow> (usize \<Rightarrow> Layout \<Rightarrow> 'h \<Rightarrow> 'h) \<Rightarrow> usize \<Rightarrow> Layout \<Rightarrow> usize \<Rightarrow>
     'h FixedSizeBlockAllocator \<Rightarrow> (usize \<Rightarrow> u8) \<Rightarrow> (usize \<times> 'h FixedSizeBlockAllocator \<times> (usize \<Rightarrow> u8)) res" where
  "fixed_realloc aff dea ptr layout new_size s mem =
     (case from_size_align new_size (lay_align layout) of
        None \<Rightarrow> Inr (0, s, mem)
      | Some new_layout \<Rightarrow>
          rbind (fixed_alloc aff new_layout s) (\<lambda>(new_ptr, s).
            if new_ptr \<noteq> 0
            then let copy_size = min (lay_size layout) new_size;
                     mem = copy_bytes ptr new_ptr copy_size mem
                 in rbind (fixed_dealloc dea ptr layout s) (\<lambda>s. Inr (new_ptr, s, mem))
            else Inr (new_ptr, s, mem)))"

section \<open>Size classes\<close>

definition class_layout :: "Layout \<Rightarrow> Layout" where
  "class_layout l =
     (case list_index l of
        Some i \<Rightarrow> \<lparr>lay_size = BLOCK_SIZES ! i, lay_align = BLOCK_SIZES ! i\<rparr>
      | None \<Rightarrow> l)"

definition class_block :: "nat \<Rightarrow> usize \<Rightarrow> usize \<times> Layout" where
  "class_block i p = (p, \<lparr>lay_size = BLOCK_SIZES ! i, lay_align = BLOCK_SIZES ! i\<rparr>)"

lemma length_BLOCK_SIZES [simp]: "length BLOCK_SIZES = 9"
  by (simp add: BLOCK_SIZES_def)

lemma BLOCK_SIZES_nth:
  assumes "i < 9"
  shows "BLOCK_SIZES ! i = 2 ^ (i + 3)"
proof -
  have "i \<in> set [0, 1, 2, 3, 4, 5, 6, 7, 8]" using assms by auto
  then show ?thesis by (auto simp: BLOCK_SIZES_def)
qed

lemma unat_BLOCK_SIZES: "i < 9 \<Longrightarrow> unat (BLOCK_SIZES ! i) = 2 ^ (i + 3)"
  using unat_exp [of "i + 3"] by (simp add: BLOCK_SIZES_nth)

lemma BLOCK_SIZES_ge: "i < 9 \<Longrightarrow> 8 \<le> unat (BLOCK_SIZES ! i)"
  using power_increasing [of 3 "i + 3" "2 :: nat"] by (simp add: unat_BLOCK_SIZES)

lemma class_valid:
  assumes "i < 9"
  shows "from_size_align (BLOCK_SIZES ! i) (BLOCK_SIZES ! i) = Some \<lparr>lay_size = BLOCK_SIZES ! i, lay_align = BLOCK_SIZES ! i\<rparr>"
    and "valid_request \<lparr>lay_size = BLOCK_SIZES ! i, lay_align = BLOCK_SIZES ! i\<rparr>"
proof -
  have "\<forall>b \<in> set BLOCK_SIZES. valid_request \<lparr>lay_size = b, lay_align = b\<rparr>" by code_simp
  moreover have "BLOCK_SIZES ! i \<in> set BLOCK_SIZES" using assms by simp
  ultimately show "valid_request \<lparr>lay_size = BLOCK_SIZES ! i, lay_align = BLOCK_SIZES ! i\<rparr>" by blast
  then show "from_size_align (BLOCK_SIZES ! i) (BLOCK_SIZES ! i) = Some \<lparr>lay_size = BLOCK_SIZES ! i, lay_align = BLOCK_SIZES ! i\<rparr>"
    by (simp add: from_size_align_Some valid_request_def)
qed

text \<open>A block of the class of a layout is large enough, and aligned enough.\<close>

lemma list_index_Some:
  assumes "list_index l = Some i" and "valid_request l"
  shows "i < 9" and "lay_size l \<le> BLOCK_SIZES ! i" and "unat (lay_align l) dvd unat (BLOCK_SIZES ! i)"
proof -
  have i: "i < 9 \<and> max (lay_size l) (lay_align l) \<le> BLOCK_SIZES ! i"
    using assms(1) unfolding list_index_def Let_def by (auto dest!: position_Some)
  then show "i < 9" and "lay_size l \<le> BLOCK_SIZES ! i" by simp_all
  obtain k where k: "unat (lay_align l) = 2 ^ k" using assms(2) layout_okE by (metis valid_request_def)
  have "lay_align l \<le> BLOCK_SIZES ! i" using i by simp
  then have "unat (lay_align l) \<le> unat (BLOCK_SIZES ! i)" by (simp only: word_le_nat_alt)
  then have "k \<le> i + 3" using i k by (simp add: unat_BLOCK_SIZES)
  then show "unat (lay_align l) dvd unat (BLOCK_SIZES ! i)"
    using i k by (simp only: unat_BLOCK_SIZES le_imp_power_dvd)
qed

lemma class_layout_ok:
  assumes "valid_request l"
  shows "bytes (p, lay_size l) \<subseteq> bytes (p, lay_size (class_layout l))"
    and "live_ok (p, class_layout l) \<Longrightarrow> live_ok (p, l)"
proof -
  show "bytes (p, lay_size l) \<subseteq> bytes (p, lay_size (class_layout l))"
    using list_index_Some [OF _ assms] by (fastforce simp: class_layout_def bytes_def word_le_nat_alt split: option.splits)
  show "live_ok (p, l)" if "live_ok (p, class_layout l)"
    using that list_index_Some(3) [OF _ assms] assms
    by (auto simp: class_layout_def live_ok_def split: option.splits intro: dvd_trans)
qed

section \<open>The invariant\<close>

definition class_of :: "usize \<times> Layout \<Rightarrow> usize \<times> Layout" where
  "class_of x = (fst x, class_layout (snd x))"

text \<open>The blocks of the free lists, as allocations of the heap below.\<close>

definition free_blocks :: "usize list list \<Rightarrow> (usize \<times> Layout) multiset" where
  "free_blocks free = (\<Sum>i < 9. image_mset (class_block i) (mset (free ! i)))"

definition heads_rep :: "'h FixedSizeBlockAllocator \<Rightarrow> usize list list \<Rightarrow> bool" where
  "heads_rep s free \<longleftrightarrow> length (list_heads s) = 9 \<and> length free = 9 \<and>
     (\<forall>i < 9. chain (block_nodes s) (list_heads s ! i) (free ! i))"

text \<open>
  What the heap below has handed out is what the clients hold, each block at the size of its class, and
  what lies in the free lists.
\<close>

definition fixed_inv :: "('h \<Rightarrow> live \<Rightarrow> bool) \<Rightarrow> 'h FixedSizeBlockAllocator \<Rightarrow> live \<Rightarrow> bool" where
  "fixed_inv hinv s live \<longleftrightarrow>
     (\<exists>free fl. heads_rep s free \<and> mset fl = image_mset class_of (mset live) + free_blocks free \<and>
        hinv (fallback_allocator s) fl \<and> list_all (\<lambda>x. valid_request (snd x)) live)"

lemma free_blocks_update:
  assumes "i < 9" and "length free = 9"
  shows "free_blocks (free[i := ps]) + image_mset (class_block i) (mset (free ! i))
           = free_blocks free + image_mset (class_block i) (mset ps)"
proof -
  let ?f = "\<lambda>fr j. image_mset (class_block j) (mset (fr ! j))"
  have "free_blocks fr = ?f fr i + (\<Sum>j \<in> {..< 9} - {i}. ?f fr j)" for fr
    unfolding free_blocks_def using assms(1) by (intro sum.remove) auto
  moreover have "(\<Sum>j \<in> {..< 9} - {i}. ?f (free[i := ps]) j) = (\<Sum>j \<in> {..< 9} - {i}. ?f free j)"
    by (rule sum.cong) auto
  ultimately show ?thesis using assms by (simp add: add_ac)
qed

lemma fst_class_block [simp]: "fst (class_block i p) = p"
  by (simp add: class_block_def)

lemma fst_class_of [simp]: "fst (class_of x) = fst x"
  by (simp add: class_of_def)

lemma distinct_addresses:
  assumes "disjoint_in H (map live_block fl)" and "list_all live_ok fl"
  shows "distinct (map fst fl)"
  using assms
proof (induction fl)
  case (Cons x fl)
  have "unat (fst y) \<in> bytes (live_block y)" if "y \<in> set (x # fl)" for y
    using Cons.prems(2) that by (auto simp: live_ok_def valid_request_def bytes_def live_block_def list_all_iff word_less_nat_alt)
  moreover have "bytes (live_block x) \<inter> bytes (live_block y) = {}" if "y \<in> set fl" for y
    using Cons.prems(1) that by (auto simp: disjoint_in_Cons)
  ultimately have "fst x \<noteq> fst y" if "y \<in> set fl" for y using that by fastforce
  then have "fst x \<notin> fst ` set fl" by auto
  with Cons show ?case by (auto simp: disjoint_in_Cons)
qed simp

lemma image_mset_sum: "image_mset f (\<Sum>x \<in> A. g x) = (\<Sum>x \<in> A. image_mset f (g x))"
  by (induction A rule: infinite_finite_induct) simp_all

lemma distinct_count_le: "distinct xs \<longleftrightarrow> (\<forall>a. count (mset xs) a \<le> 1)"
proof
  assume *: "\<forall>a. count (mset xs) a \<le> 1"
  have "count (mset xs) a = (if a \<in> set xs then 1 else 0)" for a
  proof (cases "a \<in> set xs")
    case True
    then have "0 < count (mset xs) a" by (simp only: count_greater_zero_iff set_mset_mset)
    with * True show ?thesis by (metis le_antisym Suc_leI One_nat_def)
  next
    case False
    then show ?thesis by (simp add: count_mset_0_iff)
  qed
  then show "distinct xs" by (simp add: distinct_count_atmost_1)
qed (simp add: distinct_count_atmost_1)

text \<open>No address is held twice.\<close>

lemma addresses_once:
  assumes "distinct (map fst fl)" and "mset fl = image_mset class_of (mset live) + free_blocks free" and "i < 9"
  shows "count (mset (map fst live)) p + count (mset (free ! i)) p + (\<Sum>j \<in> {..< 9} - {i}. count (mset (free ! j)) p) \<le> 1"
proof -
  have "mset (map fst fl) = image_mset fst (mset fl)" by simp
  also have "\<dots> = mset (map fst live) + (\<Sum>j < 9. mset (free ! j))"
    unfolding assms(2) free_blocks_def image_mset_union
    by (simp add: multiset.map_comp comp_def image_mset_sum)
  also have "(\<Sum>j < 9. mset (free ! j)) = mset (free ! i) + (\<Sum>j \<in> {..< 9} - {i}. mset (free ! j))"
    using assms(3) by (intro sum.remove) auto
  finally have "count (mset (map fst fl)) p
      = count (mset (map fst live)) p + count (mset (free ! i)) p + (\<Sum>j \<in> {..< 9} - {i}. count (mset (free ! j)) p)"
    by (simp add: count_sum)
  then show ?thesis using assms(1) unfolding distinct_count_le by metis
qed

lemma addresses_apart:
  assumes "distinct (map fst fl)" and "mset fl = image_mset class_of (mset live) + free_blocks free" and "i < 9"
  shows "p \<in> set (free ! i) \<Longrightarrow> p \<notin> fst ` set live"
    and "p \<in> set (free ! i) \<Longrightarrow> j < 9 \<Longrightarrow> j \<noteq> i \<Longrightarrow> p \<notin> set (free ! j)"
    and "distinct (free ! i)"
proof -
  note c = addresses_once [OF assms]
  have one: "1 \<le> count (mset (free ! i)) p" if "p \<in> set (free ! i)"
    using that by (simp only: One_nat_def Suc_le_eq count_greater_zero_iff set_mset_mset)
  show "p \<notin> fst ` set live" if "p \<in> set (free ! i)"
  proof -
    have "count (mset (map fst live)) p = 0" using c [of p] one [OF that] by linarith
    then have "p \<notin># mset (map fst live)" by (simp only: not_in_iff)
    then show ?thesis by simp
  qed
  show "p \<notin> set (free ! j)" if "p \<in> set (free ! i)" "j < 9" "j \<noteq> i"
  proof -
    have "(\<Sum>j \<in> {..< 9} - {i}. count (mset (free ! j)) p) = 0" using c [of p] one [OF that(1)] by linarith
    then have "count (mset (free ! j)) p = 0" using that(2,3) by (simp add: sum_eq_0_iff)
    then have "p \<notin># mset (free ! j)" by (simp only: not_in_iff)
    then show ?thesis by simp
  qed
  have "count (mset (free ! i)) q \<le> 1" for q using c [of q] by linarith
  then show "distinct (free ! i)" unfolding distinct_count_le by blast
qed

lemma heads_rep_pop:
  assumes rep: "heads_rep s free" and i: "i < 9" and hd: "list_heads s ! i = Some p"
    and apart: "\<And>j. j < 9 \<Longrightarrow> j \<noteq> i \<Longrightarrow> p \<in> set (free ! i) \<Longrightarrow> p \<notin> set (free ! j)" and dist: "distinct (free ! i)"
  obtains ps where "free ! i = p # ps"
    and "heads_rep (s\<lparr>list_heads := (list_heads s)[i := block_nodes s p], block_nodes := (block_nodes s)(p := None)\<rparr>)
           (free[i := ps])"
proof -
  have c: "chain (block_nodes s) (list_heads s ! j) (free ! j)" if "j < 9" for j using rep that by (simp add: heads_rep_def)
  from c [OF i] hd obtain ps where ps: "free ! i = p # ps" "chain (block_nodes s) (block_nodes s p) ps"
    by (auto simp: chain_Some)
  let ?n = "(block_nodes s)(p := None)"
  have "chain ?n (block_nodes s p) ps"
    by (rule chain_cong [OF ps(2)]) (use dist ps(1) in auto)
  moreover have "chain ?n (list_heads s ! j) (free ! j)" if "j < 9" "j \<noteq> i" for j
    by (rule chain_cong [OF c [OF that(1)]]) (use apart [OF that] ps(1) in auto)
  ultimately show ?thesis using that [OF ps(1)] rep i by (auto simp: heads_rep_def nth_list_update)
qed

lemma heads_rep_push:
  assumes rep: "heads_rep s free" and i: "i < 9" and apart: "\<And>j. j < 9 \<Longrightarrow> p \<notin> set (free ! j)"
  shows "heads_rep (s\<lparr>block_nodes := (block_nodes s)(p := list_heads s ! i), list_heads := (list_heads s)[i := Some p]\<rparr>)
           (free[i := p # free ! i])"
proof -
  let ?n = "(block_nodes s)(p := list_heads s ! i)"
  have "chain ?n (list_heads s ! j) (free ! j)" if "j < 9" for j
    by (rule chain_cong [of "block_nodes s"]) (use rep apart [OF that] that in \<open>auto simp: heads_rep_def\<close>)
  with rep i show ?thesis by (auto simp: heads_rep_def nth_list_update)
qed

lemma class_of_Some: "list_index l = Some i \<Longrightarrow> class_of (p, l) = class_block i p"
  by (simp add: class_of_def class_layout_def class_block_def)

lemma class_of_None: "list_index l = None \<Longrightarrow> class_of (p, l) = (p, l)"
  by (simp add: class_of_def class_layout_def)

section \<open>The contract\<close>

text \<open>What the allocator relies on below it.\<close>

definition heap_alloc :: "(Layout \<Rightarrow> 'h \<Rightarrow> usize option \<times> 'h) \<Rightarrow> Layout \<Rightarrow> 'h \<Rightarrow> (usize \<times> 'h) res option" where
  "heap_alloc aff l h = (case aff l h of (r, h') \<Rightarrow> Some (Inr (case r of None \<Rightarrow> 0 | Some p \<Rightarrow> p, h')))"

definition heap_dealloc :: "(usize \<Rightarrow> Layout \<Rightarrow> 'h \<Rightarrow> 'h) \<Rightarrow> usize \<Rightarrow> Layout \<Rightarrow> 'h \<Rightarrow> 'h res" where
  "heap_dealloc dea p l h = Inr (dea p l h)"

definition no_write :: "unit \<Rightarrow> live \<Rightarrow> 'h \<Rightarrow> 'h" where
  "no_write w live h = h"

text \<open>Requests of its own, and layouts the heap below serves.\<close>

definition fixed_request :: "(Layout \<Rightarrow> bool) \<Rightarrow> Layout \<Rightarrow> bool" where
  "fixed_request request l \<longleftrightarrow> valid_request l \<and> (list_index l \<noteq> None \<or> request l)"

text \<open>The client writes into its blocks, and with them over pointers that overlap them.\<close>

definition fixed_write :: "(usize \<Rightarrow> usize option) \<Rightarrow> live \<Rightarrow> 'h FixedSizeBlockAllocator \<Rightarrow> 'h FixedSizeBlockAllocator" where
  "fixed_write w live s = s\<lparr>block_nodes := \<lambda>a.
     if list_ex (\<lambda>(p, l). unat a < unat p + unat (lay_size l) \<and> unat p < unat a + 8) live
     then w a else block_nodes s a\<rparr>"

locale fallback_heap = heap_allocator H request hinv "heap_alloc aff" "heap_dealloc dea" no_write
  for H and request and hinv :: "'h \<Rightarrow> live \<Rightarrow> bool" and aff and dea +
  assumes class_request: "i < 9 \<Longrightarrow> request \<lparr>lay_size = BLOCK_SIZES ! i, lay_align = BLOCK_SIZES ! i\<rparr>"
begin

lemma fallback_alloc_law:
  assumes "hinv (fallback_allocator s) fl" and "request l"
  obtains p h where "fallback_alloc aff l s = (p, s\<lparr>fallback_allocator := h\<rparr>)"
    and "hinv h (if p = 0 then fl else (p, l) # fl)"
proof -
  obtain r h where "aff l (fallback_allocator s) = (r, h)" by fastforce
  with alloc_law [OF assms] that show ?thesis
    by (cases r) (auto simp: heap_alloc_def fallback_alloc_def)
qed

lemma fallback_facts:
  assumes "hinv h fl"
  shows "disjoint_in H (map live_block fl)" and "list_all live_ok fl" and "distinct (map fst fl)"
  using inv_live [OF assms] distinct_addresses by blast+

lemma fixed_alloc_fallback:
  assumes "heads_rep s free" and "mset fl = image_mset class_of (mset live) + free_blocks free"
    and "hinv (fallback_allocator s) fl" and "list_all (\<lambda>x. valid_request (snd x)) live"
    and "valid_request l" and "request (class_layout l)"
  shows "\<exists>p s'. fallback_alloc aff (class_layout l) s = (p, s') \<and> fixed_inv hinv s' (if p = 0 then live else (p, l) # live)"
proof -
  obtain p h where f: "fallback_alloc aff (class_layout l) s = (p, s\<lparr>fallback_allocator := h\<rparr>)"
    "hinv h (if p = 0 then fl else (p, class_layout l) # fl)"
    by (rule fallback_alloc_law [OF assms(3,6)])
  have "heads_rep (s\<lparr>fallback_allocator := h\<rparr>) free" using assms(1) by (simp add: heads_rep_def)
  then have "fixed_inv hinv (s\<lparr>fallback_allocator := h\<rparr>) (if p = 0 then live else (p, l) # live)"
    unfolding fixed_inv_def
    by (intro exI [of _ free] exI [of _ "if p = 0 then fl else (p, class_layout l) # fl"])
      (use assms f(2) in \<open>auto simp: class_of_def\<close>)
  with f(1) show ?thesis by blast
qed

lemma fixed_alloc_law:
  assumes inv: "fixed_inv hinv s live" and l: "fixed_request request l"
  shows "\<exists>p s'. Some (fixed_alloc aff l s) = Some (Inr (p, s')) \<and> fixed_inv hinv s' (if p = 0 then live else (p, l) # live)"
proof -
  obtain free fl where rep: "heads_rep s free" and fl: "mset fl = image_mset class_of (mset live) + free_blocks free"
    and h: "hinv (fallback_allocator s) fl" and val: "list_all (\<lambda>x. valid_request (snd x)) live"
    using inv by (auto simp: fixed_inv_def)
  have v: "valid_request l" using l by (simp add: fixed_request_def)
  note fall = fixed_alloc_fallback [OF rep fl h val v]
  show ?thesis
  proof (cases "list_index l")
    case None
    then have "request (class_layout l)" "class_layout l = l" using l by (simp_all add: fixed_request_def class_layout_def)
    with fall None show ?thesis by (auto simp: fixed_alloc_def)
  next
    case (Some i)
    have i: "i < 9" using list_index_Some(1) [OF Some v] .
    have len: "length (list_heads s) = 9" "length free = 9" using rep by (simp_all add: heads_rep_def)
    show ?thesis
    proof (cases "list_heads s ! i")
      case None
      have "request (class_layout l)" using class_request [OF i] Some by (simp add: class_layout_def)
      with fall Some None i len show ?thesis by (auto simp: fixed_alloc_def class_valid(1) class_layout_def)
    next
      case p: (Some p)
      note apart = addresses_apart [OF fallback_facts(3) [OF h] fl i]
      obtain ps where ps: "free ! i = p # ps"
        "heads_rep (s\<lparr>list_heads := (list_heads s)[i := block_nodes s p], block_nodes := (block_nodes s)(p := None)\<rparr>) (free[i := ps])"
        using heads_rep_pop [OF rep i p] apart(2,3) by metis
      have "mset fl = image_mset class_of (mset ((p, l) # live)) + free_blocks (free[i := ps])"
        using free_blocks_update [OF i len(2), of ps] fl Some by (simp add: ps(1) class_of_Some add_ac)
      moreover have "p \<noteq> 0"
      proof -
        have "class_of (p, l) \<in># mset fl" using calculation by simp
        then have "class_of (p, l) \<in> set fl" by simp
        with fallback_facts(2) [OF h] show ?thesis by (auto simp: list_all_iff live_ok_def)
      qed
      ultimately show ?thesis using ps(2) h val v Some p i len
        by (auto simp: fixed_alloc_def fixed_inv_def intro!: exI [of _ "free[i := ps]"] exI [of _ fl])
    qed
  qed
qed

lemma fixed_dealloc_law:
  assumes inv: "fixed_inv hinv s (us @ (p, l) # vs)"
  shows "\<exists>s'. fixed_dealloc dea p l s = Inr s' \<and> fixed_inv hinv s' (us @ vs)"
proof -
  obtain free fl where rep: "heads_rep s free"
    and fl: "mset fl = image_mset class_of (mset (us @ (p, l) # vs)) + free_blocks free"
    and h: "hinv (fallback_allocator s) fl" and val: "list_all (\<lambda>x. valid_request (snd x)) (us @ (p, l) # vs)"
    using inv by (auto simp: fixed_inv_def)
  have v: "valid_request l" using val by simp
  have "class_of (p, l) \<in># mset fl" unfolding fl by simp
  then have mem: "class_of (p, l) \<in> set fl" by simp
  show ?thesis
  proof (cases "list_index l")
    case None
    then have c: "class_of (p, l) = (p, l)" by (rule class_of_None)
    then obtain fus fvs where fl': "fl = fus @ (p, l) # fvs" using mem by (metis in_set_conv_decomp)
    have "p \<noteq> 0" using fallback_facts(2) [OF h] by (simp add: fl' live_ok_def)
    obtain h' where "dea p l (fallback_allocator s) = h'" "hinv h' (fus @ fvs)"
      using dealloc_law [OF h [unfolded fl']] by (auto simp: heap_dealloc_def)
    moreover have "mset (fus @ fvs) = image_mset class_of (mset (us @ vs)) + free_blocks free"
      using fl by (simp add: fl' c)
    ultimately have "fixed_inv hinv (s\<lparr>fallback_allocator := h'\<rparr>) (us @ vs)"
      using rep val unfolding fixed_inv_def
      by (intro exI [of _ free] exI [of _ "fus @ fvs"]) (auto simp: heads_rep_def)
    with \<open>dea p l (fallback_allocator s) = h'\<close> \<open>p \<noteq> 0\<close> None show ?thesis by (simp add: fixed_dealloc_def)
  next
    case (Some i)
    have i: "i < 9" using list_index_Some(1) [OF Some v] .
    have len: "length (list_heads s) = 9" "length free = 9" using rep by (simp_all add: heads_rep_def)
    have apart: "p \<notin> set (free ! j)" if "j < 9" for j
      using addresses_apart(1) [OF fallback_facts(3) [OF h] fl that, of p] by auto
    let ?s = "s\<lparr>block_nodes := (block_nodes s)(p := list_heads s ! i), list_heads := (list_heads s)[i := Some p]\<rparr>"
    have "heads_rep ?s (free[i := p # free ! i])" using heads_rep_push [OF rep i apart] .
    moreover have "mset fl = image_mset class_of (mset (us @ vs)) + free_blocks (free[i := p # free ! i])"
      using free_blocks_update [OF i len(2), of "p # free ! i"] fl Some by (simp add: class_of_Some add_ac)
    ultimately have "fixed_inv hinv ?s (us @ vs)"
      using h val unfolding fixed_inv_def by (intro exI [of _ "free[i := p # free ! i]"] exI [of _ fl]) auto
    then show ?thesis using Some i len BLOCK_SIZES_ge [OF i] by (simp add: fixed_dealloc_def word_le_nat_alt)
  qed
qed

lemma fixed_inv_split:
  assumes "fixed_inv hinv s live"
  obtains free rest fl where "heads_rep s free" and "mset rest = free_blocks free"
    and "mset fl = image_mset class_of (mset live) + free_blocks free" and "hinv (fallback_allocator s) fl"
    and "disjoint_in H (map live_block (map class_of live @ rest))"
    and "list_all live_ok (map class_of live @ rest)" and "list_all (\<lambda>x. valid_request (snd x)) live"
proof -
  obtain free fl where f: "heads_rep s free" "mset fl = image_mset class_of (mset live) + free_blocks free"
    "hinv (fallback_allocator s) fl" "list_all (\<lambda>x. valid_request (snd x)) live"
    using assms by (auto simp: fixed_inv_def)
  obtain rest where rest: "mset rest = free_blocks free" using ex_mset by blast
  then have m: "mset fl = mset (map class_of live @ rest)" using f(2) by simp
  then have "mset (map live_block fl) = mset (map live_block (map class_of live @ rest))" by (metis mset_map)
  then have "disjoint_in H (map live_block (map class_of live @ rest))"
    using fallback_facts(1) [OF f(3)] disjoint_in_mset by blast
  moreover have "list_all live_ok (map class_of live @ rest)"
    using fallback_facts(2) [OF f(3)] mset_eq_setD [OF m] by (simp add: list_all_iff)
  ultimately show ?thesis using that f rest by blast
qed

lemma fixed_inv_live:
  assumes "fixed_inv hinv s live"
  shows "disjoint_in H (map live_block live) \<and> list_all live_ok live"
proof -
  obtain free rest where d: "disjoint_in H (map live_block (map class_of live @ rest))"
    "list_all live_ok (map class_of live @ rest)" and val: "list_all (\<lambda>x. valid_request (snd x)) live"
    by (rule fixed_inv_split [OF assms])
  have "disjoint_in H (map live_block live)"
    by (rule disjoint_in_shrink [of _ "live_block \<circ> class_of"])
      (use d(1) val class_layout_ok(1) in \<open>auto simp: disjoint_in_append live_block_def class_of_def list_all_iff\<close>)
  moreover have "list_all live_ok live"
    using d(2) val class_layout_ok(2) by (fastforce simp: list_all_iff class_of_def)
  ultimately show ?thesis by blast
qed

lemma fixed_write_law:
  assumes inv: "fixed_inv hinv s live"
  shows "fixed_inv hinv (fixed_write w live s) live"
proof -
  obtain free rest fl where rep: "heads_rep s free" and rest: "mset rest = free_blocks free"
    and fl: "mset fl = image_mset class_of (mset live) + free_blocks free" "hinv (fallback_allocator s) fl"
    and d: "disjoint_in H (map live_block (map class_of live @ rest))" and val: "list_all (\<lambda>x. valid_request (snd x)) live"
    by (rule fixed_inv_split [OF inv])
  have same: "block_nodes (fixed_write w live s) a = block_nodes s a" if i: "i < 9" and a: "a \<in> set (free ! i)" for i a
  proof -
    have "\<not> (unat a < unat p + unat (lay_size l) \<and> unat p < unat a + 8)" if x: "(p, l) \<in> set live" for p l
    proof -
      have "class_block i a \<in># free_blocks free" using i a by (auto simp: free_blocks_def set_mset_sum)
      then have "class_block i a \<in> set rest" by (metis rest set_mset_mset)
      then have "bytes (live_block (class_of (p, l))) \<inter> bytes (live_block (class_block i a)) = {}"
        using d x unfolding map_append disjoint_in_append by force
      moreover have "bytes (p, lay_size l) \<subseteq> bytes (live_block (class_of (p, l)))"
        using class_layout_ok(1) val x by (fastforce simp: live_block_def class_of_def list_all_iff)
      ultimately have "max (unat a) (unat p) \<notin> bytes (p, lay_size l) \<inter> bytes (a, BLOCK_SIZES ! i)"
        by (auto simp: live_block_def class_block_def)
      moreover have "0 < unat (lay_size l)" using val x by (auto simp: list_all_iff valid_request_def word_less_nat_alt)
      ultimately show ?thesis using BLOCK_SIZES_ge [OF i] by (auto simp: bytes_def max_def split: if_splits)
    qed
    then show ?thesis by (auto simp: fixed_write_def list_ex_iff)
  qed
  have "chain (block_nodes (fixed_write w live s)) (list_heads s ! i) (free ! i)" if "i < 9" for i
    by (rule chain_cong [of "block_nodes s"]) (use rep that same [OF that] in \<open>auto simp: heads_rep_def\<close>)
  then have "heads_rep (fixed_write w live s) free" using rep by (simp add: heads_rep_def fixed_write_def)
  then show ?thesis
    using fl val unfolding fixed_inv_def by (intro exI [of _ free] exI [of _ fl]) (simp add: fixed_write_def)
qed

end

text \<open>\<open>realloc\<close> moves an allocation: source and destination of the copy share no byte.\<close>

context fallback_heap
begin

lemma fixed_realloc_law:
  assumes inv: "fixed_inv hinv s (us @ (p, l) # vs)" and nl: "from_size_align n (lay_align l) = Some nl"
    and ok: "fixed_request request nl"
  shows "\<exists>q s' mem'. fixed_realloc aff dea p l n s mem = Inr (q, s', mem') \<and>
     (if q = 0 then fixed_inv hinv s' (us @ (p, l) # vs) \<and> mem' = mem
      else fixed_inv hinv s' ((q, nl) # us @ vs) \<and> mem' = copy_bytes p q (min (lay_size l) n) mem
        \<and> bytes (q, n) \<subseteq> H \<and> bytes (q, n) \<inter> bytes (p, lay_size l) = {})"
proof -
  obtain q s1 where a: "fixed_alloc aff nl s = Inr (q, s1)"
    "fixed_inv hinv s1 (if q = 0 then us @ (p, l) # vs else (q, nl) # us @ (p, l) # vs)"
    using fixed_alloc_law [OF inv ok] by auto
  show ?thesis
  proof (cases "q = 0")
    case True
    with a nl show ?thesis by (simp add: fixed_realloc_def)
  next
    case False
    then have inv1: "fixed_inv hinv s1 (((q, nl) # us) @ (p, l) # vs)" using a(2) by simp
    from fixed_dealloc_law [OF inv1] obtain s2 where d: "fixed_dealloc dea p l s1 = Inr s2"
      "fixed_inv hinv s2 ((q, nl) # us @ vs)" by auto
    have "lay_size nl = n" using nl by (simp add: from_size_align_Some)
    moreover from fixed_inv_live [OF inv1] have "bytes (q, lay_size nl) \<subseteq> H \<and> bytes (q, lay_size nl) \<inter> bytes (p, lay_size l) = {}"
      by (simp add: disjoint_in_Cons)
    ultimately show ?thesis using False a(1) d nl by (simp add: fixed_realloc_def Let_def)
  qed
qed

end

sublocale fallback_heap \<subseteq> fixed: heap_allocator H "fixed_request request" "fixed_inv hinv"
  "\<lambda>l s. Some (fixed_alloc aff l s)" "fixed_dealloc dea" fixed_write
  by unfold_locales (fact fixed_alloc_law, fact fixed_dealloc_law, fact fixed_write_law, fact fixed_inv_live)

context fallback_heap
begin

lemmas fixed_run_safe = fixed.run_safe

end

lemma bytes_word:
  fixes dst n a :: usize
  assumes small: "unat dst + unat n \<le> 2 ^ 64" and a: "unat a \<notin> bytes (dst, n)"
  shows "\<not> a - dst < n"
proof (cases "dst \<le> a")
  case True
  with a show ?thesis by (auto simp: bytes_def word_less_nat_alt word_le_nat_alt unat_sub)
next
  case False
  then have lt: "unat a < unat dst" by (simp add: word_le_nat_alt)
  then have "unat (dst - a) = unat dst - unat a" by (intro unat_sub) (simp add: word_le_nat_alt)
  moreover have "a - dst = - (dst - a)" by simp
  moreover have "dst - a \<noteq> 0" using lt by auto
  ultimately have "unat (a - dst) = 2 ^ 64 - (unat dst - unat a)" using unat_uminus [of "dst - a"] by simp
  with small lt show ?thesis by (simp add: word_less_nat_alt)
qed

lemma copy_bytes_spec:
  fixes src dst n a i :: usize
  shows "i < n \<Longrightarrow> copy_bytes src dst n mem (dst + i) = mem (src + i)"
    and "unat dst + unat n \<le> 2 ^ 64 \<Longrightarrow> unat a \<notin> bytes (dst, n) \<Longrightarrow> copy_bytes src dst n mem a = mem a"
  by (simp_all add: copy_bytes_def bytes_word)

section \<open>The repository's free-list allocator as the heap below\<close>

definition ll_aff :: "Layout \<Rightarrow> LinkedListAllocator \<Rightarrow> usize option \<times> LinkedListAllocator" where
  "ll_aff l s =
     (case ll_alloc l s of Some (Inr (p, s')) \<Rightarrow> (if p = 0 then None else Some p, s') | _ \<Rightarrow> (None, s))"

definition ll_dea :: "usize \<Rightarrow> Layout \<Rightarrow> LinkedListAllocator \<Rightarrow> LinkedListAllocator" where
  "ll_dea p l s = (case ll_dealloc p l s of Inr s' \<Rightarrow> s' | Inl e \<Rightarrow> s)"

lemma ll_class_request:
  assumes "i < 9"
  shows "ll_request \<lparr>lay_size = BLOCK_SIZES ! i, lay_align = BLOCK_SIZES ! i\<rparr>"
proof -
  have "\<forall>b \<in> set BLOCK_SIZES. ll_request \<lparr>lay_size = b, lay_align = b\<rparr>" by code_simp
  then show ?thesis using assms by simp
qed

interpretation kernel: fallback_heap "heap_range HEAP_START HEAP_SIZE" ll_request
  "ll_inv (heap_range HEAP_START HEAP_SIZE)" ll_aff ll_dea
proof unfold_locales
  fix s live l assume "ll_inv (heap_range HEAP_START HEAP_SIZE) s live" and "ll_request l"
  from ll.alloc_law [OF this]
  show "\<exists>p s'. heap_alloc ll_aff l s = Some (Inr (p, s'))
      \<and> ll_inv (heap_range HEAP_START HEAP_SIZE) s' (if p = 0 then live else (p, l) # live)"
    by (auto simp: heap_alloc_def ll_aff_def split: if_splits)
next
  fix s us p l vs assume "ll_inv (heap_range HEAP_START HEAP_SIZE) s (us @ (p, l) # vs)"
  from ll.dealloc_law [OF this]
  show "\<exists>s'. heap_dealloc ll_dea p l s = Inr s' \<and> ll_inv (heap_range HEAP_START HEAP_SIZE) s' (us @ vs)"
    by (auto simp: heap_dealloc_def ll_dea_def)
next
  show "i < 9 \<Longrightarrow> ll_request \<lparr>lay_size = BLOCK_SIZES ! i, lay_align = BLOCK_SIZES ! i\<rparr>" for i
    by (rule ll_class_request)
qed (simp_all add: no_write_def ll.inv_live)

section \<open>Properties\<close>

text \<open>C10. The kernel's allocator is sound on top of any heap that keeps its contract: whatever a client
  does, including writing anything into the blocks it holds, in which former list nodes lie, no call
  panics, and the outstanding allocations are aligned as requested, share no byte and lie in the
  heap.\<close>

theorem fixed_safe:
  assumes "fallback_heap H request hinv aff dea" and "hinv h []" and "list_all (call_ok (fixed_request request)) cs"
  shows "\<exists>s' live. heap_run (\<lambda>l s. Some (fixed_alloc aff l s)) (fixed_dealloc dea) fixed_write cs (fixed_new h nodes, [])
             = Some (Inr (s', live))
           \<and> disjoint_in H (map live_block live) \<and> list_all live_ok live"
proof -
  have "heads_rep (fixed_new h nodes) (replicate 9 [])" by (simp add: heads_rep_def fixed_new_def)
  moreover have "free_blocks (replicate 9 []) = {#}" by (simp add: free_blocks_def)
  ultimately have "fixed_inv hinv (fixed_new h nodes) []"
    using assms(2) unfolding fixed_inv_def by (intro exI [of _ "replicate 9 []"] exI [of _ "[]"]) (simp add: fixed_new_def)
  from fallback_heap.fixed_run_safe [OF assms(1) this assms(3)] show ?thesis .
qed

lemma demo_ll_inv: "ll_inv (heap_range HEAP_START HEAP_SIZE) demo_ll []"
  using ll_init_inv [OF kernel_heap_ok demo_heap_size, of "\<lambda>_. node_new 0"] demo_ll_init by simp

definition demo_fixed_calls :: "(usize \<Rightarrow> usize option) call list" where
  "demo_fixed_calls =
     [Alloc \<lparr>lay_size = 24, lay_align = 8\<rparr>, Alloc \<lparr>lay_size = 5000, lay_align = 16\<rparr>, Write (\<lambda>_. Some 1), Dealloc 1, Dealloc 0]"

lemma demo_fixed_calls_ok: "list_all (call_ok (fixed_request ll_request)) demo_fixed_calls"
  by (simp add: demo_fixed_calls_def) code_simp

theorem fixed_safe_witness:
  "fallback_heap (heap_range HEAP_START HEAP_SIZE) ll_request (ll_inv (heap_range HEAP_START HEAP_SIZE)) ll_aff ll_dea
   \<and> ll_inv (heap_range HEAP_START HEAP_SIZE) demo_ll [] \<and> list_all (call_ok (fixed_request ll_request)) demo_fixed_calls
   \<and> (\<exists>s' live. heap_run (\<lambda>l s. Some (fixed_alloc ll_aff l s)) (fixed_dealloc ll_dea) fixed_write demo_fixed_calls
             (fixed_new demo_ll (\<lambda>_. None), []) = Some (Inr (s', live))
        \<and> disjoint_in (heap_range HEAP_START HEAP_SIZE) (map live_block live) \<and> list_all live_ok live)"
  using fixed_safe [OF kernel.fallback_heap_axioms demo_ll_inv demo_fixed_calls_ok] kernel.fallback_heap_axioms demo_ll_inv
    demo_fixed_calls_ok by blast


text \<open>The state after one small allocation: its block comes from the heap below.\<close>

definition demo_fixed :: "LinkedListAllocator FixedSizeBlockAllocator" where
  "demo_fixed = fixed_new
     \<lparr>ll_head = \<lparr>node_size = 0, node_next = Some (HEAP_START + 32)\<rparr>,
      ll_nodes = (\<lambda>a. if a = HEAP_START + 32 then \<lparr>node_size = HEAP_SIZE - 32, node_next = None\<rparr> else node_new 0)\<rparr> (\<lambda>_. None)"

definition demo_fixed_live :: live where
  "demo_fixed_live = [(HEAP_START, \<lparr>lay_size = 24, lay_align = 8\<rparr>)]"

lemma demo_fixed_inv: "fixed_inv (ll_inv (heap_range HEAP_START HEAP_SIZE)) demo_fixed demo_fixed_live"
proof -
  let ?l = "\<lparr>lay_size = 32, lay_align = 32\<rparr>"
  have c: "class_layout \<lparr>lay_size = 24, lay_align = 8\<rparr> = ?l" by code_simp
  have req: "ll_request ?l" "valid_request ?l" "valid_request \<lparr>lay_size = 24, lay_align = 8\<rparr>" by code_simp+
  have bs: "block_size ?l = 32" by code_simp
  have "free_inv (heap_range HEAP_START HEAP_SIZE) [(HEAP_START + 32, HEAP_SIZE - 32)] [(HEAP_START, ?l)]"
    using req by (simp add: free_inv_def region_ok_def disjoint_in_Cons ll_block_def bytes_def heap_range_def live_ok_def bs
        HEAP_START_def HEAP_SIZE_def)
  moreover have "ll_rep (fallback_allocator demo_fixed) [(HEAP_START + 32, HEAP_SIZE - 32)]"
    by (simp add: ll_rep_def demo_fixed_def fixed_new_def)
  ultimately have "ll_inv (heap_range HEAP_START HEAP_SIZE) (fallback_allocator demo_fixed) [(HEAP_START, ?l)]"
    by (auto simp: ll_inv_def)
  then show ?thesis
    unfolding fixed_inv_def
    by (intro exI [of _ "replicate 9 []"] exI [of _ "[(HEAP_START, ?l)]"])
      (simp add: heads_rep_def demo_fixed_def fixed_new_def demo_fixed_live_def free_blocks_def class_of_def c req)
qed


end
