(* ===== verification/Paging.thy ===== *)
theory Paging
  imports Fixed_Block Vga_Mode13
begin

text \<open>
  Frames and mappings (\<open>src/memory.rs\<close>, \<open>init_heap\<close> of \<open>src/allocator.rs\<close>, \<open>map_framebuffer\<close> of
  \<open>src/vga_mode13.rs\<close>): the boot frame allocator and the code that maps the heap and the display. The
  page tables are those of the crate \<open>x86_64\<close>, an argument with the contract \<open>mapper_ok\<close>.
\<close>

section \<open>Frames\<close>

datatype MemoryRegionType = Usable | Reserved | OtherRegion

record MemoryRegion =
  start_addr :: u64
  end_addr :: u64
  region_type :: MemoryRegionType

record BootInfoFrameAllocator =
  memory_map :: "MemoryRegion list"
  next_frame :: usize

datatype MapToError = FrameAllocationFailed | ParentEntryHugePage | PageAlreadyMapped

text \<open>
  The crate: the frame and the page that contain an address, and \<open>map_to\<close>, which may call the frame
  allocator it is given for page tables.
\<close>

record ('m, 'fr, 'pg) x86_paging =
  phys_frame :: "u64 \<Rightarrow> 'fr"
  virt_page :: "u64 \<Rightarrow> 'pg"
  map_to :: "'pg \<Rightarrow> 'fr \<Rightarrow> 'm \<times> BootInfoFrameAllocator \<Rightarrow> (MapToError + unit) \<times> 'm \<times> BootInfoFrameAllocator"

definition fa_init :: "MemoryRegion list \<Rightarrow> BootInfoFrameAllocator" where
  "fa_init mm = \<lparr>memory_map = mm, next_frame = 0\<rparr>"

text \<open>\<open>(start..end).step_by(4096)\<close>.\<close>

definition step_by_4096 :: "u64 \<Rightarrow> u64 \<Rightarrow> u64 list" where
  "step_by_4096 a b = map (\<lambda>i. a + of_nat (i * 4096)) [0..<(unat b - unat a + 4095) div 4096]"

definition usable_addrs :: "MemoryRegion list \<Rightarrow> u64 list" where
  "usable_addrs mm = concat (map (\<lambda>r. step_by_4096 (start_addr r) (end_addr r)) (filter (\<lambda>r. region_type r = Usable) mm))"

definition usable_frames :: "('m, 'fr, 'pg) x86_paging \<Rightarrow> BootInfoFrameAllocator \<Rightarrow> 'fr list" where
  "usable_frames px fa = map (phys_frame px) (usable_addrs (memory_map fa))"

definition allocate_frame ::
  "('m, 'fr, 'pg) x86_paging \<Rightarrow> BootInfoFrameAllocator \<Rightarrow> ('fr option \<times> BootInfoFrameAllocator) res" where
  "allocate_frame px fa =
     (let fs = usable_frames px fa;
          frame = (if unat (next_frame fa) < length fs then Some (fs ! unat (next_frame fa)) else None)
      in rbind (add_ovf (next_frame fa) 1) (\<lambda>n. Inr (frame, fa\<lparr>next_frame := n\<rparr>)))"

section \<open>Mappings\<close>

fun map_pages ::
  "('m, 'fr, 'pg) x86_paging \<Rightarrow> 'pg list \<Rightarrow> 'm \<times> BootInfoFrameAllocator \<Rightarrow> ((MapToError + unit) \<times> 'm \<times> BootInfoFrameAllocator) res" where
  "map_pages px [] st = Inr (Inr (), st)"
| "map_pages px (page # pages) (m, fa) =
     rbind (allocate_frame px fa) (\<lambda>(f, fa).
       case f of
         None \<Rightarrow> Inr (Inl FrameAllocationFailed, m, fa)
       | Some frame \<Rightarrow>
           (case map_to px page frame (m, fa) of
              (Inl e, st) \<Rightarrow> Inr (Inl e, st)
            | (Inr _, st) \<Rightarrow> map_pages px pages st))"

text \<open>The pages from the one that contains \<open>heap_start\<close> to the one that contains \<open>heap_end\<close>.\<close>

definition heap_pages :: "('m, 'fr, 'pg) x86_paging \<Rightarrow> 'pg list" where
  "heap_pages px =
     (let heap_start = HEAP_START; heap_end = heap_start + HEAP_SIZE - 1 in
      map (\<lambda>i. virt_page px (heap_start + of_nat (i * 4096))) [0..<Suc (unat heap_end div 4096 - unat heap_start div 4096)])"

definition init_heap ::
  "('m, 'fr, 'pg) x86_paging \<Rightarrow> (usize \<Rightarrow> usize \<Rightarrow> 'h \<Rightarrow> 'h) \<Rightarrow> 'm \<times> BootInfoFrameAllocator \<Rightarrow> 'h FixedSizeBlockAllocator
   \<Rightarrow> ((MapToError + unit) \<times> ('m \<times> BootInfoFrameAllocator) \<times> 'h FixedSizeBlockAllocator) res" where
  "init_heap px ini st h =
     rbind (map_pages px (heap_pages px) st) (\<lambda>(r, st).
       case r of
         Inl e \<Rightarrow> Inr (Inl e, st, h)
       | Inr _ \<Rightarrow> Inr (Inr (), st, fixed_init ini HEAP_START HEAP_SIZE h))"

definition map_identity ::
  "string \<Rightarrow> ('m, 'fr, 'pg) x86_paging \<Rightarrow> u64 \<Rightarrow> 'm \<times> BootInfoFrameAllocator \<Rightarrow> ('m \<times> BootInfoFrameAllocator) res" where
  "map_identity msg px a st =
     (case map_to px (virt_page px a) (phys_frame px a) st of
        (Inr _, st) \<Rightarrow> Inr st
      | (Inl PageAlreadyMapped, st) \<Rightarrow> Inr st
      | (Inl _, st) \<Rightarrow> Inl (Explicit msg))"

definition map_vga_buffer :: "('m, 'fr, 'pg) x86_paging \<Rightarrow> 'm \<times> BootInfoFrameAllocator \<Rightarrow> ('m \<times> BootInfoFrameAllocator) res" where
  "map_vga_buffer px st = map_identity ''VGA map_to failed'' px 0xb8000 st"

fun map_framebuffer_from :: "('m, 'fr, 'pg) x86_paging \<Rightarrow> u64 list \<Rightarrow> 'm \<times> BootInfoFrameAllocator \<Rightarrow> ('m \<times> BootInfoFrameAllocator) res" where
  "map_framebuffer_from px [] st = Inr st"
| "map_framebuffer_from px (a # as) st = rbind (map_identity ''mode13 map failed'' px a st) (map_framebuffer_from px as)"

definition map_framebuffer :: "('m, 'fr, 'pg) x86_paging \<Rightarrow> 'm \<times> BootInfoFrameAllocator \<Rightarrow> ('m \<times> BootInfoFrameAllocator) res" where
  "map_framebuffer px st = map_framebuffer_from px (map (\<lambda>i. FB_ADDR + of_nat i * 4096) [0..<16]) st"

section \<open>What the code relies on\<close>

definition aligned :: "u64 \<Rightarrow> bool" where
  "aligned a \<longleftrightarrow> 4096 dvd unat a"

text \<open>
  A map entry of a page is set by a successful \<open>map_to\<close> and by nothing else; it fails on a page that is
  mapped; frames are taken through the allocator's own operation, which only moves on.
\<close>

definition mapper_ok :: "('m, 'fr, 'pg) x86_paging \<Rightarrow> ('m \<Rightarrow> 'pg \<Rightarrow> 'fr option) \<Rightarrow> bool" where
  "mapper_ok px entry \<longleftrightarrow>
     (\<forall>a b. aligned a \<longrightarrow> aligned b \<longrightarrow> phys_frame px a = phys_frame px b \<longrightarrow> a = b)
     \<and> (\<forall>a b. aligned a \<longrightarrow> aligned b \<longrightarrow> virt_page px a = virt_page px b \<longrightarrow> a = b)
     \<and> (\<forall>pg fr m fa. case map_to px pg fr (m, fa) of (r, m', fa') \<Rightarrow>
          memory_map fa' = memory_map fa \<and> next_frame fa \<le> next_frame fa'
          \<and> (case r of
               Inr _ \<Rightarrow> entry m pg = None \<and> entry m' = (entry m)(pg \<mapsto> fr)
             | Inl e \<Rightarrow> entry m' = entry m \<and> (e = PageAlreadyMapped \<longrightarrow> entry m pg \<noteq> None)))"

text \<open>
  Given frames for the page tables that are still missing above some pages, of which \<open>missing\<close> tells the number
  (or that a huge page is in the way), \<open>map_to\<close> refuses such a page only when it is mapped already, and a
  frame it takes becomes one of those tables.
\<close>

definition tables_ok :: "('m, 'fr, 'pg) x86_paging \<Rightarrow> ('m \<Rightarrow> nat option) \<Rightarrow> 'pg set \<Rightarrow> bool" where
  "tables_ok px missing pages \<longleftrightarrow>
     (\<forall>pg \<in> pages. \<forall>fr m fa k. missing m = Some k \<longrightarrow> unat (next_frame fa) + k \<le> length (usable_frames px fa) \<longrightarrow>
        (case map_to px pg fr (m, fa) of (r, m', fa') \<Rightarrow>
           (r = Inr () \<or> r = Inl PageAlreadyMapped)
           \<and> (\<exists>k'. missing m' = Some k' \<and> unat (next_frame fa') + k' \<le> unat (next_frame fa) + k)))"

text \<open>The bootloader sorts its memory map, and its regions are whole frames.\<close>

definition map_ok :: "MemoryRegion list \<Rightarrow> bool" where
  "map_ok mm \<longleftrightarrow>
     (\<forall>r \<in> set mm. aligned (start_addr r) \<and> aligned (end_addr r) \<and> start_addr r \<le> end_addr r)
     \<and> sorted_wrt (\<lambda>r r'. end_addr r \<le> start_addr r') mm"

section \<open>Frames are handed out once\<close>

lemma step_by_unat:
  assumes "aligned a" "aligned b" "a \<le> b" and i: "i < (unat b - unat a + 4095) div 4096"
  shows "unat (a + of_nat (i * 4096)) = unat a + i * 4096" and "unat a + i * 4096 < unat b"
proof -
  have le: "unat a \<le> unat b" using assms(3) by (simp add: word_le_nat_alt)
  have "4096 dvd unat b - unat a" using assms(1,2) by (simp add: aligned_def)
  then obtain k where k: "unat b - unat a = 4096 * k" by (rule dvdE)
  have "(4096 * k + 4095) div 4096 = k" by simp
  then have "i < k" using i k by simp
  then show lt: "unat a + i * 4096 < unat b" using k le by linarith
  then have ub: "unat a + i * 4096 < 2 ^ 64" using unat_bound [of b] by simp
  have v: "unat (of_nat (i * 4096) :: u64) = i * 4096"
    unfolding unat_of_nat by (rule mod_less) (use ub in simp)
  show "unat (a + of_nat (i * 4096)) = unat a + i * 4096"
    using unat_add_no_ovf [of a "of_nat (i * 4096)"] ub unfolding v by simp
qed

lemma step_by_elems:
  assumes "aligned a" "aligned b" "a \<le> b"
  shows "distinct (step_by_4096 a b)" and "x \<in> set (step_by_4096 a b) \<Longrightarrow> aligned x \<and> a \<le> x \<and> x < b"
proof -
  note u = step_by_unat [OF assms]
  have "inj_on (\<lambda>i. a + of_nat (i * 4096)) (set [0..<(unat b - unat a + 4095) div 4096])"
    by (rule inj_onI) (metis add_left_cancel atLeastLessThan_iff mult_right_cancel set_upt u(1) zero_neq_numeral)
  then show "distinct (step_by_4096 a b)" by (simp add: step_by_4096_def distinct_map)
  show "aligned x \<and> a \<le> x \<and> x < b" if "x \<in> set (step_by_4096 a b)"
  proof -
    from that obtain i where x: "x = a + of_nat (i * 4096)" and "i \<in> {0..<(unat b - unat a + 4095) div 4096}"
      unfolding step_by_4096_def set_map set_upt by (rule imageE)
    then have i: "i < (unat b - unat a + 4095) div 4096" by (simp only: atLeastLessThan_iff)
    show ?thesis
      using u [OF i] assms(1) unfolding x by (simp add: aligned_def word_le_nat_alt word_less_nat_alt)
  qed
qed

lemma usable_addrs_ok:
  "map_ok mm \<Longrightarrow> distinct (usable_addrs mm) \<and> (\<forall>x \<in> set (usable_addrs mm). aligned x \<and>
     (\<exists>r \<in> set mm. region_type r = Usable \<and> start_addr r \<le> x \<and> x < end_addr r))"
proof (induction mm)
  case (Cons r mm)
  have r: "aligned (start_addr r)" "aligned (end_addr r)" "start_addr r \<le> end_addr r"
    and above: "\<forall>r' \<in> set mm. end_addr r \<le> start_addr r'" and mm: "map_ok mm"
    using Cons.prems by (simp_all add: map_ok_def)
  note IH = Cons.IH [OF mm]
  show ?case
  proof (cases "region_type r = Usable")
    case True
    then have e: "usable_addrs (r # mm) = step_by_4096 (start_addr r) (end_addr r) @ usable_addrs mm"
      by (simp add: usable_addrs_def)
    have "x < end_addr r" if "x \<in> set (step_by_4096 (start_addr r) (end_addr r))" for x
      using step_by_elems(2) [OF r that] by simp
    moreover have "end_addr r \<le> x" if "x \<in> set (usable_addrs mm)" for x
      using IH above that by (meson order.trans)
    ultimately have "set (step_by_4096 (start_addr r) (end_addr r)) \<inter> set (usable_addrs mm) = {}"
      by (meson disjoint_iff leD)
    then show ?thesis
      unfolding e using IH step_by_elems [OF r] True by auto
  next
    case False
    then show ?thesis using IH by (auto simp: usable_addrs_def)
  qed
qed (simp add: usable_addrs_def)

lemma usable_frames_distinct:
  assumes "mapper_ok px entry" and "map_ok (memory_map fa)"
  shows "distinct (usable_frames px fa)"
proof -
  note u = usable_addrs_ok [OF assms(2)]
  have "inj_on (phys_frame px) (set (usable_addrs (memory_map fa)))"
    using assms(1) u unfolding mapper_ok_def by (meson inj_onI)
  then show ?thesis using u by (simp add: usable_frames_def distinct_map)
qed

lemma allocate_frame_Some:
  assumes "allocate_frame px fa = Inr (Some f, fa')"
  shows "unat (next_frame fa) < length (usable_frames px fa)" and "f = usable_frames px fa ! unat (next_frame fa)"
    and "memory_map fa' = memory_map fa" and "unat (next_frame fa') = unat (next_frame fa) + 1"
  using assms by (auto simp: allocate_frame_def Let_def rbind_eq_Inr dest: add_ovf_unat split: if_splits)

lemma map_to_ok:
  assumes "mapper_ok px entry" and "map_to px pg fr (m, fa) = (r, m', fa')"
  shows "memory_map fa' = memory_map fa" and "next_frame fa \<le> next_frame fa'"
    and "r = Inr u \<Longrightarrow> entry m' = (entry m)(pg \<mapsto> fr)" and "r = Inl e \<Longrightarrow> entry m' = entry m"
    and "r = Inl PageAlreadyMapped \<Longrightarrow> entry m pg \<noteq> None" and "r = Inr u \<Longrightarrow> entry m pg = None"
proof -
  have "case map_to px pg fr (m, fa) of (r, m', fa') \<Rightarrow>
          memory_map fa' = memory_map fa \<and> next_frame fa \<le> next_frame fa'
          \<and> (case r of
               Inr _ \<Rightarrow> entry m pg = None \<and> entry m' = (entry m)(pg \<mapsto> fr)
             | Inl e \<Rightarrow> entry m' = entry m \<and> (e = PageAlreadyMapped \<longrightarrow> entry m pg \<noteq> None))"
    by (rule assms(1) [unfolded mapper_ok_def, THEN conjunct2, THEN conjunct2, THEN spec, THEN spec, THEN spec, THEN spec])
  then show "memory_map fa' = memory_map fa" "next_frame fa \<le> next_frame fa'"
    "r = Inr u \<Longrightarrow> entry m' = (entry m)(pg \<mapsto> fr)" "r = Inl e \<Longrightarrow> entry m' = entry m"
    "r = Inl PageAlreadyMapped \<Longrightarrow> entry m pg \<noteq> None" "r = Inr u \<Longrightarrow> entry m pg = None"
    unfolding assms(2) by (auto split: sum.splits)
qed

lemma map_to_total:
  assumes "mapper_ok px entry" and t: "tables_ok px missing pages" "pg \<in> pages"
    and k: "missing m = Some k" "unat (next_frame fa) + k \<le> length (usable_frames px fa)"
  obtains r m' fa' k' where "map_to px pg fr (m, fa) = (r, m', fa')" and "r = Inr () \<or> r = Inl PageAlreadyMapped"
    and "missing m' = Some k'" and "unat (next_frame fa') + k' \<le> unat (next_frame fa) + k"
    and "usable_frames px fa' = usable_frames px fa"
proof -
  obtain r m' fa' where e: "map_to px pg fr (m, fa) = (r, m', fa')" by (cases "map_to px pg fr (m, fa)") auto
  have "case map_to px pg fr (m, fa) of (r, m', fa') \<Rightarrow> (r = Inr () \<or> r = Inl PageAlreadyMapped)
      \<and> (\<exists>k'. missing m' = Some k' \<and> unat (next_frame fa') + k' \<le> unat (next_frame fa) + k)"
    by (rule t(1) [unfolded tables_ok_def, THEN bspec, OF t(2), THEN spec, THEN spec, THEN spec, THEN spec, THEN mp, OF k(1), THEN mp, OF k(2)])
  then show thesis
    using that [OF e] map_to_ok(1) [OF assms(1) e] unfolding e by (auto simp: usable_frames_def)
qed

lemma usable_frames_bound:
  assumes "map_ok (memory_map fa)"
  shows "length (usable_frames px fa) < 2 ^ 64"
proof -
  let ?as = "usable_addrs (memory_map fa)"
  have d: "distinct ?as" and "1 \<notin> set ?as" using usable_addrs_ok [OF assms] by (auto simp: aligned_def)
  then have "set ?as \<subset> UNIV" by blast
  then have "card (set ?as) < card (UNIV :: u64 set)" by (rule psubset_card_mono [OF finite])
  then show ?thesis using distinct_card [OF d] by (simp add: usable_frames_def card_word)
qed

section \<open>The heap\<close>

lemma map_pages_ConsE:
  assumes "map_pages px (page # pages) (m, fa) = Inr (Inr u, m', fa')"
  obtains f fa1 m2 fa2 v where "allocate_frame px fa = Inr (Some f, fa1)"
    and "map_to px page f (m, fa1) = (Inr v, m2, fa2)" and "map_pages px pages (m2, fa2) = Inr (Inr u, m', fa')"
proof -
  obtain fo fa1 where a: "allocate_frame px fa = Inr (fo, fa1)"
    using assms by (auto simp: rbind_eq_Inr)
  then obtain f where f: "fo = Some f" using assms by (cases fo) auto
  obtain r m2 fa2 where t: "map_to px page f (m, fa1) = (r, m2, fa2)" by (cases "map_to px page f (m, fa1)") auto
  then obtain v where "r = Inr v" using assms a f by (cases r) auto
  with a f t that show ?thesis using assms by simp
qed

lemma map_pages_maps:
  assumes px: "mapper_ok px entry"
  shows "distinct pages \<Longrightarrow> map_pages px pages (m, fa) = Inr (Inr u, m', fa') \<Longrightarrow>
    \<exists>idx. length idx = length pages \<and> sorted_wrt (<) idx
      \<and> (\<forall>j \<in> set idx. unat (next_frame fa) \<le> j \<and> j < length (usable_frames px fa))
      \<and> (\<forall>i < length pages. entry m' (pages ! i) = Some (usable_frames px fa ! (idx ! i)))
      \<and> (\<forall>pg. pg \<notin> set pages \<longrightarrow> entry m' pg = entry m pg)"
proof (induction pages arbitrary: m fa)
  case (Cons page pages)
  obtain f fa1 m2 fa2 v where a: "allocate_frame px fa = Inr (Some f, fa1)"
    and t: "map_to px page f (m, fa1) = (Inr v, m2, fa2)" and r: "map_pages px pages (m2, fa2) = Inr (Inr u, m', fa')"
    using Cons.prems(2) by (rule map_pages_ConsE) (rule that)
  note al = allocate_frame_Some [OF a] and mt = map_to_ok [OF px t]
  have uf: "usable_frames px fa2 = usable_frames px fa" by (simp add: usable_frames_def mt(1) al(3))
  have nx: "unat (next_frame fa) < unat (next_frame fa2)" using mt(2) al(4) by (simp add: word_le_nat_alt)
  obtain idx where idx: "length idx = length pages" "sorted_wrt (<) idx"
    "\<forall>j \<in> set idx. unat (next_frame fa2) \<le> j \<and> j < length (usable_frames px fa)"
    "\<forall>i < length pages. entry m' (pages ! i) = Some (usable_frames px fa ! (idx ! i))"
    "\<forall>pg. pg \<notin> set pages \<longrightarrow> entry m' pg = entry m2 pg"
    using Cons.IH [OF _ r] Cons.prems(1) unfolding uf by auto
  have page: "entry m' page = Some f" using idx(5) mt(3) Cons.prems(1) by simp
  show ?case
  proof (intro exI [of _ "unat (next_frame fa) # idx"] conjI)
    show "sorted_wrt (<) (unat (next_frame fa) # idx)" using idx(2,3) nx by fastforce
    show "\<forall>j \<in> set (unat (next_frame fa) # idx). unat (next_frame fa) \<le> j \<and> j < length (usable_frames px fa)"
      using idx(3) nx al(1) by fastforce
    show "\<forall>i < length (page # pages). entry m' ((page # pages) ! i) = Some (usable_frames px fa ! ((unat (next_frame fa) # idx) ! i))"
      using idx(4) page al(2) by (auto simp: nth_Cons split: nat.split)
    show "\<forall>pg. pg \<notin> set (page # pages) \<longrightarrow> entry m' pg = entry m pg" using idx(5) mt(3) by simp
  qed (use idx(1) in simp)
qed simp

lemma allocate_frame_total:
  assumes "unat (next_frame fa) < length (usable_frames px fa)" and "length (usable_frames px fa) < 2 ^ 64"
  obtains f fa' where "allocate_frame px fa = Inr (Some f, fa')" and "usable_frames px fa' = usable_frames px fa"
    and "unat (next_frame fa') = unat (next_frame fa) + 1"
proof -
  have "add_ovf (next_frame fa) 1 = Inr (next_frame fa + 1)" "unat (next_frame fa + 1) = unat (next_frame fa) + 1"
    using assms by (simp_all add: add_ovf_def unat_add_no_ovf)
  with assms(1) show thesis
    by (intro that [of "usable_frames px fa ! unat (next_frame fa)" "fa\<lparr>next_frame := next_frame fa + 1\<rparr>"]) (simp_all add: allocate_frame_def Let_def usable_frames_def)
qed

lemma map_pages_succeeds:
  assumes px: "mapper_ok px entry" "tables_ok px missing S"
  shows "distinct pages \<Longrightarrow> set pages \<subseteq> S \<Longrightarrow> \<forall>pg \<in> set pages. entry m pg = None \<Longrightarrow> missing m = Some k \<Longrightarrow>
    unat (next_frame fa) + k + length pages \<le> length (usable_frames px fa) \<Longrightarrow> length (usable_frames px fa) < 2 ^ 64 \<Longrightarrow>
    \<exists>m' fa' k'. map_pages px pages (m, fa) = Inr (Inr (), m', fa') \<and> missing m' = Some k'
      \<and> unat (next_frame fa') + k' \<le> unat (next_frame fa) + k + length pages \<and> usable_frames px fa' = usable_frames px fa"
proof (induction pages arbitrary: m fa k)
  case (Cons pg pages)
  obtain f fa1 where a: "allocate_frame px fa = Inr (Some f, fa1)" "usable_frames px fa1 = usable_frames px fa"
    "unat (next_frame fa1) = unat (next_frame fa) + 1"
    by (rule allocate_frame_total [of fa px]) (use Cons.prems in simp_all)
  have "pg \<in> S" "unat (next_frame fa1) + k \<le> length (usable_frames px fa1)" using Cons.prems a(2,3) by simp_all
  then obtain r m2 fa2 k2 where t: "map_to px pg f (m, fa1) = (r, m2, fa2)" "r = Inr () \<or> r = Inl PageAlreadyMapped"
    "missing m2 = Some k2" "unat (next_frame fa2) + k2 \<le> unat (next_frame fa1) + k" "usable_frames px fa2 = usable_frames px fa1"
    by (rule map_to_total [OF px _ Cons.prems(4)])
  have r: "r = Inr ()" using t(2) map_to_ok(5) [OF px(1) t(1)] Cons.prems(3) by auto
  have e: "entry m2 = (entry m)(pg \<mapsto> f)" using map_to_ok(3) [OF px(1) t(1) r] .
  have "\<exists>m' fa' k'. map_pages px pages (m2, fa2) = Inr (Inr (), m', fa') \<and> missing m' = Some k'
      \<and> unat (next_frame fa') + k' \<le> unat (next_frame fa2) + k2 + length pages \<and> usable_frames px fa' = usable_frames px fa2"
    by (rule Cons.IH [OF _ _ _ t(3)]) (use Cons.prems e t(4,5) a(2,3) in auto)
  then show ?case using a t(1,4,5) r by (auto simp del: fun_upd_apply)
qed auto

lemma heap_page_count: "Suc (unat (HEAP_START + HEAP_SIZE - 1) div 4096 - unat HEAP_START div 4096) = 14336"
  by (simp add: HEAP_START_def HEAP_SIZE_def)

lemma length_heap_pages: "length (heap_pages px) = 14336"
  unfolding heap_pages_def Let_def length_map length_upt heap_page_count by simp

lemma heap_pages_nth: "i < 14336 \<Longrightarrow> heap_pages px ! i = virt_page px (HEAP_START + of_nat (i * 4096))"
  unfolding heap_pages_def Let_def heap_page_count by simp

lemma heap_page_addr:
  assumes "i < 14336"
  shows "unat (HEAP_START + of_nat (i * 4096)) = unat HEAP_START + i * 4096"
proof -
  have v: "unat (of_nat (i * 4096) :: u64) = i * 4096"
    unfolding unat_of_nat by (rule mod_less) (use assms in simp)
  have "unat HEAP_START + i * 4096 < 2 ^ 64" using assms by (simp add: HEAP_START_def)
  then show ?thesis using unat_add_no_ovf [of HEAP_START "of_nat (i * 4096)"] unfolding v by simp
qed

lemma heap_pages_distinct:
  assumes "mapper_ok px entry"
  shows "distinct (heap_pages px)"
proof (rule distinct_conv_nth [THEN iffD2], intro allI impI)
  fix i j
  assume ij: "i < length (heap_pages px)" "j < length (heap_pages px)" "i \<noteq> j"
  then have lt: "i < 14336" "j < 14336" by (simp_all add: length_heap_pages)
  have al: "aligned (HEAP_START + of_nat (i * 4096))" if "i < 14336" for i
    using heap_page_addr [OF that] unfolding aligned_def by (simp add: HEAP_START_def)
  show "heap_pages px ! i \<noteq> heap_pages px ! j"
  proof
    assume "heap_pages px ! i = heap_pages px ! j"
    then have "HEAP_START + of_nat (i * 4096) = HEAP_START + of_nat (j * 4096)"
      using assms al [OF lt(1)] al [OF lt(2)] unfolding mapper_ok_def heap_pages_nth [OF lt(1)] heap_pages_nth [OF lt(2)] by blast
    then have "unat HEAP_START + i * 4096 = unat HEAP_START + j * 4096"
      using heap_page_addr [OF lt(1)] heap_page_addr [OF lt(2)] by metis
    with ij(3) show False by simp
  qed
qed

text \<open>Every page of the heap has a frame of its own, and the allocator manages exactly these pages.\<close>

lemma init_heap_maps:
  assumes px: "mapper_ok px entry" and mm: "map_ok (memory_map fa)"
    and run: "init_heap px ini (m, fa) h = Inr (Inr u, (m', fa'), h')"
  shows "h' = fixed_init ini HEAP_START HEAP_SIZE h
    \<and> (\<exists>frames. length frames = 14336 \<and> distinct frames \<and> set frames \<subseteq> set (usable_frames px fa)
        \<and> (\<forall>i < 14336. entry m' (virt_page px (HEAP_START + of_nat (i * 4096))) = Some (frames ! i))
        \<and> (\<forall>pg. pg \<notin> set (heap_pages px) \<longrightarrow> entry m' pg = entry m pg))"
proof -
  obtain r st where mp: "map_pages px (heap_pages px) (m, fa) = Inr (r, st)"
    using run by (auto simp: init_heap_def rbind_eq_Inr)
  with run have run': "map_pages px (heap_pages px) (m, fa) = Inr (Inr (), m', fa')" and h': "h' = fixed_init ini HEAP_START HEAP_SIZE h"
    by (cases r; simp add: init_heap_def)+
  let ?fs = "usable_frames px fa"
  obtain idx where idx: "length idx = 14336" "sorted_wrt (<) idx" "\<forall>j \<in> set idx. j < length ?fs"
    "\<forall>i < 14336. entry m' (heap_pages px ! i) = Some (?fs ! (idx ! i))"
    "\<forall>pg. pg \<notin> set (heap_pages px) \<longrightarrow> entry m' pg = entry m pg"
    using map_pages_maps [OF px heap_pages_distinct [OF px] run'] unfolding length_heap_pages by auto
  have "distinct idx" using idx(2) by (simp add: strict_sorted_iff)
  then have "distinct (map ((!) ?fs) idx)"
    using usable_frames_distinct [OF px mm] idx(3) by (auto simp: distinct_map inj_on_def nth_eq_iff_index_eq)
  moreover have "\<forall>i < 14336. entry m' (virt_page px (HEAP_START + of_nat (i * 4096))) = Some (map ((!) ?fs) idx ! i)"
    using idx(1,4) heap_pages_nth [of _ px] by simp
  moreover have "set (map ((!) ?fs) idx) \<subseteq> set ?fs" using idx(3) by auto
  ultimately show ?thesis using h' idx(1,5) by (intro conjI exI [of _ "map ((!) ?fs) idx"]) simp_all
qed

lemma init_heap_succeeds:
  assumes px: "mapper_ok px entry" "tables_ok px missing S" "set (heap_pages px) \<subseteq> S" and mm: "map_ok (memory_map fa)"
    and free: "\<forall>pg \<in> set (heap_pages px). entry m pg = None" and k: "missing m = Some k"
    and room: "unat (next_frame fa) + k + 14336 \<le> length (usable_frames px fa)"
  obtains m' fa' k' where "init_heap px ini (m, fa) h = Inr (Inr (), (m', fa'), fixed_init ini HEAP_START HEAP_SIZE h)"
    and "missing m' = Some k'" and "unat (next_frame fa') + k' \<le> length (usable_frames px fa')"
proof -
  have "unat (next_frame fa) + k + length (heap_pages px) \<le> length (usable_frames px fa)" using room by (simp only: length_heap_pages)
  from map_pages_succeeds [OF px(1,2) heap_pages_distinct [OF px(1)] px(3) free k this usable_frames_bound [OF mm]]
  obtain m' fa' k' where "map_pages px (heap_pages px) (m, fa) = Inr (Inr (), m', fa')" "missing m' = Some k'"
    "unat (next_frame fa') + k' \<le> unat (next_frame fa) + k + length (heap_pages px)" "usable_frames px fa' = usable_frames px fa"
    by blast
  with room length_heap_pages [of px] show thesis by (intro that [of m' fa' k']) (simp_all add: init_heap_def)
qed

text \<open>
  The heap is backed by memory of its own. On a machine with frames for the heap and for the page tables
  still missing above it, \<open>init_heap\<close> succeeds. It maps each of the 14336 pages of the heap region to a usable
  frame, no two of them to the same frame, whatever frames the mapper takes for its tables in between;
  every other page keeps its mapping, and the allocator is initialised with exactly the region that was
  mapped.
\<close>

theorem heap_mapped:
  assumes "mapper_ok px entry" and "tables_ok px missing (set (heap_pages px))" and "map_ok (memory_map fa)"
    and "\<forall>pg \<in> set (heap_pages px). entry m pg = None" and "missing m = Some k"
    and "unat (next_frame fa) + k + 14336 \<le> length (usable_frames px fa)"
  shows "\<exists>m' fa' frames. init_heap px ini (m, fa) h = Inr (Inr (), (m', fa'), fixed_init ini HEAP_START HEAP_SIZE h)
    \<and> length frames = 14336 \<and> distinct frames \<and> set frames \<subseteq> set (usable_frames px fa)
    \<and> (\<forall>i < 14336. entry m' (virt_page px (HEAP_START + of_nat (i * 4096))) = Some (frames ! i))
    \<and> (\<forall>pg. pg \<notin> set (heap_pages px) \<longrightarrow> entry m' pg = entry m pg)"
proof -
  obtain m' fa' k' where "init_heap px ini (m, fa) h = Inr (Inr (), (m', fa'), fixed_init ini HEAP_START HEAP_SIZE h)"
    using assms by (rule init_heap_succeeds [OF _ _ subset_refl])
  with init_heap_maps [OF assms(1,3) this] show ?thesis by blast
qed

text \<open>A mapper without page tables of its own.\<close>

definition flat_paging :: "(u64 \<Rightarrow> u64 option, u64, u64) x86_paging" where
  "flat_paging = \<lparr>phys_frame = (\<lambda>a. a), virt_page = (\<lambda>a. a),
     map_to = (\<lambda>pg fr (m, fa). if m pg = None then (Inr (), m(pg \<mapsto> fr), fa) else (Inl PageAlreadyMapped, m, fa))\<rparr>"

lemma flat_paging_ok: "mapper_ok flat_paging (\<lambda>m. m)" "tables_ok flat_paging (\<lambda>_. Some 0) pages"
  by (simp_all add: mapper_ok_def tables_ok_def flat_paging_def)

definition demo_map :: "MemoryRegion list" where
  "demo_map = [\<lparr>start_addr = 0, end_addr = 0x1000, region_type = Reserved\<rparr>,
     \<lparr>start_addr = 0x100000, end_addr = 0x4000000, region_type = Usable\<rparr>]"

lemma demo_map_frames: "map_ok demo_map" "length (usable_frames flat_paging (fa_init demo_map)) = 16128"
  by (simp_all add: map_ok_def demo_map_def aligned_def usable_frames_def usable_addrs_def step_by_4096_def fa_init_def
      word_le_nat_alt)

theorem heap_mapped_witness:
  "\<exists>m' fa' h'. init_heap flat_paging (\<lambda>a b _. (a, b)) (\<lambda>_. None, fa_init demo_map) (fixed_new (0, 0) (\<lambda>_. None)) = Inr (Inr (), (m', fa'), h')
     \<and> fallback_allocator h' = (HEAP_START, HEAP_SIZE)
     \<and> (\<exists>frames. length frames = 14336 \<and> distinct frames \<and> m' HEAP_START = Some (frames ! 0))"
proof -
  have mm: "map_ok (memory_map (fa_init demo_map))" using demo_map_frames(1) by (simp add: fa_init_def)
  have room: "unat (next_frame (fa_init demo_map)) + 0 + 14336 \<le> length (usable_frames flat_paging (fa_init demo_map))"
    using demo_map_frames(2) by (simp add: fa_init_def)
  have free: "\<forall>pg \<in> set (heap_pages flat_paging). (\<lambda>_. None :: u64 option) pg = None" by simp
  obtain m' fa' frames where run: "init_heap flat_paging (\<lambda>a b _. (a, b)) (\<lambda>_. None, fa_init demo_map) (fixed_new (0, 0) (\<lambda>_. None))
      = Inr (Inr (), (m', fa'), fixed_init (\<lambda>a b _. (a, b)) HEAP_START HEAP_SIZE (fixed_new (0, 0) (\<lambda>_. None)))"
    and fr: "length frames = 14336" "distinct frames"
    "\<forall>i < 14336. m' (virt_page flat_paging (HEAP_START + of_nat (i * 4096))) = Some (frames ! i)"
    using heap_mapped [OF flat_paging_ok mm free refl room, of "\<lambda>a b _. (a, b)" "fixed_new (0, 0) (\<lambda>_. None)"] by blast
  from fr(3) [THEN spec, of 0] have "m' HEAP_START = Some (frames ! 0)" by (simp add: flat_paging_def)
  with run fr(1,2) show ?thesis by (auto simp: fixed_init_def)
qed

section \<open>The display\<close>

text \<open>A page that is not mapped yet, or mapped to the frame of the same address, ends up mapped to that frame.\<close>

definition identity_or_free :: "('m, 'fr, 'pg) x86_paging \<Rightarrow> ('m \<Rightarrow> 'pg \<Rightarrow> 'fr option) \<Rightarrow> 'm \<Rightarrow> u64 \<Rightarrow> bool" where
  "identity_or_free px entry m a \<longleftrightarrow> entry m (virt_page px a) \<in> {None, Some (phys_frame px a)}"

lemma map_identity_succeeds:
  assumes px: "mapper_ok px entry" "tables_ok px missing S" "virt_page px a \<in> S" and free: "identity_or_free px entry m a"
    and k: "missing m = Some k" "unat (next_frame fa) + k \<le> length (usable_frames px fa)"
  obtains m' fa' k' where "map_identity msg px a (m, fa) = Inr (m', fa')"
    and "entry m' = (entry m)(virt_page px a \<mapsto> phys_frame px a)"
    and "missing m' = Some k'" and "unat (next_frame fa') + k' \<le> length (usable_frames px fa')"
proof -
  obtain r m' fa' k' where t: "map_to px (virt_page px a) (phys_frame px a) (m, fa) = (r, m', fa')"
    "r = Inr () \<or> r = Inl PageAlreadyMapped" "missing m' = Some k'"
    "unat (next_frame fa') + k' \<le> unat (next_frame fa) + k" "usable_frames px fa' = usable_frames px fa"
    using px k by (rule map_to_total)
  have "entry m' = (entry m)(virt_page px a \<mapsto> phys_frame px a)"
    using t(2) map_to_ok(3,4,5) [OF px(1) t(1)] free by (auto simp: identity_or_free_def fun_upd_idem)
  with t k(2) show thesis by (intro that [of m' fa' k']) (auto simp: map_identity_def)
qed

lemma map_framebuffer_from_succeeds:
  assumes px: "mapper_ok px entry" "tables_ok px missing S"
  shows "\<forall>a \<in> set as. virt_page px a \<in> S \<and> identity_or_free px entry m a \<and> aligned a \<Longrightarrow> missing m = Some k \<Longrightarrow>
    unat (next_frame fa) + k \<le> length (usable_frames px fa) \<Longrightarrow>
    \<exists>m' fa'. map_framebuffer_from px as (m, fa) = Inr (m', fa') \<and> (\<forall>a \<in> set as. entry m' (virt_page px a) = Some (phys_frame px a))
      \<and> (\<forall>pg. pg \<notin> virt_page px ` set as \<longrightarrow> entry m' pg = entry m pg)"
proof (induction as arbitrary: m fa k)
  case (Cons b as)
  obtain m1 fa1 k1 where 1: "map_identity ''mode13 map failed'' px b (m, fa) = Inr (m1, fa1)"
    "entry m1 = (entry m)(virt_page px b \<mapsto> phys_frame px b)" "missing m1 = Some k1"
    "unat (next_frame fa1) + k1 \<le> length (usable_frames px fa1)"
    by (rule map_identity_succeeds [OF px, of b m k fa]) (use Cons.prems in simp_all)
  have inj: "virt_page px a = virt_page px b \<Longrightarrow> a = b" if "a \<in> set as" for a
    using px(1) Cons.prems(1) that unfolding mapper_ok_def by simp
  have "\<forall>a \<in> set as. virt_page px a \<in> S \<and> identity_or_free px entry m1 a \<and> aligned a"
    using Cons.prems(1) 1(2) inj by (auto simp: identity_or_free_def)
  from Cons.IH [OF this 1(3,4)] obtain m' fa' where
    2: "map_framebuffer_from px as (m1, fa1) = Inr (m', fa')" "\<forall>a \<in> set as. entry m' (virt_page px a) = Some (phys_frame px a)"
      "\<forall>pg. pg \<notin> virt_page px ` set as \<longrightarrow> entry m' pg = entry m1 pg"
    by blast
  have "entry m' (virt_page px b) = Some (phys_frame px b)"
    using 2(2,3) 1(2) inj by (cases "virt_page px b \<in> virt_page px ` set as") auto
  with 1(1,2) 2 show ?case by auto
qed simp

end
