(* ===== verification/Shell.thy ===== *)
theory Shell
  imports Syscalls Paging
begin

text \<open>
  The shell (\<open>src/task/shell.rs\<close>): line editing, parsing and the commands, on the console and the system
  calls. The decoding of scancodes into keys is the crate \<open>pc_keyboard\<close>; the shell is modelled from the
  decoded keys on.
\<close>

section \<open>Text\<close>

text \<open>A string literal as bytes, and the numbers of \<open>println!\<close>.\<close>

definition str :: "string \<Rightarrow> u8 list" where
  "str s = map of_char s"

fun decimal :: "nat \<Rightarrow> u8 list" where
  "decimal n = (if n < 10 then [0x30 + of_nat n] else decimal (n div 10) @ [0x30 + of_nat (n mod 10)])"

declare decimal.simps [simp del]

definition hex_digit :: "nat \<Rightarrow> u8" where
  "hex_digit n = (if n < 10 then 0x30 + of_nat n else 0x57 + of_nat n)"

text \<open>\<open>{:016x}\<close> and \<open>{:>8}\<close>.\<close>

definition hex16 :: "u64 \<Rightarrow> u8 list" where
  "hex16 v = map (\<lambda>i. hex_digit (unat v div 16 ^ (15 - i) mod 16)) [0..<16]"

definition right8 :: "u8 list \<Rightarrow> u8 list" where
  "right8 s = replicate (8 - length s) 0x20 @ s"

definition is_ws :: "u8 \<Rightarrow> bool" where
  "is_ws b \<longleftrightarrow> b \<in> {0x09, 0x0A, 0x0C, 0x0D, 0x20}"

text \<open>\<open>str::trim\<close> on the ASCII text of a line, and \<open>split_ascii_whitespace\<close>.\<close>

definition trim :: "u8 list \<Rightarrow> u8 list" where
  "trim s = (let ws = (\<lambda>b. is_ws b \<or> b = 0x0B) in rev (dropWhile ws (rev (dropWhile ws s))))"

function split_ws :: "u8 list \<Rightarrow> u8 list list" where
  "split_ws s =
     (case dropWhile is_ws s of
        [] \<Rightarrow> []
      | b # rest \<Rightarrow> (b # takeWhile (\<lambda>b. \<not> is_ws b) rest) # split_ws (dropWhile (\<lambda>b. \<not> is_ws b) rest))"
  by pat_completeness auto
termination
proof (relation "measure length")
  fix s :: "u8 list" and b rest
  assume "dropWhile is_ws s = b # rest"
  then have "length (b # rest) \<le> length s" by (metis length_dropWhile_le)
  moreover have "length (dropWhile (\<lambda>b. \<not> is_ws b) rest) \<le> length rest" by (rule length_dropWhile_le)
  ultimately show "(dropWhile (\<lambda>b. \<not> is_ws b) rest, s) \<in> measure length" by simp
qed simp

declare split_ws.simps [simp del]

fun join_space :: "u8 list list \<Rightarrow> u8 list" where
  "join_space [] = []"
| "join_space [w] = w"
| "join_space (w # ws) = w @ [0x20] @ join_space ws"

section \<open>Commands\<close>

record shell =
  line :: "u8 list"
  sh_sys :: sys
  MEMORY_MAP :: "MemoryRegion list option"
  DOOM_LAUNCHED :: bool
  doom_threads :: nat \<comment> \<open>threads spawned for Doom\<close>

definition print_str :: "u8 list \<Rightarrow> shell \<Rightarrow> shell res" where
  "print_str s st =
     rbind (write_string s (sys_console (sh_sys st))) (\<lambda>w. Inr (st\<lparr>sh_sys := (sh_sys st)\<lparr>sys_console := w\<rparr>\<rparr>))"

definition println_str :: "u8 list \<Rightarrow> shell \<Rightarrow> shell res" where
  "println_str s = print_str (s @ [0x0A])"

fun println_all :: "u8 list list \<Rightarrow> shell \<Rightarrow> shell res" where
  "println_all [] st = Inr st"
| "println_all (s # ss) st = rbind (println_str s st) (println_all ss)"

definition PROMPT :: "u8 list" where "PROMPT = str ''moltos> ''"

definition region_line :: "MemoryRegion \<Rightarrow> u8 list res" where
  "region_line r =
     rbind (sub_ovf (end_addr r) (start_addr r)) (\<lambda>n.
       Inr (str ''  '' @ hex16 (start_addr r) @ str ''-'' @ hex16 (end_addr r) @ str '' '' @ right8 (decimal (unat (n div 1024)))
         @ str '' KiB  '' @ (case region_type r of Usable \<Rightarrow> str ''Usable'' | Reserved \<Rightarrow> str ''Reserved'' | OtherRegion \<Rightarrow> str ''Other'')))"

fun dump_regions :: "MemoryRegion list \<Rightarrow> shell \<Rightarrow> shell res" where
  "dump_regions [] st = Inr st"
| "dump_regions (r # rs) st = rbind (region_line r) (\<lambda>s. rbind (println_str s st) (dump_regions rs))"

definition dump_memory_map :: "shell \<Rightarrow> shell res" where
  "dump_memory_map st =
     (case MEMORY_MAP st of
        None \<Rightarrow> Inl (Expect ''memory map not initialized'')
      | Some rs \<Rightarrow> dump_regions rs st)"

definition init_memory_map :: "MemoryRegion list \<Rightarrow> shell \<Rightarrow> shell res" where
  "init_memory_map mm st =
     (if MEMORY_MAP st = None then Inr (st\<lparr>MEMORY_MAP := Some mm\<rparr>)
      else Inl (Expect ''init_memory_map called more than once''))"

definition cmd_help :: "bool \<Rightarrow> shell \<Rightarrow> shell res" where
  "cmd_help doom = println_all
     ([str ''  help       - show this message'',
       str ''  clear/cls  - clear the screen'',
       str ''  echo ...   - print the rest of the line'',
       str ''  uptime     - show uptime in timer ticks'',
       str ''  mem/memory - dump memory map'',
       str ''  syscall    - test syscalls (uptime, putchar)'']
      @ (if doom then [str ''  doom       - launch Doom (requires doom1.wad)''] else []))"

definition cmd_uptime :: "shell \<Rightarrow> shell res" where
  "cmd_uptime st = println_str (decimal (unat (sys_ticks (sh_sys st))) @ str '' ticks'') st"

definition cmd_mem :: "shell \<Rightarrow> shell res" where
  "cmd_mem st = rbind (println_str (str ''Memory map:'') st) dump_memory_map"

definition cmd_clear :: "shell \<Rightarrow> shell res" where
  "cmd_clear st =
     rbind (clear_screen (sys_console (sh_sys st))) (\<lambda>w. Inr (st\<lparr>sh_sys := (sh_sys st)\<lparr>sys_console := w\<rparr>\<rparr>))"

definition cmd_echo :: "u8 list \<Rightarrow> shell \<Rightarrow> shell res" where
  "cmd_echo args = println_str args"

text \<open>The registers a system call does not set hold 0 here; no call reads them.\<close>

definition cmd_syscall :: "u8 list \<Rightarrow> shell \<Rightarrow> shell res" where
  "cmd_syscall args st =
     (let sub = (case split_ws args of [] \<Rightarrow> [] | w # _ \<Rightarrow> w) in
      if sub = str ''uptime'' \<or> sub = str ''u'' then
        rbind (syscall0 (as_u64 Uptime) (0, 0, 0) (sh_sys st)) (\<lambda>(ticks, s).
          println_str (str ''syscall(SYS_UPTIME) = '' @ decimal (unat ticks) @ str '' ticks'') (st\<lparr>sh_sys := s\<rparr>))
      else if sub = str ''putchar'' \<or> sub = str ''p'' then
        rbind (syscall1 (as_u64 PutChar) 0x41 (0, 0) (sh_sys st)) (\<lambda>(_, s).
          println_str (str '' (printed via syscall)'') (st\<lparr>sh_sys := s\<rparr>))
      else if sub = [] then
        println_all
          [str ''Usage: syscall <uptime|putchar>'',
           str ''  uptime (u)  - call SYS_UPTIME via int 0x80'',
           str ''  putchar (p) - call SYS_PUTCHAR('' @ [0x27] @ str ''A'' @ [0x27] @ str '') via int 0x80''] st
      else println_str (str ''unknown syscall test: '' @ [0x27] @ sub @ [0x27] @ str ''. Use uptime or putchar.'') st)"

definition cmd_doom :: "shell \<Rightarrow> shell res" where
  "cmd_doom st =
     (if DOOM_LAUNCHED st then println_str (str ''doom: already running'') st
      else rbind (println_str (str ''launching doom...'') (st\<lparr>DOOM_LAUNCHED := True\<rparr>)) (\<lambda>st.
             Inr (st\<lparr>doom_threads := doom_threads st + 1\<rparr>)))"

text \<open>\<open>doom\<close> is the cargo feature of that name.\<close>

definition run_command :: "bool \<Rightarrow> u8 list \<Rightarrow> shell \<Rightarrow> shell res" where
  "run_command doom ln st =
     (if ln = [] then Inr st
      else
        let parts = split_ws ln;
            cmd = (case parts of [] \<Rightarrow> [] | w # _ \<Rightarrow> w);
            rest = join_space (tl parts)
        in if cmd = str ''help'' then cmd_help doom st
           else if cmd = str ''clear'' \<or> cmd = str ''cls'' then cmd_clear st
           else if cmd = str ''echo'' then cmd_echo (trim rest) st
           else if cmd = str ''uptime'' then cmd_uptime st
           else if cmd = str ''mem'' \<or> cmd = str ''memory'' then cmd_mem st
           else if cmd = str ''syscall'' then cmd_syscall (trim rest) st
           else if doom \<and> cmd = str ''doom'' then cmd_doom st
           else println_str (str ''unknown command: '' @ [0x27] @ cmd @ [0x27] @ str ''. Type '' @ [0x27] @ str ''help'' @ [0x27]
                  @ str '' for commands.'') st)"

section \<open>Editing\<close>

datatype DecodedKey =
    Unicode u32 \<comment> \<open>a code point\<close>
  | RawBackspace
  | RawKey \<comment> \<open>any other key without a character\<close>

definition erase :: "shell \<Rightarrow> shell res" where
  "erase st = (if line st = [] then Inr st else print_str [0x08] (st\<lparr>line := butlast (line st)\<rparr>))"

definition shell_key :: "bool \<Rightarrow> DecodedKey \<Rightarrow> shell \<Rightarrow> shell res" where
  "shell_key doom key st =
     (case key of
        Unicode c \<Rightarrow>
          if c = 0x0D \<or> c = 0x0A then
            rbind (print_str [0x0A] st) (\<lambda>st.
            rbind (run_command doom (trim (line st)) st) (\<lambda>st.
              print_str PROMPT (st\<lparr>line := []\<rparr>)))
          else if c = 0x08 \<or> c = 0x7F then erase st
          else if c < 0x80 \<and> \<not> c < 0x20 then print_str [ucast c] (st\<lparr>line := line st @ [ucast c]\<rparr>)
          else Inr st
      | RawBackspace \<Rightarrow> erase st
      | RawKey \<Rightarrow> Inr st)"

fun shell_keys :: "bool \<Rightarrow> DecodedKey list \<Rightarrow> shell \<Rightarrow> shell res" where
  "shell_keys doom [] st = Inr st"
| "shell_keys doom (k # ks) st = rbind (shell_key doom k st) (shell_keys doom ks)"

text \<open>\<open>run_shell\<close>, on the keys that the scancodes decode to.\<close>

definition run_shell :: "bool \<Rightarrow> DecodedKey list \<Rightarrow> shell \<Rightarrow> shell res" where
  "run_shell doom ks st =
     rbind (println_str (str ''Chronos shell. Type '' @ [0x27] @ str ''help'' @ [0x27] @ str '' for commands.'') (st\<lparr>line := []\<rparr>)) (\<lambda>st.
     rbind (print_str PROMPT st) (shell_keys doom ks))"

section \<open>No key crashes the shell\<close>

definition regions_ok :: "MemoryRegion list \<Rightarrow> bool" where
  "regions_ok rs \<longleftrightarrow> (\<forall>r \<in> set rs. start_addr r \<le> end_addr r)"

definition shell_ok :: "shell \<Rightarrow> bool" where
  "shell_ok st \<longleftrightarrow> screen_ok (sys_console (sh_sys st)) \<and> (\<exists>rs. MEMORY_MAP st = Some rs \<and> regions_ok rs)
     \<and> doom_threads st = (if DOOM_LAUNCHED st then 1 else 0)"

definition safe :: "shell res \<Rightarrow> bool" where
  "safe m \<longleftrightarrow> (\<exists>st. m = Inr st \<and> shell_ok st)"

named_theorems shell_safe

lemma safe_Inr [shell_safe]: "shell_ok st \<Longrightarrow> safe (Inr st)"
  by (simp add: safe_def)

lemma safe_rbind [shell_safe]: "safe m \<Longrightarrow> (\<And>st. shell_ok st \<Longrightarrow> safe (f st)) \<Longrightarrow> safe (rbind m f)"
  by (auto simp: safe_def)

lemma shell_ok_line [shell_safe]: "shell_ok st \<Longrightarrow> shell_ok (st\<lparr>line := l\<rparr>)"
  by (simp add: shell_ok_def)

lemma print_str_safe [shell_safe]: "shell_ok st \<Longrightarrow> safe (print_str s st)"
  using write_string_ok [of "sys_console (sh_sys st)" s] by (auto simp: safe_def shell_ok_def print_str_def)

lemma println_str_safe [shell_safe]: "shell_ok st \<Longrightarrow> safe (println_str s st)"
  by (simp add: println_str_def print_str_safe)

lemma println_all_safe [shell_safe]: "shell_ok st \<Longrightarrow> safe (println_all ss st)"
  by (induction ss arbitrary: st) (auto intro!: shell_safe)

lemma dump_regions_safe: "regions_ok rs \<Longrightarrow> shell_ok st \<Longrightarrow> safe (dump_regions rs st)"
proof (induction rs arbitrary: st)
  case (Cons r rs)
  from Cons.prems have "\<exists>s. region_line r = Inr s"
    by (simp add: regions_ok_def region_line_def sub_ovf_def)
  with Cons show ?case by (auto simp: regions_ok_def intro!: shell_safe)
qed (auto intro: shell_safe)

lemma cmd_mem_safe [shell_safe]: "shell_ok st \<Longrightarrow> safe (cmd_mem st)"
  unfolding cmd_mem_def
  by (intro shell_safe) (auto simp: dump_memory_map_def shell_ok_def intro!: dump_regions_safe)

lemma cmd_clear_safe [shell_safe]: "shell_ok st \<Longrightarrow> safe (cmd_clear st)"
  using clear_screen_eq [of "sys_console (sh_sys st)"]
  by (auto simp: safe_def cmd_clear_def shell_ok_def screen_ok_def blank_row_def)

lemma cmd_syscall_safe [shell_safe]:
  assumes st: "shell_ok st"
  shows "safe (cmd_syscall args st)"
proof -
  have call: "\<exists>r s. dispatch n a b c (sh_sys st) = Inr (r, s) \<and> shell_ok (st\<lparr>sh_sys := s\<lparr>SYSCALL_RETURN := r\<rparr>\<rparr>)" for n a b c
    using dispatch_total [of "sh_sys st" n a b c] st by (fastforce simp: shell_ok_def)
  obtain r s where "dispatch (as_u64 Uptime) 0 0 0 (sh_sys st) = Inr (r, s)" "shell_ok (st\<lparr>sh_sys := s\<lparr>SYSCALL_RETURN := r\<rparr>\<rparr>)"
    using call by blast
  moreover obtain r' s' where "dispatch (as_u64 PutChar) 0x41 0 0 (sh_sys st) = Inr (r', s')"
      "shell_ok (st\<lparr>sh_sys := s'\<lparr>SYSCALL_RETURN := r'\<rparr>\<rparr>)"
    using call by blast
  ultimately show ?thesis
    using st by (auto simp: cmd_syscall_def Let_def syscall0_def syscall1_def syscall_handler_def simp del: println_all.simps as_u64.simps
      intro!: println_str_safe println_all_safe)
qed

lemma cmd_doom_safe [shell_safe]:
  assumes st: "shell_ok st"
  shows "safe (cmd_doom st)"
proof (cases "DOOM_LAUNCHED st")
  case False
  let ?w = "sys_console (sh_sys st)"
  have "\<exists>w. write_string (str ''launching doom...'' @ [0x0A]) ?w = Inr w \<and> screen_ok w"
    using st by (intro write_string_ok) (simp add: shell_ok_def)
  with False st show ?thesis by (auto simp: cmd_doom_def println_str_def print_str_def safe_def shell_ok_def)
qed (use st in \<open>simp add: cmd_doom_def println_str_safe\<close>)

lemma run_command_safe [shell_safe]: "shell_ok st \<Longrightarrow> safe (run_command doom ln st)"
  by (auto simp: run_command_def Let_def cmd_help_def cmd_echo_def cmd_uptime_def simp del: println_all.simps intro!: shell_safe)

lemma erase_safe [shell_safe]: "shell_ok st \<Longrightarrow> safe (erase st)"
  by (auto simp: erase_def intro!: shell_safe)

lemma shell_key_safe [shell_safe]: "shell_ok st \<Longrightarrow> safe (shell_key doom k st)"
  by (cases k) (auto simp: shell_key_def intro!: shell_safe)

lemma shell_keys_safe [shell_safe]: "shell_ok st \<Longrightarrow> safe (shell_keys doom ks st)"
  by (induction ks arbitrary: st) (auto intro!: shell_safe)

text \<open>The state at boot, on a console of blanks.\<close>

definition boot_shell :: shell where
  "boot_shell = \<lparr>line = [],
     sh_sys = \<lparr>SYSCALL_RETURN = 0,
       sys_console = \<lparr>column_position = 0, writer_color = 0x0e,
         buffer = replicate 25 (replicate 80 \<lparr>ascii_character = 0x20, color_code = 0x0e\<rparr>)\<rparr>, sys_ticks = 0\<rparr>,
     MEMORY_MAP = None, DOOM_LAUNCHED = False, doom_threads = 0\<rparr>"

text \<open>
  The shell survives every input. Whatever keys are pressed, and whatever command lines they form, the
  shell started after \<open>init_memory_map\<close> on a well-formed memory map returns to its prompt without a panic,
  the console keeps its shape, and Doom is launched at most once.
\<close>

lemma shell_total:
  assumes "screen_ok (sys_console (sh_sys st))" and "MEMORY_MAP st = None" and "\<not> DOOM_LAUNCHED st" and "doom_threads st = 0"
    and "regions_ok mm"
  shows "\<exists>st'. rbind (init_memory_map mm st) (run_shell doom ks) = Inr st' \<and> screen_ok (sys_console (sh_sys st'))
    \<and> doom_threads st' \<le> 1"
proof -
  have "safe (run_shell doom ks (st\<lparr>MEMORY_MAP := Some mm\<rparr>))"
    unfolding run_shell_def using assms by (intro shell_safe) (simp add: shell_ok_def)
  with assms show ?thesis by (auto simp: init_memory_map_def safe_def shell_ok_def split: if_splits)
qed

section \<open>The line on the screen\<close>

text \<open>Reference: what a key other than Enter makes of the line, and what it prints.\<close>

fun is_enter :: "DecodedKey \<Rightarrow> bool" where
  "is_enter (Unicode c) \<longleftrightarrow> c = 0x0D \<or> c = 0x0A"
| "is_enter _ \<longleftrightarrow> False"

fun is_backspace :: "DecodedKey \<Rightarrow> bool" where
  "is_backspace (Unicode c) \<longleftrightarrow> c = 0x08 \<or> c = 0x7F"
| "is_backspace RawBackspace \<longleftrightarrow> True"
| "is_backspace RawKey \<longleftrightarrow> False"

fun typed :: "DecodedKey \<Rightarrow> u8 list" where
  "typed (Unicode c) = (if 0x20 \<le> c \<and> c < 0x7F then [ucast c] else [])"
| "typed _ = []"

definition edit_key :: "DecodedKey \<Rightarrow> u8 list \<Rightarrow> u8 list" where
  "edit_key k l = (if is_backspace k then butlast l else l @ typed k)"

definition key_echo :: "DecodedKey \<Rightarrow> u8 list \<Rightarrow> u8 list" where
  "key_echo k l = (if is_backspace k then (if l = [] then [] else [0x08]) else typed k)"

lemma below_del: "(c :: u32) < 0x80 \<Longrightarrow> c \<noteq> 0x7F \<Longrightarrow> c < 0x7F"
  by (simp add: word_less_nat_alt word_unat_eq_iff)

lemma below_del_iff: "(c :: u32) \<noteq> 0x7F \<Longrightarrow> c < 0x80 \<and> \<not> c < 0x20 \<longleftrightarrow> 0x20 \<le> c \<and> c < 0x7F"
  using below_del [of c] by (auto simp: word_le_nat_alt word_less_nat_alt)

lemma print_nothing [simp]: "print_str [] st = Inr st"
  by (simp add: print_str_def)

lemma shell_key_edit:
  assumes "\<not> is_enter k"
  shows "shell_key doom k st = print_str (key_echo k (line st)) (st\<lparr>line := edit_key k (line st)\<rparr>)"
proof (cases k)
  case (Unicode c)
  show ?thesis
  proof (cases "c = 0x08 \<or> c = 0x7F")
    case True
    with Unicode assms show ?thesis by (auto simp: shell_key_def erase_def key_echo_def edit_key_def)
  next
    case False
    with Unicode assms show ?thesis using below_del_iff [of c] by (simp add: shell_key_def key_echo_def edit_key_def)
  qed
qed (simp_all add: shell_key_def erase_def key_echo_def edit_key_def)

definition cells :: "ColorCode \<Rightarrow> u8 list \<Rightarrow> ScreenChar list" where
  "cells c s = map (\<lambda>b. \<lparr>ascii_character = b, color_code = c\<rparr>) s"

definition printable :: "u8 list \<Rightarrow> bool" where
  "printable s \<longleftrightarrow> (\<forall>b \<in> set s. 0x20 \<le> b \<and> b \<le> 0x7e)"

lemma cells_simps [simp]: "cells c [] = []" "cells c (s @ t) = cells c s @ cells c t" "length (cells c s) = length s"
  "cells c (butlast s) = butlast (cells c s)"
  by (simp_all add: cells_def map_butlast)

lemma printable_simps [simp]: "printable []" "printable (s @ t) \<longleftrightarrow> printable s \<and> printable t"
  by (auto simp: printable_def)

lemma printable_not_control: "0x20 \<le> b \<Longrightarrow> b \<noteq> (0x0A :: u8) \<and> b \<noteq> 0x08"
  by (auto simp: word_le_nat_alt)

lemma term_printable:
  "printable s \<Longrightarrow> length cur + length s \<le> 80 \<Longrightarrow> term_string c s (ls, cur) = (ls, cur @ cells c s)"
proof (induction s arbitrary: cur)
  case (Cons b s)
  then have "glyph b = b" "b \<noteq> 0x0A" "b \<noteq> 0x08" using printable_not_control [of b] by (auto simp: printable_def glyph_def)
  with Cons show ?case by (simp add: term_string_def cells_def printable_def)
qed (simp add: term_string_def)

lemma term_append: "term_string c (s @ t) u = term_string c t (term_string c s u)"
  by (simp add: term_string_def)

lemma term_newline [simp]: "term_string c [0x0A] (ls, cur) = (ls @ [cur], [])"
  by (simp add: term_string_def glyph_def)

lemma term_backspace [simp]: "term_string c [0x08] (ls, cur) = (ls, butlast cur)"
  by (simp add: term_string_def glyph_def)

lemma typed_printable: "printable (typed k)"
proof (cases k)
  case (Unicode c)
  have "0x20 \<le> (ucast c :: u8) \<and> (ucast c :: u8) \<le> 0x7e" if "0x20 \<le> c" "c < 0x7F"
  proof -
    have "unat c < 256" using that by (simp add: word_less_nat_alt)
    then have "unat (ucast c :: u8) = unat c" by (simp add: unsigned_ucast_eq take_bit_eq_mod)
    with that show ?thesis by (simp add: word_le_nat_alt word_less_nat_alt)
  qed
  with Unicode show ?thesis by (simp add: printable_def)
qed simp_all

lemma edit_printable: "printable l \<Longrightarrow> printable (edit_key k l)"
  by (auto simp: edit_key_def typed_printable) (auto simp: printable_def dest: in_set_butlastD)

lemma PROMPT_facts: "length PROMPT = 8" "printable PROMPT"
  by (simp_all add: PROMPT_def str_def printable_def)

text \<open>At the prompt with a line typed so far, below the lines \<open>ls\<close>.\<close>

definition at_prompt :: "ScreenChar list list \<Rightarrow> ScreenChar list list \<Rightarrow> shell \<Rightarrow> bool" where
  "at_prompt upper ls st \<longleftrightarrow>
     (let w = sys_console (sh_sys st) in
      printable (line st) \<and> shows_term upper (ls, cells (writer_color w) (PROMPT @ line st)) w)"

lemma print_str_term:
  assumes "shows_term upper t (sys_console (sh_sys st))" and "c = writer_color (sys_console (sh_sys st))"
  obtains w where "print_str s st = Inr (st\<lparr>sh_sys := (sh_sys st)\<lparr>sys_console := w\<rparr>\<rparr>)"
    and "shows_term upper (term_string c s t) w" and "writer_color w = c"
  using write_string_term [OF assms(1), of s] assms(2) by (auto simp: print_str_def)

lemma key_echo_term:
  assumes "length (edit_key k l) \<le> 72"
  shows "term_string c (key_echo k l) (ls, cells c (PROMPT @ l)) = (ls, cells c (PROMPT @ edit_key k l))"
proof (cases "is_backspace k")
  case True
  show ?thesis
  proof (cases l rule: rev_cases)
    case Nil
    with True show ?thesis by (simp add: key_echo_def edit_key_def term_string_def)
  next
    case (snoc l' b)
    with True show ?thesis by (simp add: key_echo_def edit_key_def butlast_append cells_def)
  qed
next
  case False
  with assms show ?thesis
    using term_printable [OF typed_printable, of "cells c (PROMPT @ l)" k c ls]
    by (simp add: key_echo_def edit_key_def PROMPT_facts)
qed

lemma edit_key_term:
  assumes t: "shows_term upper t (sys_console (sh_sys st))" and k: "\<not> is_enter k"
    and c: "c = writer_color (sys_console (sh_sys st))"
  obtains st' where "shell_key doom k st = Inr st'" and "line st' = edit_key k (line st)"
    and "shows_term upper (term_string c (key_echo k (line st)) t) (sys_console (sh_sys st'))"
    and "c = writer_color (sys_console (sh_sys st'))"
proof -
  let ?st = "st\<lparr>line := edit_key k (line st)\<rparr>"
  have "shows_term upper t (sys_console (sh_sys ?st))" "c = writer_color (sys_console (sh_sys ?st))" using t c by simp_all
  then obtain w where "print_str (key_echo k (line st)) ?st = Inr (?st\<lparr>sh_sys := (sh_sys ?st)\<lparr>sys_console := w\<rparr>\<rparr>)"
    "shows_term upper (term_string c (key_echo k (line st)) t) w" "writer_color w = c"
    by (rule print_str_term)
  then show thesis
    by (intro that [of "?st\<lparr>sh_sys := (sh_sys ?st)\<lparr>sys_console := w\<rparr>\<rparr>"]) (simp_all add: shell_key_edit [OF k])
qed

lemma edit_step:
  assumes st: "at_prompt upper ls st" and k: "\<not> is_enter k" "length (edit_key k (line st)) \<le> 72"
  obtains st' where "shell_key doom k st = Inr st'" and "at_prompt upper ls st'" and "line st' = edit_key k (line st)"
    and "writer_color (sys_console (sh_sys st')) = writer_color (sys_console (sh_sys st))"
proof -
  let ?c = "writer_color (sys_console (sh_sys st))"
  have t: "shows_term upper (ls, cells ?c (PROMPT @ line st)) (sys_console (sh_sys st))" and p: "printable (edit_key k (line st))"
    using st by (simp_all add: at_prompt_def Let_def edit_printable)
  from t k(1) refl obtain st' where "shell_key doom k st = Inr st'" "line st' = edit_key k (line st)"
    "shows_term upper (term_string ?c (key_echo k (line st)) (ls, cells ?c (PROMPT @ line st))) (sys_console (sh_sys st'))"
    "?c = writer_color (sys_console (sh_sys st'))"
    by (rule edit_key_term)
  with p key_echo_term [OF k(2), of ?c ls] show thesis by (intro that [of st']) (simp_all add: at_prompt_def)
qed

text \<open>The line never grows past 72 characters, the width that the prompt leaves.\<close>

fun fits :: "DecodedKey list \<Rightarrow> u8 list \<Rightarrow> bool" where
  "fits [] l \<longleftrightarrow> True"
| "fits (k # ks) l \<longleftrightarrow> \<not> is_enter k \<and> length (edit_key k l) \<le> 72 \<and> fits ks (edit_key k l)"

lemma edit_steps:
  assumes "at_prompt upper ls st" and "fits ks (line st)"
  obtains st' where "shell_keys doom ks st = Inr st'" and "at_prompt upper ls st'" and "line st' = fold edit_key ks (line st)"
    and "writer_color (sys_console (sh_sys st')) = writer_color (sys_console (sh_sys st))"
  using assms
proof (induction ks arbitrary: st thesis)
  case (Cons k ks)
  then have k: "\<not> is_enter k" "length (edit_key k (line st)) \<le> 72" "fits ks (edit_key k (line st))" by simp_all
  obtain st1 where 1: "shell_key doom k st = Inr st1" "at_prompt upper ls st1" "line st1 = edit_key k (line st)"
    "writer_color (sys_console (sh_sys st1)) = writer_color (sys_console (sh_sys st))"
    using Cons.prems(2) k(1,2) by (rule edit_step)
  have "fits ks (line st1)" using k(3) 1(3) by simp
  from Cons.IH [OF _ 1(2) this] obtain st2 where "shell_keys doom ks st1 = Inr st2" "at_prompt upper ls st2"
    "line st2 = fold edit_key ks (line st1)" "writer_color (sys_console (sh_sys st2)) = writer_color (sys_console (sh_sys st1))"
    by blast
  with 1 show ?case by (intro Cons.prems(1) [of st2]) simp_all
qed simp

lemma fits_length: "fits ks l \<Longrightarrow> length l \<le> 72 \<Longrightarrow> length (fold edit_key ks l) \<le> 72"
  by (induction ks arbitrary: l) simp_all

lemma shell_keys_append: "shell_keys doom (ks @ ks') st = rbind (shell_keys doom ks st) (shell_keys doom ks')"
  by (induction ks arbitrary: st) (auto simp: rbind_def split: sum.split)

section \<open>Words\<close>

lemma split_ws_words: "w \<in> set (split_ws s) \<Longrightarrow> w \<noteq> [] \<and> (\<forall>b \<in> set w. \<not> is_ws b \<and> b \<in> set s)"
proof (induction s rule: split_ws.induct)
  case (1 s)
  show ?case
  proof (cases "dropWhile is_ws s")
    case Nil
    with 1 show ?thesis by (simp add: split_ws.simps [of s])
  next
    case (Cons b rest)
    have b: "\<not> is_ws b" using hd_dropWhile [of is_ws s] Cons by simp
    have sub: "set (b # rest) \<subseteq> set s" using Cons set_dropWhileD [of _ is_ws s] by auto
    from 1(2) consider "w = b # takeWhile (\<lambda>b. \<not> is_ws b) rest" | "w \<in> set (split_ws (dropWhile (\<lambda>b. \<not> is_ws b) rest))"
      by (auto simp: split_ws.simps [of s] Cons)
    then show ?thesis
    proof cases
      case 1
      with b sub show ?thesis by (auto dest: set_takeWhileD)
    next
      case 2
      with 1(1) [OF Cons] sub show ?thesis by (auto dest: set_dropWhileD)
    qed
  qed
qed

lemma length_join_cons: "length (join_space (w # ws)) = length w + (if ws = [] then 0 else Suc (length (join_space ws)))"
  by (cases ws) simp_all

lemma split_ws_blank: "is_ws x \<Longrightarrow> split_ws (x # s) = split_ws s"
  by (simp add: split_ws.simps [of "x # s"] split_ws.simps [of s])

lemma split_ws_length: "length (join_space (split_ws s)) \<le> length s"
proof (induction s rule: length_induct)
  case (1 s)
  show ?case
  proof (cases "dropWhile is_ws s")
    case (Cons b rest)
    let ?t = "takeWhile (\<lambda>b. \<not> is_ws b) rest" and ?d = "dropWhile (\<lambda>b. \<not> is_ws b) rest"
    have len: "Suc (length ?t + length ?d) \<le> length s"
      using length_dropWhile_le [of is_ws s] Cons by (metis length_Cons length_append takeWhile_dropWhile_id)
    have "Suc (length (join_space (split_ws ?d))) \<le> length ?d" if ne: "split_ws ?d \<noteq> []"
    proof -
      obtain x d' where d: "?d = x # d'" using ne by (cases ?d) (auto simp: split_ws.simps)
      then have "is_ws x" using hd_dropWhile [of "\<lambda>b. \<not> is_ws b" rest] by simp
      then have "split_ws ?d = split_ws d'" by (simp add: d split_ws_blank)
      moreover have "length d' < length s" using len d by simp
      ultimately show ?thesis using 1 by (simp add: d)
    qed
    with len show ?thesis by (auto simp: split_ws.simps [of s] Cons length_join_cons)
  next
    case Nil
    then have "split_ws s = []" by (simp only: split_ws.simps [of s] list.case)
    then show ?thesis by simp
  qed
qed

lemma set_join: "set (join_space ws) \<subseteq> insert 0x20 (\<Union> (set ` set ws))"
  by (induction ws rule: join_space.induct) auto

lemma set_trim: "set (trim s) \<subseteq> set s"
  by (auto simp: trim_def Let_def dest!: set_dropWhileD)

lemma trim_length: "length (trim s) \<le> length s"
proof -
  let ?p = "\<lambda>b. is_ws b \<or> b = 0x0B"
  have "length (dropWhile ?p (rev (dropWhile ?p s))) \<le> length (dropWhile ?p s)"
    using length_dropWhile_le [of ?p "rev (dropWhile ?p s)"] by simp
  also have "\<dots> \<le> length s" by (rule length_dropWhile_le)
  finally show ?thesis by (simp add: trim_def Let_def)
qed

text \<open>Trimming the joined words changes nothing: they begin and end with a word.\<close>

lemma join_ends:
  assumes "ws \<noteq> []" and "\<And>w. w \<in> set ws \<Longrightarrow> w \<noteq> []"
  shows "join_space ws \<noteq> [] \<and> hd (join_space ws) \<in> set (hd ws) \<and> last (join_space ws) \<in> set (last ws)"
  using assms by (induction ws rule: join_space.induct) auto

lemma trim_id:
  assumes "s \<noteq> []" and "\<not> is_ws (hd s)" "hd s \<noteq> 0x0B" and "\<not> is_ws (last s)" "last s \<noteq> 0x0B"
  shows "trim s = s"
proof -
  have drop: "dropWhile P t = t" if "t \<noteq> []" "\<not> P (hd t)" for P and t :: "u8 list" using that by (cases t) simp_all
  from assms show ?thesis by (simp add: trim_def Let_def drop hd_rev)
qed

lemma trim_words:
  assumes "printable s"
  shows "trim (join_space (tl (split_ws s))) = join_space (tl (split_ws s))"
proof (cases "tl (split_ws s) = []")
  case False
  have w: "w \<noteq> [] \<and> (\<forall>b \<in> set w. \<not> is_ws b \<and> b \<noteq> 0x0B)" if "w \<in> set (tl (split_ws s))" for w
  proof -
    have "w \<in> set (split_ws s)" using that by (cases "split_ws s") simp_all
    then show ?thesis using split_ws_words [of w s] assms by (force simp: printable_def)
  qed
  then have "hd (tl (split_ws s)) \<in> set (tl (split_ws s))" "last (tl (split_ws s)) \<in> set (tl (split_ws s))" using False by simp_all
  with w join_ends [OF False] show ?thesis by (intro trim_id) blast+
qed (simp add: trim_def)

lemma run_echo:
  assumes "split_ws l = str ''echo'' # ws" and "printable l"
  shows "run_command doom l st = println_str (join_space ws) st"
proof -
  have "l \<noteq> []" using assms(1) by (auto simp: split_ws.simps)
  then show ?thesis using assms trim_words [of l] by (simp add: run_command_def cmd_echo_def str_def)
qed

lemma echo_words:
  assumes "split_ws l = w # ws" and "printable l"
  shows "printable (join_space ws)" "length (join_space ws) \<le> length l"
proof -
  have "set (join_space ws) \<subseteq> insert 0x20 (set l)"
    using set_join [of ws] split_ws_words [of _ l] assms(1) by (fastforce simp: subset_iff)
  with assms(2) show "printable (join_space ws)" by (auto simp: printable_def)
  show "length (join_space ws) \<le> length l"
    using split_ws_length [of l] assms(1) length_join_cons [of w ws] by (cases ws) simp_all
qed

lemma enter_echo:
  assumes st: "at_prompt upper ls st" "length (line st) \<le> 72" and ws: "split_ws (trim (line st)) = str ''echo'' # ws"
    and c: "c = writer_color (sys_console (sh_sys st))"
  shows "\<exists>st'. shell_key doom (Unicode 0x0D) st = Inr st'
    \<and> at_prompt upper (ls @ [cells c (PROMPT @ line st), cells c (join_space ws)]) st' \<and> line st' = []"
proof -
  have p: "printable (trim (line st))" using st(1) set_trim [of "line st"] by (auto simp: at_prompt_def printable_def Let_def)
  have "shows_term upper (ls, cells c (PROMPT @ line st)) (sys_console (sh_sys st))"
    using st(1) c by (simp add: at_prompt_def Let_def)
  then obtain w1 where 1: "print_str [0x0A] st = Inr (st\<lparr>sh_sys := (sh_sys st)\<lparr>sys_console := w1\<rparr>\<rparr>)"
      "shows_term upper (term_string c [0x0A] (ls, cells c (PROMPT @ line st))) w1" "writer_color w1 = c"
    using c by (rule print_str_term)
  let ?s1 = "st\<lparr>sh_sys := (sh_sys st)\<lparr>sys_console := w1\<rparr>\<rparr>" and ?ls = "ls @ [cells c (PROMPT @ line st)]"
  have "shows_term upper (?ls, []) (sys_console (sh_sys ?s1))" "c = writer_color (sys_console (sh_sys ?s1))"
    using 1(2,3) by simp_all
  then obtain w2 where 2: "print_str (join_space ws @ [0x0A]) ?s1 = Inr (?s1\<lparr>sh_sys := (sh_sys ?s1)\<lparr>sys_console := w2\<rparr>\<rparr>)"
      "shows_term upper (term_string c (join_space ws @ [0x0A]) (?ls, [])) w2" "writer_color w2 = c"
    by (rule print_str_term)
  let ?s2 = "st\<lparr>sh_sys := (sh_sys st)\<lparr>sys_console := w2\<rparr>, line := []\<rparr>" and ?ls2 = "?ls @ [cells c (join_space ws)]"
  have "length (join_space ws) \<le> 80" using echo_words(2) [OF ws p] trim_length [of "line st"] st(2) by simp
  then have "term_string c (join_space ws @ [0x0A]) (?ls, []) = (?ls2, [])"
    using term_printable [OF echo_words(1) [OF ws p], of "[]"] by (simp add: term_append)
  then have "shows_term upper (?ls2, []) (sys_console (sh_sys ?s2))" "c = writer_color (sys_console (sh_sys ?s2))"
    using 2(2,3) by simp_all
  then obtain w3 where 3: "print_str PROMPT ?s2 = Inr (?s2\<lparr>sh_sys := (sh_sys ?s2)\<lparr>sys_console := w3\<rparr>\<rparr>)"
      "shows_term upper (term_string c PROMPT (?ls2, [])) w3" "writer_color w3 = c"
    by (rule print_str_term)
  have t: "term_string c PROMPT (?ls2, []) = (?ls2, cells c PROMPT)"
    using term_printable [OF PROMPT_facts(2), of "[]"] PROMPT_facts(1) by simp
  have "shell_key doom (Unicode 0x0D) st = Inr (?s2\<lparr>sh_sys := (sh_sys ?s2)\<lparr>sys_console := w3\<rparr>\<rparr>)"
    using 1(1) 2(1) 3(1) run_echo [OF ws p] by (simp add: shell_key_def println_str_def)
  with 3(2,3) t show ?thesis by (simp add: at_prompt_def)
qed

text \<open>
  C21. What is typed is what is run, and the screen shows both. From the prompt, for all keys that edit a line
  of at most 72 characters, with any number of corrections by backspace, and then Enter: if the first
  word of the edited line is \<open>echo\<close>, the terminal shows the prompt with exactly the edited line, below it the
  other words separated by single spaces, and a fresh prompt with an empty line; nothing above changes.
\<close>

theorem shell_echo:
  assumes "at_prompt upper ls st" and "line st = []" and "fits ks []"
    and "split_ws (trim (fold edit_key ks [])) = str ''echo'' # ws" and "c = writer_color (sys_console (sh_sys st))"
  shows "\<exists>st'. shell_keys doom (ks @ [Unicode 0x0D]) st = Inr st' \<and> line st' = []
    \<and> at_prompt upper (ls @ [cells c (PROMPT @ fold edit_key ks []), cells c (join_space ws)]) st'"
proof -
  have "fits ks (line st)" using assms(2,3) by simp
  with assms(1) obtain st1 where 1: "shell_keys doom ks st = Inr st1" "at_prompt upper ls st1" "line st1 = fold edit_key ks (line st)"
    "writer_color (sys_console (sh_sys st1)) = writer_color (sys_console (sh_sys st))"
    by (rule edit_steps)
  have "length (line st1) \<le> 72" using fits_length [OF assms(3)] 1(3) assms(2) by simp
  moreover have "split_ws (trim (line st1)) = str ''echo'' # ws" "c = writer_color (sys_console (sh_sys st1))"
    using assms(2,4,5) 1(3,4) by simp_all
  ultimately have "\<exists>st'. shell_key doom (Unicode 0x0D) st1 = Inr st'
    \<and> at_prompt upper (ls @ [cells c (PROMPT @ line st1), cells c (join_space ws)]) st' \<and> line st' = []"
    using enter_echo [OF 1(2)] by blast
  with 1(1,3) assms(2) show ?thesis by (auto simp: shell_keys_append)
qed

text \<open>
  C34. Erasing does not cross a wrapped line. When a line fills the row after the prompt, one more character wraps to the
  next row. Erasing it and one character more removes both from the line, but the screen keeps the
  second: the full row stays as it was and the cursor stays at the start of the row below, so that the
  screen shows a command that is not the one Enter would run.
\<close>

theorem shell_wrap_stale:
  assumes st: "at_prompt upper ls st" and len: "length (line st) = 72" and ch: "0x20 \<le> ch" "ch < 0x7F"
    and c: "c = writer_color (sys_console (sh_sys st))"
  shows "\<exists>st'. shell_keys doom [Unicode ch, RawBackspace, RawBackspace] st = Inr st' \<and> line st' = butlast (line st)
    \<and> shows_term upper (ls @ [cells c (PROMPT @ line st)], []) (sys_console (sh_sys st'))"
proof -
  let ?l = "line st" and ?b = "ucast ch :: u8" and ?ls = "ls @ [cells c (PROMPT @ line st)]"
  have k: "\<not> is_enter (Unicode ch)" "\<not> is_backspace (Unicode ch)" "typed (Unicode ch) = [?b]"
    using ch by (auto simp: word_le_nat_alt word_less_nat_alt)
  have b: "glyph ?b = ?b" "?b \<noteq> 0x0A" "?b \<noteq> 0x08"
    using typed_printable [of "Unicode ch"] ch printable_not_control [of ?b] by (simp_all add: printable_def glyph_def)
  have "shows_term upper (ls, cells c (PROMPT @ ?l)) (sys_console (sh_sys st))" using st c by (simp add: at_prompt_def Let_def)
  from this k(1) c obtain s1 where 1: "shell_key doom (Unicode ch) st = Inr s1" "line s1 = edit_key (Unicode ch) ?l"
    "shows_term upper (term_string c (key_echo (Unicode ch) ?l) (ls, cells c (PROMPT @ ?l))) (sys_console (sh_sys s1))"
    "c = writer_color (sys_console (sh_sys s1))"
    by (rule edit_key_term)
  have l1: "line s1 = ?l @ [?b]" using 1(2) k by (simp add: edit_key_def del: typed.simps is_backspace.simps)
  have "term_string c (key_echo (Unicode ch) ?l) (ls, cells c (PROMPT @ ?l)) = (?ls, cells c [?b])"
    using k b len by (simp add: key_echo_def term_string_def PROMPT_facts cells_def del: typed.simps is_backspace.simps)
  with 1(3) have "shows_term upper (?ls, cells c [?b]) (sys_console (sh_sys s1))" by simp
  moreover have raw: "\<not> is_enter RawBackspace" by simp
  ultimately obtain s2 where 2: "shell_key doom RawBackspace s1 = Inr s2" "line s2 = edit_key RawBackspace (line s1)"
    "shows_term upper (term_string c (key_echo RawBackspace (line s1)) (?ls, cells c [?b])) (sys_console (sh_sys s2))"
    "c = writer_color (sys_console (sh_sys s2))"
    using 1(4) by (rule edit_key_term)
  have l2: "line s2 = ?l" and ne: "?l \<noteq> []" using 2(2) l1 len by (auto simp: edit_key_def)
  have "shows_term upper (?ls, []) (sys_console (sh_sys s2))" using 2(3) l1 by (simp add: key_echo_def cells_def)
  from this raw 2(4) obtain s3 where 3: "shell_key doom RawBackspace s2 = Inr s3" "line s3 = edit_key RawBackspace (line s2)"
    "shows_term upper (term_string c (key_echo RawBackspace (line s2)) (?ls, [])) (sys_console (sh_sys s3))"
    "c = writer_color (sys_console (sh_sys s3))"
    by (rule edit_key_term)
  have "shows_term upper (?ls, []) (sys_console (sh_sys s3))" using 3(3) l2 ne by (simp add: key_echo_def)
  moreover have "line s3 = butlast ?l" using 3(2) l2 by (simp add: edit_key_def)
  ultimately show ?thesis using 1(1) 2(1) 3(1) by simp
qed

text \<open>The boot screen with a prompt and a line.\<close>

definition prompt_shell :: "u8 list \<Rightarrow> shell" where
  "prompt_shell l = boot_shell\<lparr>line := l, sh_sys := (sh_sys boot_shell)\<lparr>sys_console :=
     \<lparr>column_position = of_nat (8 + length l), writer_color = 0x0e,
      buffer = replicate 24 (pad 0x0e []) @ [pad 0x0e (cells 0x0e (PROMPT @ l))]\<rparr>\<rparr>\<rparr>"

lemma prompt_shell_ok:
  assumes "printable l" and "length l \<le> 72"
  shows "at_prompt (replicate 24 (pad 0x0e [])) [] (prompt_shell l)" "line (prompt_shell l) = l"
    "writer_color (sys_console (sh_sys (prompt_shell l))) = 0x0e"
proof -
  have "unat (of_nat (8 + length l) :: usize) = 8 + length l" using assms(2) by (simp add: unat_of_nat del: of_nat_add)
  then show "at_prompt (replicate 24 (pad 0x0e [])) [] (prompt_shell l)"
    using assms by (simp add: at_prompt_def prompt_shell_def boot_shell_def shows_term_def last_rows_def PROMPT_facts del: of_nat_add)
qed (simp_all add: prompt_shell_def)

theorem shell_echo_witness:
  "\<exists>st'. shell_keys True ([Unicode 0x65, Unicode 0x63, Unicode 0x68, Unicode 0x6F, Unicode 0x20, Unicode 0x6E, RawBackspace,
       Unicode 0x20, Unicode 0x68, Unicode 0x69] @ [Unicode 0x0D]) (prompt_shell []) = Inr st' \<and> line st' = []
    \<and> at_prompt (replicate 24 (pad 0x0e [])) ([] @ [cells 0x0e (PROMPT @ str ''echo  hi''), cells 0x0e (str ''hi'')]) st'"
proof -
  let ?ks = "[Unicode 0x65, Unicode 0x63, Unicode 0x68, Unicode 0x6F, Unicode 0x20, Unicode 0x6E, RawBackspace,
       Unicode 0x20, Unicode 0x68, Unicode 0x69]"
  have l: "fold edit_key ?ks [] = str ''echo  hi''" by (simp add: edit_key_def str_def)
  have "split_ws (trim (str ''echo  hi'')) = str ''echo'' # [str ''hi'']"
    by (simp add: str_def trim_def is_ws_def split_ws.simps)
  then have ws: "split_ws (trim (fold edit_key ?ks [])) = str ''echo'' # [str ''hi'']" unfolding l .
  have "fits ?ks []" by (simp add: edit_key_def)
  moreover have p: "printable []" "length ([] :: u8 list) \<le> 72" by simp_all
  ultimately show ?thesis
    using shell_echo [OF prompt_shell_ok(1) [OF p] prompt_shell_ok(2) [OF p] _ ws, where c = "0x0e" and doom = True]
    unfolding l by (simp add: prompt_shell_ok(3) [OF p])
qed

theorem shell_wrap_stale_witness:
  "\<exists>st'. shell_keys True [Unicode 0x62, RawBackspace, RawBackspace] (prompt_shell (replicate 72 0x61)) = Inr st'
    \<and> line st' = butlast (replicate 72 0x61)
    \<and> shows_term (replicate 24 (pad 0x0e [])) ([] @ [cells 0x0e (PROMPT @ replicate 72 0x61)], []) (sys_console (sh_sys st'))"
proof -
  have p: "printable (replicate 72 0x61)" "length (replicate 72 (0x61 :: u8)) \<le> 72" by (simp_all add: printable_def)
  show ?thesis
    using shell_wrap_stale [OF prompt_shell_ok(1) [OF p], where ch = "0x62" and c = "0x0e" and doom = True] prompt_shell_ok(2,3) [OF p] by simp
qed

end
