(* ===== verification/C_String.thy ===== *)
theory C_String
  imports Machine
begin

text \<open>
  The string functions that the kernel gives the Doom engine (\<open>src/ffi/stubs.c\<close>), on the byte-addressed memory,
  where a string is a pointer to bytes up to the first zero. A loop that only a zero byte ends is a
  partial function: \<open>None\<close> is a call that does not return.
\<close>

type_synonym ptr = u64

section \<open>Character classes\<close>

definition to_lower :: "int \<Rightarrow> int" where
  "to_lower c = (if 65 \<le> c \<and> c \<le> 90 then c + 32 else c)"

definition toupper :: "int \<Rightarrow> int" where
  "toupper c = (if 97 \<le> c \<and> c \<le> 122 then c - 32 else c)"

definition isdigit :: "int \<Rightarrow> bool" where
  "isdigit c \<longleftrightarrow> 48 \<le> c \<and> c \<le> 57"

definition isspace :: "int \<Rightarrow> bool" where
  "isspace c \<longleftrightarrow> c = 32 \<or> c = 9 \<or> c = 10 \<or> c = 13 \<or> c = 12 \<or> c = 11"

definition isprint :: "int \<Rightarrow> bool" where
  "isprint c \<longleftrightarrow> 32 \<le> c \<and> c < 127"

definition isalpha :: "int \<Rightarrow> bool" where
  "isalpha c \<longleftrightarrow> 97 \<le> c \<and> c \<le> 122 \<or> 65 \<le> c \<and> c \<le> 90"

definition isalnum :: "int \<Rightarrow> bool" where
  "isalnum c \<longleftrightarrow> isalpha c \<or> isdigit c"

text \<open>A \<open>char\<close> is signed: as an \<open>int\<close> it is the \<open>sint\<close> of its byte.\<close>

section \<open>The functions\<close>

partial_function (option) strlen_from :: "memory \<Rightarrow> ptr \<Rightarrow> u64 \<Rightarrow> u64 option" where
  "strlen_from m s n = (if m (s + n) \<noteq> 0 then strlen_from m s (n + 1) else Some n)"

definition strlen :: "memory \<Rightarrow> ptr \<Rightarrow> u64 option" where
  "strlen m s = strlen_from m s 0"

partial_function (option) strcmp :: "memory \<Rightarrow> ptr \<Rightarrow> ptr \<Rightarrow> int option" where
  "strcmp m a b =
     (if m a \<noteq> 0 \<and> m a = m b then strcmp m (a + 1) (b + 1)
      else Some (uint (m a) - uint (m b)))"

function strncmp :: "memory \<Rightarrow> ptr \<Rightarrow> ptr \<Rightarrow> u64 \<Rightarrow> int" where
  "strncmp m a b n =
     (if n \<noteq> 0 \<and> m a \<noteq> 0 \<and> m a = m b then strncmp m (a + 1) (b + 1) (n - 1)
      else if n - 1 = - 1 then 0 else uint (m a) - uint (m b))"
  by pat_completeness auto
termination
  by (relation "measure (\<lambda>(m, a, b, n). unat n)") (simp_all add: unat_minus_one unat_gt_0)

declare strncmp.simps [simp del]

partial_function (option) strcasecmp :: "memory \<Rightarrow> ptr \<Rightarrow> ptr \<Rightarrow> int option" where
  "strcasecmp m a b =
     (if m a \<noteq> 0 \<and> to_lower (sint (m a)) = to_lower (sint (m b)) then strcasecmp m (a + 1) (b + 1)
      else Some (to_lower (uint (m a)) - to_lower (uint (m b))))"

function strncasecmp :: "memory \<Rightarrow> ptr \<Rightarrow> ptr \<Rightarrow> u64 \<Rightarrow> int" where
  "strncasecmp m a b n =
     (if n \<noteq> 0 \<and> m a \<noteq> 0 \<and> to_lower (sint (m a)) = to_lower (sint (m b)) then strncasecmp m (a + 1) (b + 1) (n - 1)
      else if n - 1 = - 1 then 0 else to_lower (uint (m a)) - to_lower (uint (m b)))"
  by pat_completeness auto
termination
  by (relation "measure (\<lambda>(m, a, b, n). unat n)") (simp_all add: unat_minus_one unat_gt_0)

declare strncasecmp.simps [simp del]

lemma unat_next: "i < (n :: u64) \<Longrightarrow> unat (i + 1) = Suc (unat i)"
  using unat_add_no_ovf [of i 1] unat_bound [of n] by (simp add: word_less_nat_alt)

text \<open>The two loops of \<open>strncpy\<close>.\<close>

function copy_string :: "ptr \<Rightarrow> ptr \<Rightarrow> u64 \<Rightarrow> u64 \<Rightarrow> memory \<Rightarrow> u64 \<times> memory" where
  "copy_string dst src n i m =
     (if i < n \<and> m (src + i) \<noteq> 0 then copy_string dst src n (i + 1) (m(dst + i := m (src + i))) else (i, m))"
  by pat_completeness auto
termination
  by (relation "measure (\<lambda>(dst, src, n, i, m). unat n - unat i)")
    (auto simp: unat_next word_less_nat_alt)

declare copy_string.simps [simp del]

function zero_fill :: "ptr \<Rightarrow> u64 \<Rightarrow> u64 \<Rightarrow> memory \<Rightarrow> memory" where
  "zero_fill dst n i m = (if i < n then zero_fill dst n (i + 1) (m(dst + i := 0)) else m)"
  by pat_completeness auto
termination
  by (relation "measure (\<lambda>(dst, n, i, m). unat n - unat i)") (auto simp: unat_next word_less_nat_alt)

declare zero_fill.simps [simp del]

definition strncpy :: "ptr \<Rightarrow> ptr \<Rightarrow> u64 \<Rightarrow> memory \<Rightarrow> memory" where
  "strncpy dst src n m = (let (i, m) = copy_string dst src n 0 m in zero_fill dst n i m)"

text \<open>\<open>0\<close> is the null pointer.\<close>

partial_function (option) strchr :: "memory \<Rightarrow> ptr \<Rightarrow> int \<Rightarrow> ptr option" where
  "strchr m s c =
     (if m s \<noteq> 0 then if m s = word_of_int c then Some s else strchr m (s + 1) c
      else Some (if c = 0 then s else 0))"

partial_function (option) strrchr_from :: "memory \<Rightarrow> ptr \<Rightarrow> int \<Rightarrow> ptr \<Rightarrow> ptr option" where
  "strrchr_from m s c lst =
     (if m s \<noteq> 0 then strrchr_from m (s + 1) c (if m s = word_of_int c then s else lst) else Some lst)"

definition strrchr :: "memory \<Rightarrow> ptr \<Rightarrow> int \<Rightarrow> ptr option" where
  "strrchr m s c = strrchr_from m s c 0"

partial_function (option) strstr_from :: "memory \<Rightarrow> ptr \<Rightarrow> ptr \<Rightarrow> u64 \<Rightarrow> ptr option" where
  "strstr_from m haystack needle nlen =
     (if m haystack \<noteq> 0
      then if strncmp m haystack needle nlen = 0 then Some haystack else strstr_from m (haystack + 1) needle nlen
      else Some 0)"

definition strstr :: "memory \<Rightarrow> ptr \<Rightarrow> ptr \<Rightarrow> ptr option" where
  "strstr m haystack needle =
     Option.bind (strlen m needle) (\<lambda>nlen.
       if nlen = 0 then Some haystack else strstr_from m haystack needle nlen)"

section \<open>Strings in memory\<close>

fun cstr :: "memory \<Rightarrow> ptr \<Rightarrow> u8 list \<Rightarrow> bool" where
  "cstr m a [] \<longleftrightarrow> m a = 0"
| "cstr m a (x # xs) \<longleftrightarrow> m a = x \<and> x \<noteq> 0 \<and> cstr m (a + 1) xs"

lemma cstr_nth: "cstr m a s \<Longrightarrow> i < length s \<Longrightarrow> m (a + of_nat i) = s ! i \<and> s ! i \<noteq> 0"
proof (induction s arbitrary: a i)
  case (Cons x xs)
  then show ?case by (cases i) (auto simp: add.assoc [symmetric])
qed simp

lemma cstr_end: "cstr m a s \<Longrightarrow> m (a + of_nat (length s)) = 0"
  by (induction s arbitrary: a) (auto simp: add.assoc [symmetric])

lemma cstr_nonzero: "cstr m a s \<Longrightarrow> 0 \<notin> set s"
  by (induction s arbitrary: a) auto

lemma cstr_drop: "cstr m a s \<Longrightarrow> i \<le> length s \<Longrightarrow> cstr m (a + of_nat i) (drop i s)"
proof (induction s arbitrary: a i)
  case (Cons x xs)
  then show ?case by (cases i) (auto simp: add.assoc [symmetric])
qed simp

lemma cstr_length:
  assumes "cstr m a s"
  shows "length s < 2 ^ 64"
proof (rule ccontr)
  let ?i = "length s mod 2 ^ 64"
  assume "\<not> length s < 2 ^ 64"
  then have "?i < length s" by (simp add: mod_less_eq_dividend le_less_trans not_less)
  then have "m (a + of_nat ?i) \<noteq> 0" using cstr_nth [OF assms] by force
  moreover have "(of_nat ?i :: u64) = of_nat (length s)" by (rule word_unat_eq_iff [THEN iffD2]) (simp add: unat_of_nat)
  ultimately show False using cstr_end [OF assms] by simp
qed

lemma unat_cstr_length: "cstr m a s \<Longrightarrow> unat (of_nat (length s) :: u64) = length s"
  using cstr_length [of m a s] by (simp add: unat_of_nat)

section \<open>Length and comparison\<close>

lemma strlen_from_cstr: "cstr m (a + n) s \<Longrightarrow> strlen_from m a n = Some (n + of_nat (length s))"
proof (induction s arbitrary: n)
  case (Cons x xs)
  then have "cstr m (a + (n + 1)) xs" by (simp add: add.assoc)
  with Cons show ?case by (subst strlen_from.simps) (simp add: add.assoc)
qed (simp add: strlen_from.simps)

lemma strlen_cstr: "cstr m a s \<Longrightarrow> strlen m a = Some (of_nat (length s))"
  using strlen_from_cstr [of m a 0 s] by (simp add: strlen_def)

text \<open>The difference of the first bytes that differ; a string that ends counts as a zero.\<close>

fun diff :: "u8 list \<Rightarrow> u8 list \<Rightarrow> int" where
  "diff [] [] = 0"
| "diff [] (y # ys) = - uint y"
| "diff (x # xs) [] = uint x"
| "diff (x # xs) (y # ys) = (if x = y then diff xs ys else uint x - uint y)"

lemma diff_lex:
  "0 \<notin> set s \<Longrightarrow> 0 \<notin> set t \<Longrightarrow> (diff s t = 0 \<longleftrightarrow> s = t) \<and> (diff s t < 0 \<longleftrightarrow> ord_class.lexordp s t)"
proof (induction s t rule: diff.induct)
  case (4 x xs y ys)
  then show ?case by (auto simp: word_less_def word_uint_eq_iff)
qed (auto simp: word_uint_eq_iff less_le)

lemma strcmp_diff: "cstr m a s \<Longrightarrow> cstr m b t \<Longrightarrow> strcmp m a b = Some (diff s t)"
proof (induction s t arbitrary: a b rule: diff.induct)
  case (4 x xs y ys)
  then show ?case by (subst strcmp.simps) auto
qed (subst strcmp.simps; auto)+

lemma strncmp_diff: "cstr m a s \<Longrightarrow> cstr m b t \<Longrightarrow> strncmp m a b n = diff (take (unat n) s) (take (unat n) t)"
proof (induction s t arbitrary: a b n rule: diff.induct)
  case (4 x xs y ys)
  show ?case
  proof (cases "n = 0")
    case False
    then have "unat n = Suc (unat (n - 1))" by (simp add: unat_minus_one unat_gt_0)
    with 4 False show ?thesis by (subst strncmp.simps) auto
  qed (simp add: strncmp.simps)
qed (subst strncmp.simps; auto simp: take_Cons' unat_eq_0)+

text \<open>Ignoring case.\<close>

definition lower :: "u8 \<Rightarrow> u8" where
  "lower b = (if 65 \<le> b \<and> b \<le> 90 then b + 32 else b)"

lemma lower_uint: "to_lower (uint b) = uint (lower b)"
proof -
  have "uint (b + 32) = uint b + 32" if "b \<le> 90"
  proof -
    have "unat (b + 32) = unat b + 32" using that by (intro trans [OF unat_add_no_ovf]) (simp_all add: word_le_nat_alt)
    then have "int (unat (b + 32)) = int (unat b + 32)" by (rule arg_cong)
    then show ?thesis by simp
  qed
  then show ?thesis by (auto simp: to_lower_def lower_def word_le_def)
qed

lemma sint_byte: "sint (b :: u8) = (if uint b < 128 then uint b else uint b - 256)"
proof -
  have r: "0 \<le> uint b" "uint b < 256" using uint_bounded [of b] by simp_all
  moreover have "(uint b + 128) mod 256 = uint b - 128" if "\<not> uint b < 128"
    using r that mod_add_self2 [of "uint b - 128" 256] by (simp add: add.commute)
  ultimately show ?thesis by (auto simp: sint_uint signed_take_bit_eq_if_positive signed_take_bit_int_eq_self signed_take_bit_eq_take_bit_shift take_bit_int_def)
qed

lemma lower_signed:
  fixes x y :: int
  assumes "0 \<le> x" "x < 256" "0 \<le> y" "y < 256"
  shows "to_lower (if x < 128 then x else x - 256) = to_lower (if y < 128 then y else y - 256) \<longleftrightarrow> to_lower x = to_lower y"
  using assms by (auto simp: to_lower_def)

lemma lower_sint: "to_lower (sint a) = to_lower (sint b) \<longleftrightarrow> lower a = lower b"
proof -
  have "to_lower (sint a) = to_lower (sint b) \<longleftrightarrow> to_lower (uint a) = to_lower (uint b)"
    unfolding sint_byte by (rule lower_signed) (use uint_bounded [of a] uint_bounded [of b] in simp_all)
  then show ?thesis by (simp add: lower_uint word_uint_eq_iff [of "lower a"])
qed

lemma lower_zero: "lower b = 0 \<longleftrightarrow> b = 0" "lower 0 = 0"
proof -
  have "uint (lower b) = 0 \<longleftrightarrow> uint b = 0"
    using uint_bounded [of b] by (auto simp: lower_uint [symmetric] to_lower_def)
  then show "lower b = 0 \<longleftrightarrow> b = 0" by (simp add: word_uint_eq_iff)
qed (simp add: lower_def)

lemma lower_sint_zero: "to_lower 0 = 0" "to_lower (sint (b :: u8)) = 0 \<longleftrightarrow> b = 0" "0 = to_lower (sint b) \<longleftrightarrow> b = 0"
  using lower_sint [of b 0] lower_zero by (auto simp: to_lower_def)

lemmas lower_simps = lower_sint lower_uint lower_zero lower_sint_zero

lemma strcasecmp_diff: "cstr m a s \<Longrightarrow> cstr m b t \<Longrightarrow> strcasecmp m a b = Some (diff (map lower s) (map lower t))"
proof (induction s t arbitrary: a b rule: list_induct2')
  case (4 x xs y ys)
  then show ?case by (subst strcasecmp.simps) (auto simp: lower_simps)
qed (subst strcasecmp.simps; auto simp: lower_simps)+

lemma strncasecmp_diff:
  "cstr m a s \<Longrightarrow> cstr m b t \<Longrightarrow> strncasecmp m a b n = diff (map lower (take (unat n) s)) (map lower (take (unat n) t))"
proof (induction s t arbitrary: a b n rule: list_induct2')
  case (4 x xs y ys)
  show ?case
  proof (cases "n = 0")
    case False
    then have "unat n = Suc (unat (n - 1))" by (simp add: unat_minus_one unat_gt_0)
    with 4 False show ?thesis by (subst strncasecmp.simps) (auto simp: lower_simps)
  qed (simp add: strncasecmp.simps)
qed (subst strncasecmp.simps; auto simp: take_Cons' unat_eq_0 lower_simps)+

section \<open>Search\<close>

lemma position_map: "position P (map f xs) = position (\<lambda>x. P (f x)) xs"
  by (induction xs) simp_all

lemma position_upt_Suc: "position P [0..<Suc n] = (if P 0 then Some 0 else map_option Suc (position (\<lambda>i. P (Suc i)) [0..<n]))"
proof -
  have "[0..<Suc n] = 0 # map Suc [0..<n]" by (simp only: upt_conv_Cons map_Suc_upt zero_less_Suc if_True)
  then show ?thesis by (simp only: position.simps position_map)
qed

lemma position_append:
  "position P (xs @ ys) = (case position P xs of Some i \<Rightarrow> Some i | None \<Rightarrow> map_option (\<lambda>i. length xs + i) (position P ys))"
  by (cases "position P ys") (induction xs; auto split: option.splits)+

lemma strchr_cstr:
  "cstr m a s \<Longrightarrow> b \<noteq> 0 \<Longrightarrow>
     strchr m a (uint b) = Some (case position ((=) b) s of Some i \<Rightarrow> a + of_nat i | None \<Rightarrow> 0)"
proof (induction s arbitrary: a)
  case (Cons x xs)
  then show ?case by (subst strchr.simps) (auto simp: add.assoc split: option.splits)
qed (subst strchr.simps, simp add: word_uint_eq_iff)

lemma strrchr_from_cstr:
  "cstr m a s \<Longrightarrow> strrchr_from m a (uint b) lst = Some (case position ((=) b) (rev s) of
     Some i \<Rightarrow> a + of_nat (length s - 1 - i) | None \<Rightarrow> lst)"
proof (induction s arbitrary: a lst)
  case (Cons x xs)
  have *: "strrchr_from m a (uint b) lst = strrchr_from m (a + 1) (uint b) (if x = b then a else lst)"
    using Cons.prems by (subst strrchr_from.simps) simp
  show ?case
  proof (cases "position ((=) b) (rev xs)")
    case None
    then show ?thesis using Cons unfolding * by (auto simp: position_append)
  next
    case (Some i)
    then have "i < length xs" using position_Some [OF Some] by simp
    then have "length xs - i = Suc (length xs - 1 - i)" by simp
    with Some show ?thesis using Cons unfolding * by (auto simp: position_append add.assoc)
  qed
qed (subst strrchr_from.simps, simp)

lemma strrchr_zero: "cstr m a s \<Longrightarrow> strrchr m a 0 = Some 0"
proof -
  have "cstr m a s \<Longrightarrow> strrchr_from m a 0 lst = Some lst" for a lst
    by (induction s arbitrary: a) (subst strrchr_from.simps; simp)+
  then show "cstr m a s \<Longrightarrow> strrchr m a 0 = Some 0" by (simp add: strrchr_def)
qed

lemma strstr_from_cstr:
  assumes n: "cstr m n ns" "ns \<noteq> []"
  shows "cstr m a s \<Longrightarrow> strstr_from m a n (of_nat (length ns)) =
    Some (case position (\<lambda>i. take (length ns) (drop i s) = ns) [0..<length s] of Some i \<Rightarrow> a + of_nat i | None \<Rightarrow> 0)"
proof (induction s arbitrary: a)
  case (Cons x xs)
  have "0 \<notin> set (take (length ns) (x # xs))" using cstr_nonzero [OF Cons.prems] by (meson in_set_takeD)
  then have "diff (take (length ns) (x # xs)) ns = 0 \<longleftrightarrow> take (length ns) (x # xs) = ns"
    using diff_lex cstr_nonzero [OF n(1)] by blast
  then have "strncmp m a n (of_nat (length ns)) = 0 \<longleftrightarrow> take (length ns) (x # xs) = ns"
    using strncmp_diff [OF Cons.prems n(1), of "of_nat (length ns)"] unat_cstr_length [OF n(1)] by simp
  moreover have "position (\<lambda>i. take (length ns) (drop i (x # xs)) = ns) [0..<length (x # xs)] =
      (if take (length ns) (x # xs) = ns then Some 0 else map_option Suc (position (\<lambda>i. take (length ns) (drop i xs) = ns) [0..<length xs]))"
    using position_upt_Suc by simp
  ultimately show ?case using Cons by (subst strstr_from.simps) (auto simp: add.assoc split: option.splits)
qed (subst strstr_from.simps, use n(2) in simp)

lemma strstr_cstr:
  assumes "cstr m a s" and "cstr m n ns" and "ns \<noteq> []"
  shows "strstr m a n =
    Some (case position (\<lambda>i. take (length ns) (drop i s) = ns) [0..<length s] of Some i \<Rightarrow> a + of_nat i | None \<Rightarrow> 0)"
proof -
  have "(of_nat (length ns) :: u64) \<noteq> 0" using unat_cstr_length [OF assms(2)] assms(3) by (metis length_0_conv unat_0)
  then show ?thesis using strstr_from_cstr [OF assms(2,3,1)] strlen_cstr [OF assms(2)] by (simp add: strstr_def)
qed

section \<open>Copying\<close>

text \<open>The addresses from \<open>a\<close> on, \<open>n\<close> of them.\<close>

definition span :: "ptr \<Rightarrow> nat \<Rightarrow> ptr set" where
  "span a n = (\<lambda>i. a + of_nat i) ` {..<n}"

lemma span_Suc: "span a (Suc n) = insert a (span (a + 1) n)"
  by (auto simp: span_def lessThan_Suc_eq_insert_0 image_image add.assoc)

lemma span_mem: "i < n \<Longrightarrow> a + of_nat i \<in> span a n"
  by (auto simp: span_def)

lemma span_next: "n < 2 ^ 64 \<Longrightarrow> a \<notin> span (a + 1) n"
proof
  assume n: "n < 2 ^ 64" and "a \<in> span (a + 1) n"
  then obtain i where i: "i < n" "a = a + 1 + of_nat i" by (auto simp: span_def)
  then have "(of_nat (Suc i) :: u64) = 0" by (simp add: add.assoc)
  then have "unat (of_nat (Suc i) :: u64) = 0" by simp
  with i(1) n show False by (simp add: unat_of_nat del: of_nat_Suc)
qed

lemma cstr_cong: "cstr m a s \<Longrightarrow> (\<And>x. x \<in> span a (Suc (length s)) \<Longrightarrow> m' x = m x) \<Longrightarrow> cstr m' a s"
proof (induction s arbitrary: a)
  case (Cons x xs)
  show ?case using Cons.IH [of "a + 1"] Cons.prems by (auto simp: span_Suc [of a])
qed (simp add: span_def)

text \<open>Bytes written one after the other.\<close>

fun poke :: "ptr \<Rightarrow> u8 list \<Rightarrow> memory \<Rightarrow> memory" where
  "poke a [] m = m"
| "poke a (x # xs) m = poke (a + 1) xs (m(a := x))"

declare poke.simps(2) [simp del]

lemma poke_Cons [simp]: "poke a (x # xs) m = poke (a + 1) xs (m(a := x))"
  by (simp add: poke.simps(2) fun_upd_def)

lemma poke_append: "poke a (xs @ ys) m = poke (a + of_nat (length xs)) ys (poke a xs m)"
  by (induction xs arbitrary: a m) (simp_all add: add.assoc)

lemma poke_other: "x \<notin> span a (length xs) \<Longrightarrow> poke a xs m x = m x"
  by (induction xs arbitrary: a m) (auto simp: span_Suc)

lemma poke_nth: "length xs \<le> 2 ^ 64 \<Longrightarrow> i < length xs \<Longrightarrow> poke a xs m (a + of_nat i) = xs ! i"
proof (induction xs arbitrary: a m i)
  case (Cons x xs)
  show ?case
  proof (cases i)
    case 0
    have "length xs < 2 ^ 64" using Cons.prems(1) by simp
    with 0 show ?thesis using poke_other [OF span_next, of xs a] by simp
  next
    case (Suc j)
    with Cons.IH [of j "a + 1"] Cons.prems show ?thesis by (simp add: add.assoc)
  qed
qed simp

lemma cstr_poke:
  assumes "0 \<notin> set xs" and "length xs < 2 ^ 64"
  shows "cstr (poke a (xs @ [0]) m) a xs"
  using assms
proof (induction xs arbitrary: a m)
  case (Cons x xs)
  have "poke a ((x # xs) @ [0]) m a = x" using poke_nth [of "(x # xs) @ [0]" 0 a m] Cons.prems by simp
  then show ?case using Cons by simp
qed simp

lemma span_word: "i < n \<Longrightarrow> a + i \<in> span a (unat n)"
  using span_mem [of "unat i" "unat n" a] by (simp add: word_less_nat_alt)

lemma unat_left: "i < (n :: u64) \<Longrightarrow> unat n - unat i = Suc (unat n - unat (i + 1))"
  by (simp add: unat_next word_less_nat_alt)

lemma copy_string_poke:
  "cstr m (src + i) t \<Longrightarrow> span dst (unat n) \<inter> span (src + i) (Suc (length t)) = {} \<Longrightarrow> i \<le> n \<Longrightarrow>
     copy_string dst src n i m = (i + of_nat (min (length t) (unat n - unat i)), poke (dst + i) (take (unat n - unat i) t) m)"
proof (induction t arbitrary: i m)
  case (Cons x xs)
  show ?case
  proof (cases "i < n")
    case True
    let ?m = "m(dst + i := x)"
    have src: "cstr m (src + (i + 1)) xs" and x: "m (src + i) = x" "x \<noteq> 0" using Cons.prems(1) by (simp_all add: add.assoc)
    have dis: "span dst (unat n) \<inter> span (src + (i + 1)) (Suc (length xs)) = {}"
      using Cons.prems(2) by (auto simp: span_Suc [of "src + i"] add.assoc)
    have "?m y = m y" if "y \<in> span (src + (i + 1)) (Suc (length xs))" for y
      using dis span_word [OF True, of dst] that by (metis disjoint_iff fun_upd_other)
    with src have "cstr ?m (src + (i + 1)) xs" by (rule cstr_cong)
    moreover have "i + 1 \<le> n" using True unat_next [OF True] by (simp add: word_le_nat_alt word_less_nat_alt)
    ultimately have "copy_string dst src n (i + 1) ?m
        = (i + 1 + of_nat (min (length xs) (unat n - unat (i + 1))), poke (dst + (i + 1)) (take (unat n - unat (i + 1)) xs) ?m)"
      using Cons.IH dis by blast
    then show ?thesis
      using True x by (subst copy_string.simps) (simp add: unat_left add.assoc)
  next
    case False
    with Cons.prems(3) show ?thesis by (subst copy_string.simps) simp
  qed
qed (subst copy_string.simps, simp)

lemma zero_fill_poke: "i \<le> n \<Longrightarrow> zero_fill dst n i m = poke (dst + i) (replicate (unat n - unat i) 0) m"
proof (induction dst n i m rule: zero_fill.induct)
  case (1 dst n i m)
  show ?case
  proof (cases "i < n")
    case True
    moreover have "i + 1 \<le> n" using True unat_next [OF True] by (simp add: word_le_nat_alt word_less_nat_alt)
    ultimately show ?thesis using 1 by (subst zero_fill.simps) (simp add: unat_left add.assoc fun_upd_def)
  next
    case False
    with 1(2) show ?thesis by (subst zero_fill.simps) simp
  qed
qed

text \<open>\<open>strncpy\<close> fills exactly \<open>n\<close> bytes, with the string, cut if it is longer, and zeros.\<close>

lemma strncpy_poke:
  assumes "cstr m src s" and "span dst (unat n) \<inter> span src (Suc (length s)) = {}"
  shows "strncpy dst src n m = poke dst (take (unat n) (s @ replicate (unat n) 0)) m"
proof -
  let ?k = "min (length s) (unat n)"
  have "unat (of_nat ?k :: u64) = ?k" using unat_bound [of n] by (simp add: unat_of_nat min_def)
  moreover from this have "(of_nat ?k :: u64) \<le> n" by (simp add: word_le_nat_alt)
  moreover have "unat n - ?k = unat n - length s" by simp
  ultimately show ?thesis
    using assms copy_string_poke [of m src 0 s dst n] zero_fill_poke [of "of_nat ?k" n dst "poke dst (take (unat n) s) m"]
    by (simp add: strncpy_def poke_append min.commute)
qed

section \<open>Properties\<close>

text \<open>
  C19. The comparisons order strings. For strings anywhere in memory, \<open>strcmp\<close> returns zero exactly on equal
  strings and a negative number exactly when the first comes first in the dictionary order of their bytes;
  \<open>strncmp\<close> does the same for the first \<open>n\<close> bytes, and \<open>strcasecmp\<close> and \<open>strncasecmp\<close> for the strings with
  capital letters made small. The engine looks up its data by these.
\<close>

theorem string_order:
  assumes "cstr m a s" and "cstr m b t"
  shows "\<exists>d e. strcmp m a b = Some d \<and> (d = 0 \<longleftrightarrow> s = t) \<and> (d < 0 \<longleftrightarrow> ord_class.lexordp s t)
    \<and> strcasecmp m a b = Some e \<and> (e = 0 \<longleftrightarrow> map lower s = map lower t)
    \<and> (e < 0 \<longleftrightarrow> ord_class.lexordp (map lower s) (map lower t))
    \<and> (strncmp m a b n = 0 \<longleftrightarrow> take (unat n) s = take (unat n) t)
    \<and> (strncmp m a b n < 0 \<longleftrightarrow> ord_class.lexordp (take (unat n) s) (take (unat n) t))
    \<and> (strncasecmp m a b n = 0 \<longleftrightarrow> map lower (take (unat n) s) = map lower (take (unat n) t))
    \<and> (strncasecmp m a b n < 0 \<longleftrightarrow> ord_class.lexordp (map lower (take (unat n) s)) (map lower (take (unat n) t)))"
proof -
  have nz: "0 \<notin> set s" "0 \<notin> set t" using assms cstr_nonzero by blast+
  then have tk: "0 \<notin> set (take (unat n) s)" "0 \<notin> set (take (unat n) t)" by (meson in_set_takeD)+
  have lo: "0 \<notin> set (map lower u)" if "0 \<notin> set u" for u using that lower_zero by auto
  show ?thesis
    using strcmp_diff [OF assms] diff_lex [OF nz] strcasecmp_diff [OF assms] diff_lex [OF lo [OF nz(1)] lo [OF nz(2)]]
      strncmp_diff [OF assms, of n] diff_lex [OF tk] strncasecmp_diff [OF assms, of n] diff_lex [OF lo [OF tk(1)] lo [OF tk(2)]]
    by simp
qed

theorem string_order_witness:
  "\<exists>d. strcmp (poke 100 [0x57, 0x41, 0x44, 0] (\<lambda>_. 0)) 100 101 = Some d \<and> d > 0"
proof -
  let ?m = "poke 100 [0x57, 0x41, 0x44, 0] (\<lambda>_. 0)"
  have s: "cstr ?m 100 [0x57, 0x41, 0x44]" "cstr ?m 101 [0x41, 0x44]" by simp_all
  have "\<not> ord_class.lexordp [0x57, 0x41, 0x44 :: u8] [0x41, 0x44]" by simp
  with string_order [OF s] show ?thesis by fastforce
qed

end
