(* ===== verification/C_Heap.thy ===== *)
theory C_Heap
  imports C_String Fixed_Block
begin

text \<open>
  The heap of the Doom engine: \<open>malloc\<close> and its relatives (\<open>src/ffi/stubs.c\<close>) on the kernel's allocator, through
  \<open>rust_alloc\<close> and \<open>rust_free\<close> (\<open>src/ffi/mod.rs\<close>). A header of 16 bytes in front of every block holds its
  size. The memory is what the C code reads and writes; the pointers that the allocator keeps in free
  blocks are part of the allocator's state.
\<close>

section \<open>The functions\<close>

definition rust_alloc :: "(Layout \<Rightarrow> 'h \<Rightarrow> usize option \<times> 'h) \<Rightarrow> usize \<Rightarrow> usize \<Rightarrow> 'h FixedSizeBlockAllocator
    \<Rightarrow> (usize \<times> 'h FixedSizeBlockAllocator) res" where
  "rust_alloc aff sz al h =
     (case from_size_align sz al of
        None \<Rightarrow> Inl (Explicit ''called Result::unwrap() on an Err value'')
      | Some layout \<Rightarrow> fixed_alloc aff layout h)"

definition rust_free :: "(usize \<Rightarrow> Layout \<Rightarrow> 'h \<Rightarrow> 'h) \<Rightarrow> usize \<Rightarrow> usize \<Rightarrow> usize \<Rightarrow> 'h FixedSizeBlockAllocator
    \<Rightarrow> 'h FixedSizeBlockAllocator res" where
  "rust_free dea p sz al h =
     (case from_size_align sz al of
        None \<Rightarrow> Inl (Explicit ''called Result::unwrap() on an Err value'')
      | Some layout \<Rightarrow> fixed_dealloc dea p layout h)"

definition rust_realloc :: "(Layout \<Rightarrow> 'h \<Rightarrow> usize option \<times> 'h) \<Rightarrow> (usize \<Rightarrow> Layout \<Rightarrow> 'h \<Rightarrow> 'h) \<Rightarrow> usize \<Rightarrow> usize \<Rightarrow> usize \<Rightarrow> usize \<Rightarrow>
    'h FixedSizeBlockAllocator \<Rightarrow> memory \<Rightarrow> (usize \<times> 'h FixedSizeBlockAllocator \<times> memory) res" where
  "rust_realloc aff dea p old_size al new_size h m =
     (case from_size_align old_size al of
        None \<Rightarrow> Inl (Explicit ''called Result::unwrap() on an Err value'')
      | Some layout \<Rightarrow> fixed_realloc aff dea p layout new_size h m)"

definition MALLOC_HDR :: u64 where "MALLOC_HDR = 16"

type_synonym 'h cheap = "'h FixedSizeBlockAllocator \<times> memory"

definition malloc :: "(Layout \<Rightarrow> 'h \<Rightarrow> usize option \<times> 'h) \<Rightarrow> u64 \<Rightarrow> 'h cheap \<Rightarrow> (ptr \<times> 'h cheap) res" where
  "malloc aff sz = (\<lambda>(h, m).
     let sz = (if sz = 0 then 1 else sz) in
     rbind (rust_alloc aff (sz + MALLOC_HDR) 16 h) (\<lambda>(raw, h).
       if raw = 0 then Inr (0, h, m) else Inr (raw + MALLOC_HDR, h, write64 m raw sz)))"

definition free :: "(usize \<Rightarrow> Layout \<Rightarrow> 'h \<Rightarrow> 'h) \<Rightarrow> ptr \<Rightarrow> 'h cheap \<Rightarrow> 'h cheap res" where
  "free dea p = (\<lambda>(h, m).
     if p = 0 then Inr (h, m)
     else let raw = p - MALLOC_HDR; sz = read64 m raw in
          rbind (rust_free dea raw (sz + MALLOC_HDR) 16 h) (\<lambda>h. Inr (h, m)))"

definition memset :: "ptr \<Rightarrow> u8 \<Rightarrow> u64 \<Rightarrow> memory \<Rightarrow> memory" where
  "memset p c n m = (\<lambda>a. if a - p < n then c else m a)"

definition calloc :: "(Layout \<Rightarrow> 'h \<Rightarrow> usize option \<times> 'h) \<Rightarrow> u64 \<Rightarrow> u64 \<Rightarrow> 'h cheap \<Rightarrow> (ptr \<times> 'h cheap) res" where
  "calloc aff nmemb sz st =
     (let n = nmemb * sz in
      rbind (malloc aff n st) (\<lambda>(p, h, m). Inr (p, h, if p \<noteq> 0 then memset p 0 n m else m)))"

definition c_realloc :: "(Layout \<Rightarrow> 'h \<Rightarrow> usize option \<times> 'h) \<Rightarrow> (usize \<Rightarrow> Layout \<Rightarrow> 'h \<Rightarrow> 'h) \<Rightarrow> ptr \<Rightarrow> u64 \<Rightarrow> 'h cheap \<Rightarrow> (ptr \<times> 'h cheap) res" where
  "c_realloc aff dea p new_size st =
     (if p = 0 then malloc aff new_size st
      else if new_size = 0 then rbind (free dea p st) (\<lambda>st. Inr (0, st))
      else let old_size = read64 (snd st) (p - MALLOC_HDR) in
           rbind (malloc aff new_size st) (\<lambda>(n, h, m).
             if n = 0 then Inr (0, h, m)
             else let m = copy_bytes p n (if old_size < new_size then old_size else new_size) m in
                  rbind (free dea p (h, m)) (\<lambda>st. Inr (n, st))))"

definition strdup :: "(Layout \<Rightarrow> 'h \<Rightarrow> usize option \<times> 'h) \<Rightarrow> ptr \<Rightarrow> 'h cheap \<Rightarrow> (ptr \<times> 'h cheap) res option" where
  "strdup aff s st =
     map_option (\<lambda>len. let n = len + 1 in
       rbind (malloc aff n st) (\<lambda>(p, h, m). Inr (p, h, if p \<noteq> 0 then copy_bytes s p n m else m))) (strlen (snd st) s)"

definition I_ZoneBase :: "(Layout \<Rightarrow> 'h \<Rightarrow> usize option \<times> 'h) \<Rightarrow> 'h cheap \<Rightarrow> (ptr \<times> u64 \<times> 'h cheap) res" where
  "I_ZoneBase aff st = (let sz = 4 * 1024 * 1024 in rbind (malloc aff sz st) (\<lambda>(p, st). Inr (p, sz, st)))"

section \<open>The heap contract\<close>

text \<open>The block behind a pointer that \<open>malloc\<close> returned.\<close>

definition raw_layout :: "u64 \<Rightarrow> Layout" where
  "raw_layout n = \<lparr>lay_size = n + MALLOC_HDR, lay_align = 16\<rparr>"

definition raw_of :: "ptr \<times> Layout \<Rightarrow> usize \<times> Layout" where
  "raw_of x = (fst x - MALLOC_HDR, raw_layout (lay_size (snd x)))"

text \<open>The requests it serves: any alignment up to 16.\<close>

definition c_request :: "(Layout \<Rightarrow> bool) \<Rightarrow> Layout \<Rightarrow> bool" where
  "c_request request l \<longleftrightarrow> valid_request l \<and> lay_align l \<le> 16 \<and> fixed_request request (raw_layout (lay_size l))"

text \<open>The pointers handed out, with other allocations \<open>rest\<close> of the kernel on the same heap.\<close>

definition c_inv :: "('h \<Rightarrow> live \<Rightarrow> bool) \<Rightarrow> live \<Rightarrow> 'h cheap \<Rightarrow> live \<Rightarrow> bool" where
  "c_inv hinv rest st live \<longleftrightarrow>
     fixed_inv hinv (fst st) (map raw_of live @ rest)
     \<and> (\<forall>(p, l) \<in> set live. valid_request l \<and> lay_align l \<le> 16 \<and> read64 (snd st) (p - MALLOC_HDR) = lay_size l)"

text \<open>The client writes into its blocks.\<close>

definition c_write :: "(usize \<Rightarrow> usize option) \<times> memory \<Rightarrow> live \<Rightarrow> 'h cheap \<Rightarrow> 'h cheap" where
  "c_write w live st =
     (fixed_write (fst w) (map raw_of live) (fst st),
      \<lambda>a. if list_ex (\<lambda>(p, l). a - p < lay_size l) live then snd w a else snd st a)"

lemma valid_size:
  assumes "valid_request l"
  shows "unat (lay_size l + MALLOC_HDR) = unat (lay_size l) + 16" and "0 < unat (lay_size l)" and "unat (lay_size l) \<le> 2 ^ 63"
proof -
  obtain k where "unat (lay_size l) + 2 ^ k \<le> 2 ^ 63" using layout_okE assms by (metis valid_request_def)
  then show b: "unat (lay_size l) \<le> 2 ^ 63" by linarith
  then show "unat (lay_size l + MALLOC_HDR) = unat (lay_size l) + 16" by (simp add: MALLOC_HDR_def unat_add_no_ovf)
  show "0 < unat (lay_size l)" using assms by (simp add: valid_request_def word_less_nat_alt)
qed

lemma raw_layout_Some: "valid_request (raw_layout n) \<Longrightarrow> from_size_align (n + MALLOC_HDR) 16 = Some (raw_layout n)"
  by (simp add: raw_layout_def from_size_align_Some valid_request_def)

text \<open>Word differences of addresses.\<close>

lemma word_gap:
  fixes a b :: u64
  assumes "unat a + k \<le> unat b" and "unat b + k \<le> 2 ^ 64" and "n \<le> of_nat k" and "k < 2 ^ 64"
  shows "n \<le> b - a" and "n \<le> a - b"
proof -
  have k: "unat n \<le> k" using assms(3,4) by (simp add: word_le_nat_alt unat_of_nat)
  have ba: "unat (b - a) = unat b - unat a" using assms(1) by (intro unat_sub) (simp add: word_le_nat_alt)
  show "n \<le> b - a" using k assms(1) by (simp add: word_le_nat_alt ba)
  show "n \<le> a - b"
  proof (cases "n = 0")
    case False
    then have "0 < k" using k by (metis gr0I le_zero_eq unat_eq_zero)
    then have "b - a \<noteq> 0" using assms(1) ba by auto
    then have "unat (- (b - a)) = 2 ^ 64 - (unat b - unat a)" using unat_uminus [of "b - a"] ba by simp
    then show ?thesis using k assms(1,2) by (simp add: word_le_nat_alt)
  qed simp
qed

lemma blocks_sep8:
  assumes "bytes (a, na) \<inter> bytes (b, nb) = {}" and "8 \<le> unat na" "8 \<le> unat nb"
    and "unat a + unat na \<le> 2 ^ 63" "unat b + unat nb \<le> 2 ^ 63"
  shows "sep8 a b"
proof -
  have "unat a \<notin> bytes (b, nb)" "unat b \<notin> bytes (a, na)" using assms(1-3) by (auto simp: bytes_def)
  then consider "unat a + unat na \<le> unat b" | "unat b + unat nb \<le> unat a" by (auto simp: bytes_def)
  then show ?thesis
  proof cases
    case 1
    with assms show ?thesis unfolding sep8_def by (intro conjI word_gap [of _ 8]) simp_all
  next
    case 2
    with assms show ?thesis unfolding sep8_def by (intro conjI word_gap [of _ 8]) simp_all
  qed
qed

lemma read64_cong: "(\<And>i. i < 8 \<Longrightarrow> m (a + of_nat i) = m' (a + of_nat i)) \<Longrightarrow> read64 m a = read64 m' a"
  unfolding read64_def by (rule foldr_cong) auto

lemma disjoint_in_pair: "disjoint_in H bs \<Longrightarrow> a \<in> set bs \<Longrightarrow> b \<in> set bs \<Longrightarrow> a \<noteq> b \<Longrightarrow> bytes a \<inter> bytes b = {}"
  by (induction bs) (auto simp: disjoint_in_Cons)

lemma raw_block_mem:
  "(p, l) \<in> set live \<Longrightarrow> (p - MALLOC_HDR, lay_size l + MALLOC_HDR) \<in> set (map live_block (map raw_of live @ rest))"
  by (force simp: raw_of_def raw_layout_def)

lemma cstr_shift: "cstr m a s \<Longrightarrow> (\<And>i. i \<le> length s \<Longrightarrow> m' (b + of_nat i) = m (a + of_nat i)) \<Longrightarrow> cstr m' b s"
proof (induction s arbitrary: a b)
  case Nil
  then show ?case using Nil.prems(2) [of 0] by simp
next
  case (Cons x s)
  have "m' (b + 1 + of_nat i) = m (a + 1 + of_nat i)" if "i \<le> length s" for i
    using Cons.prems(2) [of "Suc i"] that by (simp add: add.assoc)
  with Cons.IH [of "a + 1" "b + 1"] Cons.prems(1) Cons.prems(2) [of 0] show ?case by simp
qed

lemma fixed_write_part:
  "\<exists>w'. fixed_write w xs h = fixed_write w' (xs @ ys) h"
  by (rule exI [of _ "\<lambda>a. if list_ex (\<lambda>(p, l). unat a < unat p + unat (lay_size l) \<and> unat p < unat a + 8) xs then w a else block_nodes h a"])
    (simp add: fixed_write_def fun_eq_iff)

locale c_heap = fallback_heap +
  fixes rest :: live
  assumes H_bound: "H \<subseteq> {..< 2 ^ 63}"
begin

lemma c_facts:
  assumes "c_inv hinv rest st live" and "(p, l) \<in> set live"
  shows "unat p = unat (p - MALLOC_HDR) + 16" and "unat (p - MALLOC_HDR) + 16 + unat (lay_size l) \<le> 2 ^ 63"
    and "16 dvd unat (p - MALLOC_HDR)" and "valid_request l" and "bytes (live_block (raw_of (p, l))) \<subseteq> H"
proof -
  note inv = fixed_inv_live [OF assms(1) [unfolded c_inv_def, THEN conjunct1]]
  show v: "valid_request l" using assms by (auto simp: c_inv_def)
  have mem: "raw_of (p, l) \<in> set (map raw_of live @ rest)" using assms(2) by auto
  show H: "bytes (live_block (raw_of (p, l))) \<subseteq> H" using inv mem by (auto simp: disjoint_in_def)
  have "unat (p - MALLOC_HDR) + 16 + unat (lay_size l) - 1 \<in> bytes (live_block (raw_of (p, l)))"
    using valid_size [OF v] by (auto simp: bytes_def raw_of_def raw_layout_def)
  then have "unat (p - MALLOC_HDR) + 16 + unat (lay_size l) - 1 < 2 ^ 63" using H H_bound by blast
  then show b: "unat (p - MALLOC_HDR) + 16 + unat (lay_size l) \<le> 2 ^ 63" by simp
  have "unat (p - MALLOC_HDR + MALLOC_HDR) = unat (p - MALLOC_HDR) + 16"
    using b by (subst unat_add_no_ovf) (simp_all add: MALLOC_HDR_def)
  then show "unat p = unat (p - MALLOC_HDR) + 16" by simp
  have "live_ok (raw_of (p, l))" using inv mem unfolding list_all_iff by blast
  then show "16 dvd unat (p - MALLOC_HDR)" by (simp add: live_ok_def raw_of_def raw_layout_def)
qed

lemma c_block:
  assumes "c_inv hinv rest st live" and "(p, l) \<in> set live"
  shows "8 \<le> unat (lay_size l + MALLOC_HDR)" and "unat (p - MALLOC_HDR) + unat (lay_size l + MALLOC_HDR) \<le> 2 ^ 63"
  unfolding valid_size(1) [OF c_facts(4) [OF assms]] using c_facts(2) [OF assms] by linarith+

lemma c_apart:
  assumes "c_inv hinv rest st live" and "(p, l) \<in> set live" and "(q, l') \<in> set live" and "p \<noteq> q"
  shows "bytes (p - MALLOC_HDR, lay_size l + MALLOC_HDR) \<inter> bytes (q - MALLOC_HDR, lay_size l' + MALLOC_HDR) = {}"
proof (rule disjoint_in_pair)
  show "disjoint_in H (map live_block (map raw_of live @ rest))"
    using fixed_inv_live [OF assms(1) [unfolded c_inv_def, THEN conjunct1]] by blast
  show "(p - MALLOC_HDR, lay_size l + MALLOC_HDR) \<in> set (map live_block (map raw_of live @ rest))"
    "(q - MALLOC_HDR, lay_size l' + MALLOC_HDR) \<in> set (map live_block (map raw_of live @ rest))"
    using raw_block_mem assms(2,3) by blast+
qed (use assms(4) in simp)

lemma malloc_spec:
  assumes inv: "c_inv hinv rest st live" and l: "c_request request l"
  shows "\<exists>p st'. malloc aff (lay_size l) st = Inr (p, st') \<and> c_inv hinv rest st' (if p = 0 then live else (p, l) # live)
    \<and> snd st' = (if p = 0 then snd st else write64 (snd st) (p - MALLOC_HDR) (lay_size l))"
proof -
  obtain h m where st: "st = (h, m)" by force
  let ?sz = "lay_size l"
  have v: "valid_request l" and r: "fixed_request request (raw_layout ?sz)" and al: "lay_align l \<le> 16" using l by (simp_all add: c_request_def)
  have sz: "?sz \<noteq> 0" using valid_size(2) [OF v] by auto
  have some: "from_size_align (?sz + MALLOC_HDR) 16 = Some (raw_layout ?sz)" using r by (simp add: raw_layout_Some fixed_request_def)
  have fi: "fixed_inv hinv h (map raw_of live @ rest)" using inv by (simp add: c_inv_def st)
  obtain raw h' where a: "fixed_alloc aff (raw_layout ?sz) h = Inr (raw, h')"
    "fixed_inv hinv h' (if raw = 0 then map raw_of live @ rest else (raw, raw_layout ?sz) # map raw_of live @ rest)"
    using fixed_alloc_law [OF fi r] by auto
  show ?thesis
  proof (cases "raw = 0")
    case True
    with a inv some sz show ?thesis by (simp add: malloc_def rust_alloc_def st c_inv_def)
  next
    case False
    let ?p = "raw + MALLOC_HDR" and ?m = "write64 m raw ?sz"
    have ro: "raw_of (?p, l) = (raw, raw_layout ?sz)" by (simp add: raw_of_def)
    have fi': "fixed_inv hinv h' (map raw_of ((?p, l) # live) @ rest)" using a(2) False by (simp add: ro)
    have d: "disjoint_in H ((raw, ?sz + MALLOC_HDR) # map live_block (map raw_of live @ rest))"
      using fixed_inv_live [OF fi'] by (simp add: ro raw_layout_def)
    have "read64 ?m (q - MALLOC_HDR) = lay_size l'" if q: "(q, l') \<in> set live" for q l'
    proof -
      have "bytes (raw, ?sz + MALLOC_HDR) \<inter> bytes (q - MALLOC_HDR, lay_size l' + MALLOC_HDR) = {}"
        using d raw_block_mem [OF q, of rest] unfolding disjoint_in_Cons by blast
      moreover have "bytes (raw, ?sz + MALLOC_HDR) \<subseteq> {..< 2 ^ 63}"
        using d H_bound unfolding disjoint_in_Cons by blast
      then have "unat raw + unat (?sz + MALLOC_HDR) \<le> 2 ^ 63" "8 \<le> unat (?sz + MALLOC_HDR)"
        unfolding valid_size(1) [OF v] by (auto simp: bytes_def valid_size(1) [OF v] dest!: subsetD [of _ _ "unat raw + unat ?sz + 15"])
      ultimately have "sep8 raw (q - MALLOC_HDR)" using c_block [OF inv q] by (intro blocks_sep8)
      then show ?thesis using inv q by (auto simp: read64_write64_sep c_inv_def st)
    qed
    then have ci: "c_inv hinv rest (h', ?m) ((?p, l) # live)"
      using fi' inv v al by (auto simp: c_inv_def)
    have "?p \<noteq> 0" using c_facts(1) [OF ci, of ?p l] by auto
    with ci a(1) some sz False show ?thesis by (simp add: malloc_def rust_alloc_def st)
  qed
qed

lemma malloc_law:
  "c_inv hinv rest st live \<Longrightarrow> c_request request l \<Longrightarrow>
    \<exists>p st'. Some (malloc aff (lay_size l) st) = Some (Inr (p, st')) \<and> c_inv hinv rest st' (if p = 0 then live else (p, l) # live)"
  using malloc_spec by fastforce

lemma free_law:
  assumes inv: "c_inv hinv rest st (us @ (p, l) # vs)"
  shows "\<exists>st'. free dea p st = Inr st' \<and> c_inv hinv rest st' (us @ vs)"
proof -
  obtain h m where st: "st = (h, m)" by force
  have mem: "(p, l) \<in> set (us @ (p, l) # vs)" by simp
  have fi: "fixed_inv hinv h (map raw_of us @ (p - MALLOC_HDR, raw_layout (lay_size l)) # map raw_of vs @ rest)"
    using inv by (simp add: c_inv_def st raw_of_def)
  have "valid_request (raw_layout (lay_size l))" using fixed_inv_live [OF fi] by (simp add: live_ok_def)
  note some = raw_layout_Some [OF this]
  obtain h' where "fixed_dealloc dea (p - MALLOC_HDR) (raw_layout (lay_size l)) h = Inr h'" "fixed_inv hinv h' (map raw_of us @ map raw_of vs @ rest)"
    using fixed_dealloc_law [OF fi] by blast
  moreover have "p \<noteq> 0" using c_facts(1) [OF inv mem] by auto
  moreover have "read64 m (p - MALLOC_HDR) = lay_size l" using inv by (simp add: c_inv_def st)
  ultimately show ?thesis using some inv by (auto simp: free_def rust_free_def st c_inv_def)
qed

lemma header_apart:
  assumes inv: "c_inv hinv rest st live" and q: "(q, l') \<in> set live" and p: "(p, l) \<in> set live" and i: "i < 8"
  shows "\<not> q - MALLOC_HDR + of_nat i - p < lay_size l"
proof (rule bytes_word)
  have v: "unat (lay_size l + MALLOC_HDR) = unat (lay_size l) + 16" using valid_size(1) c_facts(4) [OF inv p] by blast
  show "unat p + unat (lay_size l) \<le> 2 ^ 64" using c_facts(1,2) [OF inv p] by simp
  have a: "unat (q - MALLOC_HDR + of_nat i) = unat (q - MALLOC_HDR) + i"
    using c_facts(2) [OF inv q] i by (subst unat_add_no_ovf) (simp_all add: unat_of_nat)
  show "unat (q - MALLOC_HDR + of_nat i) \<notin> bytes (p, lay_size l)"
  proof (cases "p = q")
    case True
    then show ?thesis using a i c_facts(1) [OF inv q] by (simp add: bytes_def)
  next
    case False
    have "unat (q - MALLOC_HDR) + i \<in> bytes (q - MALLOC_HDR, lay_size l' + MALLOC_HDR)"
      using c_block(1) [OF inv q] i by (simp add: bytes_def)
    then have "unat (q - MALLOC_HDR) + i \<notin> bytes (p - MALLOC_HDR, lay_size l + MALLOC_HDR)" using c_apart [OF inv p q False] by blast
    then show ?thesis unfolding a using c_facts(1) [OF inv p] v by (auto simp: bytes_def)
  qed
qed

text \<open>Writes into the blocks leave the headers alone.\<close>

lemma c_inv_mem:
  assumes inv: "c_inv hinv rest (h, m) live"
    and m': "\<And>a. \<not> list_ex (\<lambda>(p, l). a - p < lay_size l) live \<Longrightarrow> m' a = m a"
  shows "c_inv hinv rest (h, m') live"
proof -
  have "read64 m' (q - MALLOC_HDR) = lay_size l" if q: "(q, l) \<in> set live" for q l
  proof -
    have "read64 m' (q - MALLOC_HDR) = read64 m (q - MALLOC_HDR)"
      by (intro read64_cong m') (use header_apart [OF inv q] in \<open>auto simp: list_ex_iff\<close>)
    then show ?thesis using inv q by (auto simp: c_inv_def)
  qed
  then show ?thesis using inv unfolding c_inv_def by auto
qed

lemma c_write_law:
  assumes inv: "c_inv hinv rest st live"
  shows "c_inv hinv rest (c_write w live st) live"
proof -
  obtain h m where st: "st = (h, m)" by force
  obtain w' where "fixed_write (fst w) (map raw_of live) h = fixed_write w' (map raw_of live @ rest) h"
    using fixed_write_part by blast
  then have "c_inv hinv rest (fixed_write (fst w) (map raw_of live) h, m) live"
    using fixed_write_law inv by (simp add: c_inv_def st)
  then show ?thesis unfolding c_write_def st fst_conv snd_conv by (rule c_inv_mem) simp
qed

lemma c_inv_live:
  assumes inv: "c_inv hinv rest st live"
  shows "disjoint_in H (map live_block live) \<and> list_all live_ok live"
proof
  have "disjoint_in H (map (\<lambda>x. live_block (raw_of x)) live)"
    using fixed_inv_live [OF inv [unfolded c_inv_def, THEN conjunct1]] by (simp add: disjoint_in_append comp_def)
  then show "disjoint_in H (map live_block live)"
  proof (rule disjoint_in_shrink)
    fix x assume "x \<in> set live"
    then show "bytes (live_block x) \<subseteq> bytes (live_block (raw_of x))"
      using c_facts(1,4) [OF inv, of "fst x" "snd x"] valid_size(1) [of "snd x"]
      by (simp add: bytes_def raw_of_def raw_layout_def live_block_def)
  qed
  show "list_all live_ok live" unfolding list_all_iff
  proof
    fix x assume "x \<in> set live"
    then obtain p l where x: "x = (p, l)" "(p, l) \<in> set live" by (metis surj_pair)
    note f = c_facts [OF inv x(2)]
    obtain k where k: "unat (lay_align l) = 2 ^ k" using layout_okE f(4) by (metis valid_request_def)
    have "lay_align l \<le> 16" using inv x(2) by (auto simp: c_inv_def)
    then have "(2 :: nat) ^ k \<le> 2 ^ 4" using k by (simp add: word_le_nat_alt)
    then have "k \<le> 4" using power_increasing_iff [of "2 :: nat" k 4] by simp
    then have "(2 :: nat) ^ k dvd 2 ^ 4" by (rule le_imp_power_dvd)
    moreover have "2 ^ 4 dvd unat p" using f(1,3) by simp
    ultimately have "unat (lay_align l) dvd unat p" unfolding k by (rule dvd_trans)
    then show "live_ok x" using f(1,4) by (auto simp: live_ok_def x(1))
  qed
qed

lemma header_write:
  assumes "c_inv hinv rest st live" and "(q, l') \<in> set live" and "(p, l) \<in> set live" and "i < lay_size l"
  shows "write64 m (q - MALLOC_HDR) v (p + i) = m (p + i)"
proof -
  have "\<not> p + i - (q - MALLOC_HDR) < 8"
  proof
    assume lt: "p + i - (q - MALLOC_HDR) < 8"
    then have "unat (p + i - (q - MALLOC_HDR)) < 8" by (simp add: word_less_nat_alt)
    from header_apart [OF assms(1-3) this] assms(4) show False by simp
  qed
  then show ?thesis by (simp add: write64_def)
qed

lemma block_apart:
  assumes inv: "c_inv hinv rest st ((q, l') # live)" and p: "(p, l) \<in> set live" and i: "i < lay_size l"
  shows "\<not> p + i - q < lay_size l'"
proof (rule bytes_word)
  have "unat (p + i) = unat p + unat i"
    using c_facts(1,2) [OF inv, of p l] p i by (subst unat_add_no_ovf) (simp_all add: word_less_nat_alt)
  then have "unat (p + i) \<in> bytes (p, lay_size l)" using i by (simp add: bytes_def word_less_nat_alt)
  moreover have "bytes (q, lay_size l') \<inter> bytes (p, lay_size l) = {}"
    using c_inv_live [OF inv] p by (fastforce simp: disjoint_in_Cons)
  ultimately show "unat (p + i) \<notin> bytes (q, lay_size l')" by blast
  show "unat q + unat (lay_size l') \<le> 2 ^ 64" using c_facts(1,2) [OF inv, of q l'] by simp
qed

lemma header_outside:
  assumes inv: "c_inv hinv rest st live" and "(q, l) \<in> set live" and "unat a \<notin> H"
  shows "write64 m (q - MALLOC_HDR) v a = m a"
proof -
  have "unat a \<notin> bytes (q - MALLOC_HDR, 8)"
    using c_facts(5) [OF assms(1,2)] assms(3) c_block(1) [OF assms(1,2)] by (force simp: bytes_def raw_of_def raw_layout_def)
  then have "\<not> a - (q - MALLOC_HDR) < 8" using c_facts(2) [OF assms(1,2)] by (intro bytes_word) simp_all
  then show ?thesis by (simp add: write64_def)
qed

lemma free_mem: "free dea p (h, m) = Inr (h', m') \<Longrightarrow> m' = m"
  by (auto simp: free_def Let_def rbind_eq_Inr split: if_splits)

lemma c_realloc_law:
  assumes inv: "c_inv hinv rest (h, m) (us @ (p, l) # vs)" and nl: "c_request request nl"
  shows "\<exists>q h' m'. c_realloc aff dea p (lay_size nl) (h, m) = Inr (q, h', m')
    \<and> (if q = 0 then c_inv hinv rest (h', m') (us @ (p, l) # vs) \<and> m' = m
       else c_inv hinv rest (h', m') ((q, nl) # us @ vs)
         \<and> (\<forall>i < min (lay_size l) (lay_size nl). m' (q + i) = m (p + i))
         \<and> (\<forall>(x, lx) \<in> set (us @ vs). \<forall>i < lay_size lx. m' (x + i) = m (x + i)))"
proof -
  let ?n = "lay_size nl" let ?k = "min (lay_size l) ?n" let ?live = "us @ (p, l) # vs"
  have mem: "(p, l) \<in> set ?live" by simp
  have p0: "p \<noteq> 0" using c_facts(1) [OF inv mem] by auto
  have n0: "?n \<noteq> 0" using valid_size(2) [of nl] nl by (auto simp: c_request_def)
  have old: "read64 m (p - MALLOC_HDR) = lay_size l" using inv by (simp add: c_inv_def)
  obtain q h1 m1 where a: "malloc aff ?n (h, m) = Inr (q, h1, m1)" "c_inv hinv rest (h1, m1) (if q = 0 then ?live else (q, nl) # ?live)"
    "m1 = (if q = 0 then m else write64 m (q - MALLOC_HDR) ?n)"
    using malloc_spec [OF inv nl] unfolding snd_conv by (metis surj_pair snd_conv)
  show ?thesis
  proof (cases "q = 0")
    case True
    with a p0 n0 show ?thesis by (simp add: c_realloc_def)
  next
    case False
    then have inv1: "c_inv hinv rest (h1, m1) ((q, nl) # ?live)" using a(2) by simp
    let ?m2 = "copy_bytes p q ?k m1"
    have "c_inv hinv rest (h1, ?m2) (((q, nl) # us) @ (p, l) # vs)"
      using c_inv_mem [OF inv1, of ?m2] by (simp add: copy_bytes_def)
    from free_law [OF this] obtain h2 m2 where f: "free dea p (h1, ?m2) = Inr (h2, m2)" "c_inv hinv rest (h2, m2) ((q, nl) # us @ vs)"
      by auto
    have m2: "m2 = ?m2" by (rule free_mem [OF f(1)])
    have keep: "m1 (x + i) = m (x + i)" if "(x, lx) \<in> set ?live" "i < lay_size lx" for x lx i
      using header_write [OF inv1, of q nl x lx i m ?n] that a(3) False by simp
    have "m2 (q + i) = m (p + i)" if "i < ?k" for i
      using that keep [OF mem] by (simp add: m2 copy_bytes_spec(1))
    moreover have "m2 (x + i) = m (x + i)" if "(x, lx) \<in> set (us @ vs)" "i < lay_size lx" for x lx i
      using block_apart [OF inv1, of x lx i] keep [of x lx i] that by (auto simp: m2 copy_bytes_def)
    moreover have "(if lay_size l < ?n then lay_size l else ?n) = ?k" by (auto simp: min_def)
    ultimately show ?thesis using a(1) f False p0 n0 old by (auto simp: c_realloc_def Let_def)
  qed
qed

lemma calloc_law:
  assumes inv: "c_inv hinv rest st live" and l: "c_request request l" and n: "nmemb * sz = lay_size l"
  shows "\<exists>p st'. calloc aff nmemb sz st = Inr (p, st') \<and> c_inv hinv rest st' (if p = 0 then live else (p, l) # live)
    \<and> (p \<noteq> 0 \<longrightarrow> (\<forall>i < lay_size l. snd st' (p + i) = 0))"
proof -
  obtain p h m where a: "malloc aff (lay_size l) st = Inr (p, h, m)" "c_inv hinv rest (h, m) (if p = 0 then live else (p, l) # live)"
    using malloc_spec [OF inv l] by auto
  show ?thesis
  proof (cases "p = 0")
    case False
    then have "c_inv hinv rest (h, m) ((p, l) # live)" using a(2) by simp
    from c_inv_mem [OF this, of "memset p 0 (lay_size l) m"]
    have "c_inv hinv rest (h, memset p 0 (lay_size l) m) ((p, l) # live)" by (simp add: memset_def)
    with a(1) False show ?thesis by (simp add: calloc_def n memset_def)
  qed (use a in \<open>simp add: calloc_def n\<close>)
qed

text \<open>A string outside the heap, such as a constant of the program, is copied.\<close>

lemma strdup_law:
  assumes inv: "c_inv hinv rest st live" and s: "cstr (snd st) s t" and out: "\<And>i. i \<le> length t \<Longrightarrow> unat (s + of_nat i) \<notin> H"
    and l: "c_request request l" "lay_size l = of_nat (length t) + 1"
  shows "\<exists>p st'. strdup aff s st = Some (Inr (p, st')) \<and> c_inv hinv rest st' (if p = 0 then live else (p, l) # live)
    \<and> (p \<noteq> 0 \<longrightarrow> cstr (snd st') p t)"
proof -
  let ?n = "of_nat (length t) + 1 :: u64"
  obtain p h m where a: "malloc aff ?n st = Inr (p, h, m)" "c_inv hinv rest (h, m) (if p = 0 then live else (p, l) # live)"
    "m = (if p = 0 then snd st else write64 (snd st) (p - MALLOC_HDR) ?n)"
    using malloc_spec [OF inv l(1)] unfolding l(2) by (metis surj_pair snd_conv)
  show ?thesis
  proof (cases "p = 0")
    case False
    then have inv1: "c_inv hinv rest (h, m) ((p, l) # live)" using a(2) by simp
    let ?m = "copy_bytes s p ?n m"
    have "c_inv hinv rest (h, ?m) ((p, l) # live)"
      using c_inv_mem [OF inv1, of ?m] by (simp add: copy_bytes_def l(2))
    moreover have "?m (p + of_nat i) = snd st (s + of_nat i)" if "i \<le> length t" for i
    proof -
      have "0 < unat ?n" using valid_size(2) [OF c_facts(4) [OF inv1, of p l]] by (simp add: l(2))
      then have "unat ?n = Suc (length t)" using unat_cstr_length [OF s] unat_bound [of "of_nat (length t) :: u64"]
        by (auto simp: unat_word_ariths mod_Suc split: if_splits)
      moreover have "unat (of_nat i :: u64) = i" using that unat_cstr_length [OF s] by (simp add: unat_of_nat)
      ultimately have "(of_nat i :: u64) < ?n" using that by (simp add: word_less_nat_alt)
      then have "?m (p + of_nat i) = m (s + of_nat i)" by (rule copy_bytes_spec(1))
      also have "\<dots> = snd st (s + of_nat i)" using header_outside [OF inv1 _ out [OF that], of p l] a(3) False by simp
      finally show ?thesis .
    qed
    then have "cstr ?m p t" using cstr_shift [OF s] by blast
    ultimately show ?thesis using a(1) False strlen_cstr [OF s] by (simp add: strdup_def Let_def)
  qed (use a strlen_cstr [OF s] in \<open>simp add: strdup_def Let_def\<close>)
qed

end

sublocale c_heap \<subseteq> c: heap_allocator H "c_request request" "c_inv hinv rest"
  "\<lambda>l st. Some (malloc aff (lay_size l) st)" "\<lambda>p l. free dea p" c_write
  by unfold_locales (fact malloc_law, fact free_law, fact c_write_law, fact c_inv_live)

context c_heap
begin

lemmas c_run_inv = c.run_inv

end

interpretation kernel_c: c_heap "heap_range HEAP_START HEAP_SIZE" ll_request
  "ll_inv (heap_range HEAP_START HEAP_SIZE)" ll_aff ll_dea rest for rest
  by unfold_locales (use heap_range_bounds(2) [OF kernel_heap_ok] in auto)

section \<open>Where \<open>malloc\<close> departs from the standard\<close>

text \<open>A size beyond \<open>isize::MAX\<close> panics the kernel instead of returning null.\<close>

lemma malloc_huge_panics: "malloc aff (2 ^ 63) st = Inl (Explicit ''called Result::unwrap() on an Err value'')"
proof -
  have "from_size_align (2 ^ 63 + MALLOC_HDR) 16 = None" by code_simp
  then show ?thesis by (cases st) (simp add: malloc_def rust_alloc_def)
qed

text \<open>The product of \<open>calloc\<close> wraps: for \<open>2 ^ 32\<close> objects of \<open>2 ^ 32\<close> bytes it allocates one byte and clears none.\<close>

lemma calloc_wraps: "calloc aff (2 ^ 32) (2 ^ 32) st = rbind (malloc aff 1 st) (\<lambda>(p, h, m). Inr (p, h, m))"
proof -
  have z: "(2 ^ 32 * 2 ^ 32 :: u64) = 0" by code_simp
  have "malloc aff 0 st = malloc aff 1 st" "memset p 0 0 m = m" for p m by (cases st; simp add: malloc_def memset_def)+
  then show ?thesis unfolding calloc_def z Let_def by (auto simp: rbind_def split: sum.splits)
qed

section \<open>Properties\<close>


definition demo_c_calls :: "((usize \<Rightarrow> usize option) \<times> memory) call list" where
  "demo_c_calls =
     [Alloc \<lparr>lay_size = 24, lay_align = 8\<rparr>, Alloc \<lparr>lay_size = 5000, lay_align = 16\<rparr>, Write (\<lambda>_. Some 1, \<lambda>_. 7), Dealloc 1]"

lemma demo_c_calls_ok: "list_all (call_ok (c_request ll_request)) demo_c_calls"
  by (simp add: demo_c_calls_def) code_simp


text \<open>
  \<open>realloc\<close> of the C library keeps the data. For a block that \<open>malloc\<close> handed out it returns without a panic: a
  new block that begins with the bytes of the old one, as many as fit, in place of the old one, with the contents
  of all other blocks unchanged, or null with the old block and all of memory as before.
\<close>

theorem c_realloc_keeps:
  assumes "c_heap H request hinv aff dea" and "c_inv hinv rest (h, m) (us @ (p, l) # vs)" and "c_request request nl"
  shows "\<exists>q h' m'. c_realloc aff dea p (lay_size nl) (h, m) = Inr (q, h', m')
    \<and> (if q = 0 then c_inv hinv rest (h', m') (us @ (p, l) # vs) \<and> m' = m
       else c_inv hinv rest (h', m') ((q, nl) # us @ vs)
         \<and> (\<forall>i < min (lay_size l) (lay_size nl). m' (q + i) = m (p + i))
         \<and> (\<forall>(x, lx) \<in> set (us @ vs). \<forall>i < lay_size lx. m' (x + i) = m (x + i)))"
  using assms by (rule c_heap.c_realloc_law)

text \<open>A block of eight bytes behind its header, on the heap of the example for \<open>fixed_realloc\<close>.\<close>

definition demo_c_live :: live where
  "demo_c_live = [(HEAP_START + 16, \<lparr>lay_size = 8, lay_align = 8\<rparr>)]"

lemma demo_c_inv: "c_inv (ll_inv (heap_range HEAP_START HEAP_SIZE)) [] (demo_fixed, write64 (\<lambda>a. ucast a) HEAP_START 8) demo_c_live"
proof -
  have c: "class_layout (raw_layout 8) = class_layout \<lparr>lay_size = 24, lay_align = 8\<rparr>" "valid_request (raw_layout 8)"
    "valid_request \<lparr>lay_size = 8, lay_align = 8\<rparr>" by code_simp+
  have r: "raw_of (HEAP_START + 16, \<lparr>lay_size = 8, lay_align = 8\<rparr>) = (HEAP_START, raw_layout 8)"
    by (simp add: raw_of_def MALLOC_HDR_def)
  have "fixed_inv (ll_inv (heap_range HEAP_START HEAP_SIZE)) demo_fixed [(HEAP_START, raw_layout 8)]"
    using demo_fixed_inv c unfolding fixed_inv_def demo_fixed_live_def by (auto simp: class_of_def)
  then show ?thesis using c(3) by (simp add: c_inv_def demo_c_live_def r MALLOC_HDR_def)
qed

theorem c_realloc_keeps_witness:
  "\<exists>q h' m'. c_realloc ll_aff ll_dea (HEAP_START + 16) 100 (demo_fixed, write64 (\<lambda>a. ucast a) HEAP_START 8) = Inr (q, h', m')
    \<and> (q \<noteq> 0 \<longrightarrow> m' q = 0x10)"
proof -
  let ?l = "\<lparr>lay_size = 8, lay_align = 8\<rparr>" let ?n = "\<lparr>lay_size = 100, lay_align = 16\<rparr>"
  have nl: "c_request ll_request ?n" by code_simp
  have inv: "c_inv (ll_inv (heap_range HEAP_START HEAP_SIZE)) [] (demo_fixed, write64 (\<lambda>a. ucast a) HEAP_START 8) ([] @ (HEAP_START + 16, ?l) # [])"
    using demo_c_inv by (simp add: demo_c_live_def)
  have z: "(0 :: u64) < min (lay_size ?l) (lay_size ?n)" by simp
  have v: "write64 (\<lambda>a. ucast a) HEAP_START 8 (HEAP_START + 16) = (0x10 :: u8)" by (simp add: write64_def HEAP_START_def)
  obtain q h' m' where r: "c_realloc ll_aff ll_dea (HEAP_START + 16) 100 (demo_fixed, write64 (\<lambda>a. ucast a) HEAP_START 8) = Inr (q, h', m')"
    and m': "q = 0 \<or> (\<forall>i < min (lay_size ?l) (lay_size ?n). m' (q + i) = write64 (\<lambda>a. ucast a) HEAP_START 8 (HEAP_START + 16 + i))"
    using c_realloc_keeps [OF kernel_c.c_heap_axioms inv nl] by (auto simp del: min_less_iff_conj split: if_splits)
  have "q \<noteq> 0 \<longrightarrow> m' q = 0x10" using m' z v by (auto simp del: min_less_iff_conj dest!: spec [of _ 0])
  with r show ?thesis by blast
qed

end
