(* ===== verification/C_Format.thy ===== *)
theory C_Format
  imports C_String
begin

text \<open>
  Numbers and formatted text for the Doom engine (\<open>src/ffi/stubs.c\<close>): \<open>strtol\<close>, the formatter behind \<open>printf\<close>
  and its relatives, and the scanner behind \<open>sscanf\<close>, on the byte-addressed memory. Arithmetic on
  \<open>int\<close> and \<open>long\<close> wraps at its width, as the compiled code does where the language leaves it open.
\<close>

section \<open>Reading numbers\<close>

partial_function (option) skip_blanks :: "memory \<Rightarrow> ptr \<Rightarrow> ptr option" where
  "skip_blanks m s = (if m s = 0x20 \<or> m s = 0x09 then skip_blanks m (s + 1) else Some s)"

definition digit_value :: "u8 \<Rightarrow> int option" where
  "digit_value c =
     (if 0x30 \<le> c \<and> c \<le> 0x39 then Some (uint c - 0x30)
      else if 0x61 \<le> c \<and> c \<le> 0x66 then Some (uint c - 0x61 + 10)
      else if 0x41 \<le> c \<and> c \<le> 0x46 then Some (uint c - 0x41 + 10)
      else None)"

partial_function (option) strtol_loop :: "memory \<Rightarrow> int \<Rightarrow> ptr \<Rightarrow> u64 \<Rightarrow> (u64 \<times> ptr) option" where
  "strtol_loop m base s val =
     (if m s = 0 then Some (val, s)
      else case digit_value (m s) of
             None \<Rightarrow> Some (val, s)
           | Some d \<Rightarrow>
               if base \<le> d then Some (val, s) else strtol_loop m base (s + 1) (val * word_of_int base + word_of_int d))"

text \<open>The value, and the pointer that \<open>end\<close> receives.\<close>

definition strtol :: "memory \<Rightarrow> ptr \<Rightarrow> int \<Rightarrow> (u64 \<times> ptr) option" where
  "strtol m s base =
     Option.bind (skip_blanks m s) (\<lambda>s.
       let (neg, s) = (if m s = 0x2D then (True, s + 1) else if m s = 0x2B then (False, s + 1) else (False, s));
           (base, s) =
             (if base = 0
              then if m s = 0x30 \<and> (m (s + 1) = 0x78 \<or> m (s + 1) = 0x58) then (16, s + 2)
                   else if m s = 0x30 then (8, s)
                   else (10, s)
              else (base, s))
       in Option.bind (strtol_loop m base s 0) (\<lambda>(val, e). Some (if neg then - val else val, e)))"

definition atoi :: "memory \<Rightarrow> ptr \<Rightarrow> u32 option" where
  "atoi m s = Option.bind (strtol m s 10) (\<lambda>(v, _). Some (ucast v))"

definition abs_int :: "u32 \<Rightarrow> u32" where
  "abs_int x = (if sint x < 0 then - x else x)"

section \<open>Printing\<close>

type_synonym sink = "memory \<times> u64" \<comment> \<open>memory and \<open>pos\<close>\<close>

definition OUT :: "ptr \<Rightarrow> u64 \<Rightarrow> u8 \<Rightarrow> sink \<Rightarrow> sink" where
  "OUT buf maxlen c = (\<lambda>(m, pos). if pos + 1 < maxlen then (m(buf + pos := c), pos + 1) else (m, pos))"

text \<open>
  \<open>OUT\<close> is a macro that evaluates its argument only when there is room. \<open>OUT(*s++)\<close> with a full buffer therefore
  does not advance \<open>s\<close>, and \<open>OUT(va_arg(ap, int))\<close> does not consume the argument.
\<close>

definition room :: "u64 \<Rightarrow> sink \<Rightarrow> bool" where
  "room maxlen st \<longleftrightarrow> snd st + 1 < maxlen"

definition is_dec :: "u8 \<Rightarrow> bool" where
  "is_dec c \<longleftrightarrow> 0x30 \<le> c \<and> c \<le> 0x39"

partial_function (option) read_int :: "memory \<Rightarrow> ptr \<Rightarrow> u32 \<Rightarrow> (u32 \<times> ptr) option" where
  "read_int m fmt w = (if is_dec (m fmt) then read_int m (fmt + 1) (w * 10 + (ucast (m fmt) - 0x30)) else Some (w, fmt))"

text \<open>Flags, width, precision and length of a conversion: zero padding, the width, \<open>is_long\<close> and the rest.\<close>

definition parse_spec :: "memory \<Rightarrow> ptr \<Rightarrow> (bool \<times> u32 \<times> bool \<times> ptr) option" where
  "parse_spec m fmt =
     (let fmt = (if m fmt = 0x2D then fmt + 1 else fmt);
          (zero_pad, fmt) = (if m fmt = 0x30 then (True, fmt + 1) else (False, fmt))
      in Option.bind (read_int m fmt 0) (\<lambda>(width, fmt).
         Option.bind
           (if m fmt = 0x2E
            then Option.bind (read_int m (fmt + 1) 0) (\<lambda>(prec, fmt).
                   Some (if sint width < sint prec then (prec, True, fmt) else (width, zero_pad, fmt)))
            else Some (width, zero_pad, fmt)) (\<lambda>(width, zero_pad, fmt).
         let (is_long, fmt) =
               (if m fmt = 0x6C then (True, if m (fmt + 1) = 0x6C then fmt + 2 else fmt + 1) else (False, fmt))
         in Some (zero_pad, width, is_long, fmt))))"

partial_function (option) out_string :: "ptr \<Rightarrow> u64 \<Rightarrow> ptr \<Rightarrow> sink \<Rightarrow> sink option" where
  "out_string buf maxlen s st =
     (if fst st s \<noteq> 0
      then out_string buf maxlen (if room maxlen st then s + 1 else s) (OUT buf maxlen (fst st s) st)
      else Some st)"

text \<open>The same loop over the constant \<open>(null)\<close>: without room it stays at one character for ever.\<close>

primrec out_literal :: "ptr \<Rightarrow> u64 \<Rightarrow> u8 list \<Rightarrow> sink \<Rightarrow> sink option" where
  "out_literal buf maxlen [] st = Some st"
| "out_literal buf maxlen (c # cs) st =
     (if room maxlen st then out_literal buf maxlen cs (OUT buf maxlen c st) else None)"

text \<open>The digits of \<open>tmp\<close>, the last one first.\<close>

definition digit_char :: "bool \<Rightarrow> u64 \<Rightarrow> u8" where
  "digit_char upper d = (if d < 10 then 0x30 + ucast d else (if upper then 0x37 else 0x57) + ucast d)"

function tmp_digits :: "bool \<Rightarrow> bool \<Rightarrow> u64 \<Rightarrow> u8 list" where
  "tmp_digits hex upper val =
     (if val = 0 then []
      else let base = (if hex then 16 else 10) in digit_char upper (val mod base) # tmp_digits hex upper (val div base))"
  by pat_completeness auto
termination
  by (relation "measure (\<lambda>(hex, upper, val). unat val)") (auto simp: unat_div unat_eq_0 [symmetric] simp del: unat_eq_0)

declare tmp_digits.simps [simp del]

function pad_loop :: "ptr \<Rightarrow> u64 \<Rightarrow> u8 \<Rightarrow> int \<Rightarrow> int \<Rightarrow> sink \<Rightarrow> sink" where
  "pad_loop buf maxlen pad len width st =
     (if len < width then pad_loop buf maxlen pad (len + 1) width (OUT buf maxlen pad st) else st)"
  by pat_completeness auto
termination
  by (relation "measure (\<lambda>(buf, maxlen, pad, len, width, st). nat (width - len))") auto

declare pad_loop.simps [simp del]

function zero_loop :: "ptr \<Rightarrow> u64 \<Rightarrow> int \<Rightarrow> int \<Rightarrow> sink \<Rightarrow> sink" where
  "zero_loop buf maxlen len width st =
     (if len < width then zero_loop buf maxlen len (width - 1) (OUT buf maxlen 0x30 st) else st)"
  by pat_completeness auto
termination
  by (relation "measure (\<lambda>(buf, maxlen, len, width, st). nat (width - len))") auto

declare zero_loop.simps [simp del]

text \<open>The sign and the magnitude of the argument: \<open>va_arg\<close> as \<open>int\<close>, \<open>long\<close> or unsigned.\<close>

definition int_arg :: "u8 \<Rightarrow> bool \<Rightarrow> u64 \<Rightarrow> bool \<times> u64" where
  "int_arg spec is_long a =
     (if spec = 0x64 \<or> spec = 0x69
      then let sv = (if is_long then sint a else sint (ucast a :: u32)) in
           if sv < 0 then (True, word_of_int (- sv)) else (False, word_of_int sv)
      else (False, if is_long then a else ucast (ucast a :: u32)))"

definition out_number :: "ptr \<Rightarrow> u64 \<Rightarrow> bool \<Rightarrow> u32 \<Rightarrow> bool \<Rightarrow> u8 \<Rightarrow> u64 \<Rightarrow> sink \<Rightarrow> sink" where
  "out_number buf maxlen zero_pad width is_long spec a st =
     (let (neg, val) = int_arg spec is_long a;
          tmp = (if val = 0 then [0x30] else tmp_digits (spec = 0x78 \<or> spec = 0x58) (spec = 0x58) val);
          len = int (length tmp) + (if neg then 1 else 0);
          st = (if zero_pad then st else pad_loop buf maxlen 0x20 len (sint width) st);
          st = (if neg then OUT buf maxlen 0x2D st else st);
          st = (if zero_pad then zero_loop buf maxlen len (sint width) st else st)
      in fold (OUT buf maxlen) (rev tmp) st)"

text \<open>
  The loop over the format. \<open>ap\<close> gives the argument slots; those behind the last argument hold whatever
  lies there.
\<close>

partial_function (option) fmt_loop :: "ptr \<Rightarrow> u64 \<Rightarrow> ptr \<Rightarrow> (nat \<Rightarrow> u64) \<Rightarrow> sink \<Rightarrow> sink option" where
  "fmt_loop buf maxlen fmt ap st =
     (if fst st fmt = 0 then Some st
      else if fst st fmt \<noteq> 0x25 then
        fmt_loop buf maxlen (if room maxlen st then fmt + 1 else fmt) ap (OUT buf maxlen (fst st fmt) st)
      else if fst st (fmt + 1) = 0 then Some st
      else if fst st (fmt + 1) = 0x25 then fmt_loop buf maxlen (fmt + 2) ap (OUT buf maxlen 0x25 st)
      else Option.bind (parse_spec (fst st) (fmt + 1)) (\<lambda>(zero_pad, width, is_long, fmt).
        let spec = fst st fmt; fmt = fmt + 1; rest = (\<lambda>i. ap (Suc i)) in
        if spec = 0x63 then
          fmt_loop buf maxlen fmt (if room maxlen st then rest else ap) (OUT buf maxlen (ucast (ap 0)) st)
        else if spec = 0x73 then
          Option.bind (if ap 0 = 0 then out_literal buf maxlen [0x28, 0x6E, 0x75, 0x6C, 0x6C, 0x29] st
                       else out_string buf maxlen (ap 0) st)
            (fmt_loop buf maxlen fmt rest)
        else if spec \<in> {0x64, 0x69, 0x75, 0x78, 0x58} then
          fmt_loop buf maxlen fmt rest (out_number buf maxlen zero_pad width is_long spec (ap 0) st)
        else fmt_loop buf maxlen fmt ap st))"

definition fmt_vsnprintf :: "ptr \<Rightarrow> u64 \<Rightarrow> ptr \<Rightarrow> (nat \<Rightarrow> u64) \<Rightarrow> memory \<Rightarrow> (u32 \<times> memory) option" where
  "fmt_vsnprintf buf maxlen fmt ap m =
     Option.bind (fmt_loop buf maxlen fmt ap (m, 0)) (\<lambda>(m, pos).
       Some (ucast pos,
         if pos < maxlen then m(buf + pos := 0)
         else if 0 < maxlen then m(buf + (maxlen - 1) := 0)
         else m))"

section \<open>Scanning\<close>

definition is_blank :: "u8 \<Rightarrow> bool" where
  "is_blank c \<longleftrightarrow> c = 0x20 \<or> c = 0x09 \<or> c = 0x0A"

partial_function (option) skip_ws :: "memory \<Rightarrow> ptr \<Rightarrow> ptr option" where
  "skip_ws m s = (if is_blank (m s) then skip_ws m (s + 1) else Some s)"

partial_function (option) scan_word :: "ptr \<Rightarrow> ptr \<Rightarrow> memory \<Rightarrow> (ptr \<times> ptr \<times> memory) option" where
  "scan_word p s m =
     (if m s \<noteq> 0 \<and> \<not> is_blank (m s) then scan_word (p + 1) (s + 1) (m(p := m s)) else Some (p, s, m))"

definition scan_string :: "ptr \<Rightarrow> ptr \<Rightarrow> memory \<Rightarrow> (ptr \<times> memory) option" where
  "scan_string p s m = Option.bind (scan_word p s m) (\<lambda>(p, s, m). Some (s, m(p := 0)))"

definition write32 :: "memory \<Rightarrow> ptr \<Rightarrow> u32 \<Rightarrow> memory" where
  "write32 m a v = (\<lambda>x. if x - a < 4 then ucast (drop_bit (8 * unat (x - a)) v) else m x)"

definition scan_store :: "bool \<Rightarrow> ptr \<Rightarrow> u64 \<Rightarrow> memory \<Rightarrow> memory" where
  "scan_store is_long p v m = (if is_long then write64 m p v else write32 m p (ucast v))"

definition scan_size :: "memory \<Rightarrow> ptr \<Rightarrow> bool \<times> ptr" where
  "scan_size m fmt =
     (if m fmt = 0x6C then (True, if m (fmt + 1) = 0x6C then fmt + 2 else fmt + 1)
      else if m fmt = 0x68 then (False, if m (fmt + 1) = 0x68 then fmt + 2 else fmt + 1)
      else (False, fmt))"

text \<open>The base that \<open>strtol\<close> is given for a conversion; 0 lets the text decide.\<close>

definition scan_base :: "u8 \<Rightarrow> int" where
  "scan_base spec =
     (if spec = 0x75 then 10 else if spec = 0x78 \<or> spec = 0x58 then 16 else if spec = 0x6F then 8 else 0)"

text \<open>One conversion into the object at \<open>p\<close>: \<open>Some None\<close> ends the scan.\<close>

definition scan_conversion :: "u8 \<Rightarrow> bool \<Rightarrow> ptr \<Rightarrow> ptr \<Rightarrow> memory \<Rightarrow> (ptr \<times> memory) option option" where
  "scan_conversion spec is_long p s m =
     Option.bind (if spec \<noteq> 0x63 then skip_ws m s else Some s) (\<lambda>s.
       if spec = 0x63 then Some (if m s = 0 then None else Some (s + 1, m(p := m s)))
       else if spec = 0x73 then
         if m s = 0 then Some None else map_option Some (scan_string p s m)
       else if spec \<in> {0x64, 0x69, 0x75, 0x78, 0x58, 0x6F} then
         Option.bind (strtol m s (scan_base spec)) (\<lambda>(val, e).
           Some (if e = s then None else Some (e, scan_store is_long p val m)))
       else Some None)"

partial_function (option) vsscanf_impl :: "ptr \<Rightarrow> ptr \<Rightarrow> (nat \<Rightarrow> u64) \<Rightarrow> u32 \<Rightarrow> memory \<Rightarrow> (u32 \<times> memory) option" where
  "vsscanf_impl s fmt ap count m =
     (if m fmt = 0 then Some (count, m)
      else if is_blank (m fmt) then Option.bind (skip_ws m s) (\<lambda>s. vsscanf_impl s (fmt + 1) ap count m)
      else if m fmt \<noteq> 0x25 then
        if m s = m fmt then vsscanf_impl (s + 1) (fmt + 1) ap count m else Some (count, m)
      else if m (fmt + 1) = 0x25 then
        if m s = 0x25 then vsscanf_impl (s + 1) (fmt + 2) ap count m else vsscanf_impl s (fmt + 2) ap count m
      else
        let fmt1 = snd (scan_size m (fmt + 1)) in
        Option.bind (scan_conversion (m fmt1) (fst (scan_size m (fmt + 1))) (ap 0) s m) (\<lambda>r.
          case r of
            None \<Rightarrow> Some (count, m)
          | Some x \<Rightarrow> vsscanf_impl (fst x) (fmt1 + 1) (\<lambda>i. ap (Suc i)) (count + 1) (snd x)))"

section \<open>Reference: formatting as a function on strings\<close>

text \<open>The text of a number: padding, sign, zeros and digits.\<close>

definition number_text :: "bool \<Rightarrow> u32 \<Rightarrow> bool \<Rightarrow> u8 \<Rightarrow> u64 \<Rightarrow> u8 list" where
  "number_text zero_pad width is_long spec a =
     (let (neg, val) = int_arg spec is_long a;
          ds = (if val = 0 then [0x30] else rev (tmp_digits (spec = 0x78 \<or> spec = 0x58) (spec = 0x58) val));
          sign = (if neg then [0x2D] else []);
          fill = nat (sint width - int (length (sign @ ds)))
      in if zero_pad then sign @ replicate fill 0x30 @ ds else replicate fill 0x20 @ sign @ ds)"

definition opt_drop :: "u8 \<Rightarrow> u8 list \<Rightarrow> bool \<times> u8 list" where
  "opt_drop c f = (case f of [] \<Rightarrow> (False, []) | x # r \<Rightarrow> if x = c then (True, r) else (False, f))"

definition int_of :: "u8 list \<Rightarrow> u32" where
  "int_of ds = foldl (\<lambda>w c. w * 10 + (ucast c - 0x30)) 0 ds"

definition parse_list :: "u8 list \<Rightarrow> bool \<times> u32 \<times> bool \<times> u8 list" where
  "parse_list f =
     (let f1 = snd (opt_drop 0x2D f);
          zero_pad = fst (opt_drop 0x30 f1); f2 = snd (opt_drop 0x30 f1);
          width = int_of (takeWhile is_dec f2); f3 = dropWhile is_dec f2;
          dot = fst (opt_drop 0x2E f3); f4 = snd (opt_drop 0x2E f3);
          prec = int_of (takeWhile is_dec f4);
          f5 = (if dot then dropWhile is_dec f4 else f4);
          is_long = fst (opt_drop 0x6C f5); f6 = snd (opt_drop 0x6C f5);
          f7 = (if is_long then snd (opt_drop 0x6C f6) else f6);
          wider = (dot \<and> sint width < sint prec)
      in (zero_pad \<or> wider, if wider then prec else width, is_long, f7))"

lemma opt_drop_length: "length f \<le> n \<Longrightarrow> length (snd (opt_drop c f)) \<le> n"
  by (auto simp: opt_drop_def split: list.splits if_splits)

lemma dropWhile_length: "length f \<le> n \<Longrightarrow> length (dropWhile P f) \<le> n"
  using length_dropWhile_le [of P f] by simp

lemma parse_list_length: "parse_list f = (z, w, l, f') \<Longrightarrow> length f' \<le> length f"
  by (auto simp: parse_list_def Let_def intro!: opt_drop_length dropWhile_length)

text \<open>
  \<open>txt\<close> gives the strings that pointers point to. A format whose last conversion is cut off has no
  rendering, and neither has one that asks for a string at any other pointer.
\<close>

text \<open>
  Each character carries its origin: \<open>Copied\<close> from the format or from a string, \<open>Fetched\<close> from the arguments by
  \<open>%c\<close>, or \<open>Computed\<close>.
\<close>

datatype origin = Copied | Fetched | Computed

function render :: "(ptr \<Rightarrow> u8 list option) \<Rightarrow> u8 list \<Rightarrow> (nat \<Rightarrow> u64) \<Rightarrow> (origin \<times> u8) list option" where
  "render txt f ap =
     (case f of
        [] \<Rightarrow> Some []
      | c # f \<Rightarrow>
          if c \<noteq> 0x25 then map_option ((#) (Copied, c)) (render txt f ap)
          else case f of
                 [] \<Rightarrow> Some []
               | d # f' \<Rightarrow>
                   if d = 0x25 then map_option ((#) (Computed, 0x25)) (render txt f' ap)
                   else case parse_list f of
                          (zero_pad, width, is_long, []) \<Rightarrow> None
                        | (zero_pad, width, is_long, spec # f') \<Rightarrow>
                            if spec = 0x63 then map_option ((#) (Fetched, ucast (ap 0))) (render txt f' (\<lambda>i. ap (Suc i)))
                            else if spec = 0x73 then
                              Option.bind (if ap 0 = 0 then Some [0x28, 0x6E, 0x75, 0x6C, 0x6C, 0x29] else txt (ap 0)) (\<lambda>t.
                                map_option ((@) (map (Pair Copied) t)) (render txt f' (\<lambda>i. ap (Suc i))))
                            else if spec \<in> {0x64, 0x69, 0x75, 0x78, 0x58} then
                              map_option ((@) (map (Pair Computed) (number_text zero_pad width is_long spec (ap 0)))) (render txt f' (\<lambda>i. ap (Suc i)))
                            else render txt f' ap)"
  by pat_completeness auto
termination
  by (relation "measure (\<lambda>(txt, f, ap). length f)") (auto dest!: parse_list_length [OF sym])

declare render.simps [simp del]

section \<open>The formatter implements the reference\<close>

lemma pad_loop_fold: "pad_loop buf maxlen pad len width st = fold (OUT buf maxlen) (replicate (nat (width - len)) pad) st"
proof (induction buf maxlen pad len width st rule: pad_loop.induct)
  case (1 buf maxlen pad len width st)
  show ?case
  proof (cases "len < width")
    case True
    then have "nat (width - len) = Suc (nat (width - (len + 1)))" by simp
    with 1 True show ?thesis by (subst pad_loop.simps) simp
  qed (subst pad_loop.simps, simp)
qed

lemma zero_loop_fold: "zero_loop buf maxlen len width st = fold (OUT buf maxlen) (replicate (nat (width - len)) 0x30) st"
proof (induction buf maxlen len width st rule: zero_loop.induct)
  case (1 buf maxlen len width st)
  show ?case
  proof (cases "len < width")
    case True
    then have "nat (width - len) = Suc (nat (width - 1 - len))" by simp
    with 1 True show ?thesis by (subst zero_loop.simps) simp
  qed (subst zero_loop.simps, simp)
qed

lemma out_number_fold:
  "out_number buf maxlen zp w l spec a st = fold (OUT buf maxlen) (number_text zp w l spec a) st"
  by (auto simp: out_number_def number_text_def Let_def pad_loop_fold zero_loop_fold add.commute split: prod.splits)

text \<open>What is printed lands in the buffer.\<close>

definition sink_ok :: "u64 \<Rightarrow> sink \<Rightarrow> bool" where
  "sink_ok maxlen st \<longleftrightarrow> unat (snd st) < max 1 (unat maxlen)"

lemma OUT_ok:
  assumes "sink_ok maxlen st"
  shows "sink_ok maxlen (OUT buf maxlen c st)" and "x \<notin> span buf (unat maxlen) \<Longrightarrow> fst (OUT buf maxlen c st) x = fst st x"
proof -
  obtain m pos where st: "st = (m, pos)" by force
  show "sink_ok maxlen (OUT buf maxlen c st)"
    using assms by (auto simp: OUT_def st sink_ok_def word_less_nat_alt)
  have "buf + pos \<in> span buf (unat maxlen)" if "pos + 1 < maxlen"
  proof -
    have "maxlen \<noteq> 0" using that by auto
    then have "pos < maxlen" using assms by (simp add: st sink_ok_def word_less_nat_alt unat_eq_0 [symmetric] max_def split: if_splits)
    then show ?thesis by (rule span_word)
  qed
  then show "x \<notin> span buf (unat maxlen) \<Longrightarrow> fst (OUT buf maxlen c st) x = fst st x" by (auto simp: OUT_def st)
qed

lemma fold_OUT_ok:
  "sink_ok maxlen st \<Longrightarrow> sink_ok maxlen (fold (OUT buf maxlen) cs st) \<and>
     (\<forall>x. x \<notin> span buf (unat maxlen) \<longrightarrow> fst (fold (OUT buf maxlen) cs st) x = fst st x)"
  by (induction cs arbitrary: st) (simp_all add: OUT_ok)

lemma OUT_pair: "OUT buf maxlen c (m, pos) = (if pos + 1 < maxlen then (m(buf + pos := c), pos + 1) else (m, pos))"
  by (simp add: OUT_def)

lemma fold_OUT_poke:
  "unat pos < unat maxlen \<Longrightarrow> fold (OUT buf maxlen) cs (m, pos) =
     (poke (buf + pos) (take (unat maxlen - 1 - unat pos) cs) m, pos + of_nat (min (length cs) (unat maxlen - 1 - unat pos)))"
proof (induction cs arbitrary: m pos)
  case (Cons c cs)
  have n: "unat (pos + 1) = Suc (unat pos)" using Cons.prems by (intro unat_next) (simp add: word_less_nat_alt)
  show ?case
  proof (cases "pos + 1 < maxlen")
    case True
    then have lt: "unat (pos + 1) < unat maxlen" by (simp add: word_less_nat_alt)
    then have "unat maxlen - 1 - unat pos = Suc (unat maxlen - 1 - unat (pos + 1))" using n by simp
    with Cons.IH [OF lt] True show ?thesis by (simp add: OUT_pair add.assoc fun_upd_def)
  next
    case False
    then have "unat maxlen - 1 - unat pos = 0" using n by (simp add: word_less_nat_alt)
    then show ?thesis using False Cons.IH [OF Cons.prems, of m] by (simp add: OUT_pair)
  qed
qed simp

lemma fold_OUT_zero: "fold (OUT buf 0) cs (m, pos) = (m, pos)"
  by (induction cs) (simp_all add: OUT_pair)

text \<open>A string that lies outside a set of addresses.\<close>

definition fstr :: "ptr set \<Rightarrow> memory \<Rightarrow> ptr \<Rightarrow> u8 list \<Rightarrow> bool" where
  "fstr A m p f \<longleftrightarrow> cstr m p f \<and> span p (Suc (length f)) \<inter> A = {}"

lemma fstr_Nil: "fstr A m p [] \<Longrightarrow> m p = 0"
  by (simp add: fstr_def)

lemma fstr_Cons: "fstr A m p (x # f) \<Longrightarrow> m p = x \<and> x \<noteq> 0 \<and> fstr A m (p + 1) f"
  by (auto simp: fstr_def span_Suc [of p])

lemma fstr_cong: "fstr A m p f \<Longrightarrow> (\<And>x. x \<notin> A \<Longrightarrow> m' x = m x) \<Longrightarrow> fstr A m' p f"
  unfolding fstr_def using cstr_cong [of m p f m'] by blast

lemma fstr_opt_drop:
  assumes "fstr A m p f" and "c \<noteq> 0"
  shows "fst (opt_drop c f) \<longleftrightarrow> m p = c" and "fstr A m (if m p = c then p + 1 else p) (snd (opt_drop c f))"
  using assms by (cases f; auto simp: opt_drop_def dest: fstr_Nil fstr_Cons)+

lemma fstr_read_int:
  "fstr A m p f \<Longrightarrow> \<exists>p'. read_int m p w = Some (foldl (\<lambda>w c. w * 10 + (ucast c - 0x30)) w (takeWhile is_dec f), p')
     \<and> fstr A m p' (dropWhile is_dec f)"
proof (induction f arbitrary: p w)
  case Nil
  then show ?case by (subst read_int.simps) (auto simp: is_dec_def dest: fstr_Nil)
next
  case (Cons x f)
  then show ?case by (subst read_int.simps) (auto dest!: fstr_Cons)
qed

lemma parse_spec_list:
  assumes f: "fstr A m p f" and "parse_list f = (z, w, l, f')"
  obtains p' where "parse_spec m p = Some (z, w, l, p')" and "fstr A m p' f'"
proof -
  define f1 where "f1 = snd (opt_drop 0x2D f)"
  define p1 where "p1 = (if m p = 0x2D then p + 1 else p)"
  define f2 where "f2 = snd (opt_drop 0x30 f1)"
  define p2 where "p2 = (if m p1 = 0x30 then p1 + 1 else p1)"
  have 1: "fstr A m p1 f1" unfolding p1_def f1_def using f by (rule fstr_opt_drop) simp
  have z: "fst (opt_drop 0x30 f1) \<longleftrightarrow> m p1 = 0x30" and 2: "fstr A m p2 f2"
    unfolding p2_def f2_def using fstr_opt_drop [OF 1] by simp_all
  define f3 where "f3 = dropWhile is_dec f2"
  obtain p3 where 3: "read_int m p2 0 = Some (int_of (takeWhile is_dec f2), p3)" "fstr A m p3 f3"
    unfolding f3_def int_of_def using fstr_read_int [OF 2] by blast
  define f4 where "f4 = snd (opt_drop 0x2E f3)"
  define p4 where "p4 = (if m p3 = 0x2E then p3 + 1 else p3)"
  have dot: "fst (opt_drop 0x2E f3) \<longleftrightarrow> m p3 = 0x2E" and 4: "fstr A m p4 f4"
    unfolding p4_def f4_def using fstr_opt_drop [OF 3(2)] by simp_all
  define f5 where "f5 = (if fst (opt_drop 0x2E f3) then dropWhile is_dec f4 else f4)"
  obtain p5 where r: "m p3 = 0x2E \<Longrightarrow> read_int m p4 0 = Some (int_of (takeWhile is_dec f4), p5)"
    and e: "m p3 \<noteq> 0x2E \<Longrightarrow> p5 = p3" and 5: "fstr A m p5 f5"
    using fstr_read_int [OF 4, of 0] 4 unfolding f5_def int_of_def p4_def dot by (cases "m p3 = 0x2E") auto
  define f6 where "f6 = snd (opt_drop 0x6C f5)"
  define p6 where "p6 = (if m p5 = 0x6C then p5 + 1 else p5)"
  have lng: "fst (opt_drop 0x6C f5) \<longleftrightarrow> m p5 = 0x6C" and 6: "fstr A m p6 f6"
    unfolding p6_def f6_def using fstr_opt_drop [OF 5] by simp_all
  define p7 where "p7 = (if m p5 = 0x6C then if m p6 = 0x6C then p6 + 1 else p6 else p6)"
  have 7: "fstr A m p7 (if m p5 = 0x6C then snd (opt_drop 0x6C f6) else f6)"
    using fstr_opt_drop(2) [OF 6] 6 by (auto simp: p7_def)
  have pl: "(z, w, l, f') = ((m p1 = 0x30) \<or> m p3 = 0x2E \<and> sint (int_of (takeWhile is_dec f2)) < sint (int_of (takeWhile is_dec f4)),
      if m p3 = 0x2E \<and> sint (int_of (takeWhile is_dec f2)) < sint (int_of (takeWhile is_dec f4))
      then int_of (takeWhile is_dec f4) else int_of (takeWhile is_dec f2), m p5 = 0x6C,
      if m p5 = 0x6C then snd (opt_drop 0x6C f6) else f6)"
    using assms(2) z dot lng unfolding parse_list_def Let_def f1_def [symmetric] f2_def [symmetric] f3_def [symmetric] f4_def [symmetric]
      f5_def [symmetric] f6_def [symmetric]
    by (simp only: eq_commute)
  have "parse_spec m p = Some (z, w, l, p7)"
    using pl 3(1) r e unfolding parse_spec_def Let_def p1_def [symmetric]
    by (cases "m p3 = 0x2E"; cases "m p1 = 0x30"; cases "m p5 = 0x6C"; simp add: p2_def p4_def p6_def p7_def)
  with 7 pl that show thesis by simp
qed

text \<open>
  Writing characters with their origin: a copied one that does not fit is the end of all progress.
\<close>

fun emit :: "ptr \<Rightarrow> u64 \<Rightarrow> (origin \<times> u8) list \<Rightarrow> sink \<Rightarrow> sink option" where
  "emit buf maxlen [] st = Some st"
| "emit buf maxlen ((k, c) # out) st =
     (if k = Copied \<and> \<not> room maxlen st then None else emit buf maxlen out (OUT buf maxlen c st))"

lemma emit_append: "emit buf maxlen (t @ out) st = Option.bind (emit buf maxlen t st) (emit buf maxlen out)"
  by (induction buf maxlen t st rule: emit.induct) simp_all

lemma emit_computed: "k \<noteq> Copied \<Longrightarrow> emit buf maxlen (map (Pair k) cs) st = Some (fold (OUT buf maxlen) cs st)"
  by (induction cs arbitrary: st) simp_all

lemma out_literal_emit: "out_literal buf maxlen cs st = emit buf maxlen (map (Pair Copied) cs) st"
  by (induction cs arbitrary: st) simp_all

lemma OUT_full: "\<not> room maxlen st \<Longrightarrow> OUT buf maxlen c st = st"
  by (cases st) (simp add: room_def OUT_def)

lemma out_string_stuck:
  assumes "\<not> room maxlen st" and "fst st s \<noteq> 0"
  shows "out_string buf maxlen s st = None"
proof -
  let ?P = "\<lambda>buf maxlen s st y. room maxlen st \<or> fst st s = 0"
  have "?P buf maxlen s st y" if "out_string buf maxlen s st = Some y" for y
    using that
    apply (rule out_string.raw_induct [where P = ?P, rotated])
    subgoal premises p for f buf maxlen s st y
      using p(2) p(1) [of buf maxlen s st y] by (cases "?P buf maxlen s st y") (simp_all add: OUT_full)
    done
  with assms show ?thesis by (cases "out_string buf maxlen s st") auto
qed

lemma fmt_loop_stuck:
  assumes "\<not> room maxlen st" and "fst st fmt \<noteq> 0" and "fst st fmt \<noteq> 0x25"
  shows "fmt_loop buf maxlen fmt ap st = None"
proof -
  let ?P = "\<lambda>buf maxlen fmt ap st y. room maxlen st \<or> fst st fmt = 0 \<or> fst st fmt = 0x25"
  have "?P buf maxlen fmt ap st y" if "fmt_loop buf maxlen fmt ap st = Some y" for y
    using that
    apply (rule fmt_loop.raw_induct [where P = ?P, rotated])
    subgoal premises p for f buf maxlen fmt ap st y
      using p(2) p(1) [of buf maxlen fmt ap st y] by (cases "?P buf maxlen fmt ap st y") (simp_all add: OUT_full)
    done
  with assms show ?thesis by (cases "fmt_loop buf maxlen fmt ap st") auto
qed

text \<open>No \<open>%c\<close> comes when the buffer is full.\<close>

definition left :: "u64 \<Rightarrow> sink \<Rightarrow> nat" where
  "left maxlen st = unat maxlen - 1 - unat (snd st)"

definition kept :: "u64 \<Rightarrow> sink \<Rightarrow> (origin \<times> u8) list \<Rightarrow> bool" where
  "kept maxlen st out \<longleftrightarrow> Fetched \<notin> fst ` set (drop (left maxlen st) out)"

lemma left_OUT:
  assumes "sink_ok maxlen st"
  shows "room maxlen st \<longleftrightarrow> 0 < left maxlen st" and "left maxlen (OUT buf maxlen c st) = left maxlen st - 1"
proof -
  obtain m pos where st: "st = (m, pos)" by force
  show r: "room maxlen st \<longleftrightarrow> 0 < left maxlen st"
  proof (cases "maxlen = 0")
    case False
    then have "pos < maxlen" using assms by (simp add: st sink_ok_def word_less_nat_alt unat_eq_0 [symmetric] max_def split: if_splits)
    then show ?thesis by (auto simp: st room_def left_def word_less_nat_alt unat_next)
  qed (simp add: room_def left_def)
  show "left maxlen (OUT buf maxlen c st) = left maxlen st - 1"
  proof (cases "room maxlen st")
    case True
    then have "pos < maxlen" using r by (simp add: st left_def word_less_nat_alt)
    then show ?thesis using True by (simp add: st room_def OUT_def left_def unat_next)
  qed (use r in \<open>simp add: OUT_full\<close>)
qed

lemma kept_Cons:
  assumes "sink_ok maxlen st" and "kept maxlen st ((k, c) # out)"
  shows "kept maxlen (OUT buf maxlen c st) out" and "k = Fetched \<Longrightarrow> room maxlen st"
  using assms left_OUT [OF assms(1)] by (cases "left maxlen st"; auto simp: kept_def)+

lemma kept_append:
  "sink_ok maxlen st \<Longrightarrow> kept maxlen st (t @ out) \<Longrightarrow> emit buf maxlen t st = Some st' \<Longrightarrow> kept maxlen st' out"
proof (induction buf maxlen t st rule: emit.induct)
  case (2 buf maxlen k c t st)
  then show ?case using kept_Cons(1) [of maxlen st k c "t @ out" buf] OUT_ok(1) by (auto split: if_splits)
qed simp

lemma emit_fold:
  "sink_ok maxlen st \<Longrightarrow> emit buf maxlen out st =
     (if Copied \<in> fst ` set (drop (left maxlen st) out) then None else Some (fold (OUT buf maxlen) (map snd out) st))"
proof (induction buf maxlen out st rule: emit.induct)
  case (2 buf maxlen k c out st)
  then show ?case using left_OUT [OF 2(2)] OUT_ok(1) by (cases "left maxlen st") auto
qed simp

lemma out_string_emit:
  assumes A: "A = span buf (unat maxlen)"
  shows "sink_ok maxlen st \<Longrightarrow> fstr A (fst st) s t \<Longrightarrow> out_string buf maxlen s st = emit buf maxlen (map (Pair Copied) t) st"
proof (induction t arbitrary: s st)
  case Nil
  then show ?case by (subst out_string.simps) (simp add: fstr_Nil)
next
  case (Cons x t)
  have x: "fst st s = x" "x \<noteq> 0" "fstr A (fst st) (s + 1) t" using fstr_Cons [OF Cons.prems(2)] by simp_all
  show ?case
  proof (cases "room maxlen st")
    case True
    have "fstr A (fst (OUT buf maxlen x st)) (s + 1) t"
      using x(3) OUT_ok(2) [OF Cons.prems(1)] unfolding A by (rule fstr_cong)
    with Cons.IH [OF OUT_ok(1) [OF Cons.prems(1)]] x True show ?thesis by (subst out_string.simps) simp
  qed (use x in \<open>simp add: out_string_stuck\<close>)
qed

text \<open>A sink that has changed nothing outside the buffer.\<close>

definition sink_of :: "ptr \<Rightarrow> u64 \<Rightarrow> memory \<Rightarrow> sink \<Rightarrow> bool" where
  "sink_of buf maxlen m st \<longleftrightarrow> sink_ok maxlen st \<and> (\<forall>x. x \<notin> span buf (unat maxlen) \<longrightarrow> fst st x = m x)"

lemma sink_of_OUT: "sink_of buf maxlen m st \<Longrightarrow> sink_of buf maxlen m (OUT buf maxlen c st)"
  using fold_OUT_ok [of maxlen st buf "[c]"] by (simp add: sink_of_def)

lemma sink_of_emit: "sink_of buf maxlen m st \<Longrightarrow> emit buf maxlen out st = Some st' \<Longrightarrow> sink_of buf maxlen m st'"
  by (induction buf maxlen out st rule: emit.induct) (auto simp: sink_of_OUT split: if_splits)

lemma sink_of_fstr: "sink_of buf maxlen m st \<Longrightarrow> fstr (span buf (unat maxlen)) m p f \<Longrightarrow> fstr (span buf (unat maxlen)) (fst st) p f"
  by (rule fstr_cong) (simp_all add: sink_of_def)

lemma sink_of_ok: "sink_of buf maxlen m st \<Longrightarrow> sink_ok maxlen st"
  by (simp add: sink_of_def)

text \<open>One conversion, given the rest of the format.\<close>

lemma fmt_conversion:
  assumes st: "sink_of buf maxlen m st" and f: "fst st fmt = 0x25" "fst st (fmt + 1) \<noteq> 0" "fst st (fmt + 1) \<noteq> 0x25"
    and ps: "parse_spec (fst st) (fmt + 1) = Some (z, w, l, p)" "fst st p = spec"
    and strs: "\<And>q t. txt q = Some t \<Longrightarrow> q \<noteq> 0 \<and> fstr (span buf (unat maxlen)) m q t"
    and out: "(if spec = 0x63 then map_option ((#) (Fetched, ucast (ap 0))) (render txt f' (\<lambda>i. ap (Suc i)))
        else if spec = 0x73 then
          Option.bind (if ap 0 = 0 then Some [0x28, 0x6E, 0x75, 0x6C, 0x6C, 0x29] else txt (ap 0)) (\<lambda>t.
            map_option ((@) (map (Pair Copied) t)) (render txt f' (\<lambda>i. ap (Suc i))))
        else if spec \<in> {0x64, 0x69, 0x75, 0x78, 0x58} then
          map_option ((@) (map (Pair Computed) (number_text z w l spec (ap 0)))) (render txt f' (\<lambda>i. ap (Suc i)))
        else render txt f' ap) = Some out"
    and kept: "kept maxlen st out"
    and rest: "\<And>ap st out. sink_of buf maxlen m st \<Longrightarrow> render txt f' ap = Some out \<Longrightarrow> kept maxlen st out \<Longrightarrow>
        fmt_loop buf maxlen (p + 1) ap st = emit buf maxlen out st"
  shows "fmt_loop buf maxlen fmt ap st = emit buf maxlen out st"
proof -
  let ?ap = "\<lambda>i. ap (Suc i)"
  note eq = fmt_loop.simps [of buf maxlen fmt ap st] and ok = sink_of_ok [OF st]
  have app: "Option.bind (emit buf maxlen t st) (fmt_loop buf maxlen (p + 1) ?ap) = emit buf maxlen out st"
    if "render txt f' ?ap = Some o'" "out = t @ o'" for t o'
    using rest [OF sink_of_emit [OF st] that(1) kept_append [OF ok kept [unfolded that(2)]]]
    by (cases "emit buf maxlen t st") (simp_all add: that(2) emit_append)
  consider "spec = 0x63" | "spec = 0x73" | "spec \<in> {0x64, 0x69, 0x75, 0x78, 0x58}" | "spec \<notin> {0x63, 0x73, 0x64, 0x69, 0x75, 0x78, 0x58}"
    by blast
  then show ?thesis
  proof cases
    case 1
    then obtain o' where o': "render txt f' ?ap = Some o'" "out = (Fetched, ucast (ap 0)) # o'" using out by auto
    note k = kept_Cons [OF ok kept [unfolded o'(2)]]
    from rest [OF sink_of_OUT [OF st] o'(1) k(1)] k(2) 1 f ps o'(2) show ?thesis by (subst eq) (simp add: Let_def)
  next
    case 2
    then obtain t o' where t: "(if ap 0 = 0 then Some [0x28, 0x6E, 0x75, 0x6C, 0x6C, 0x29] else txt (ap 0)) = Some t"
      and o': "render txt f' ?ap = Some o'" "out = map (Pair Copied) t @ o'" using out by (auto simp: bind_eq_Some_conv)
    have "(if ap 0 = 0 then out_literal buf maxlen [0x28, 0x6E, 0x75, 0x6C, 0x6C, 0x29] st else out_string buf maxlen (ap 0) st)
        = emit buf maxlen (map (Pair Copied) t) st"
    proof (cases "ap 0 = 0")
      case False
      then have "fstr (span buf (unat maxlen)) (fst st) (ap 0) t" using t strs [of "ap 0" t] sink_of_fstr [OF st] by simp
      with False out_string_emit [OF refl ok] show ?thesis by simp
    qed (use t in \<open>simp add: out_literal_emit del: emit.simps out_literal.simps\<close>)
    with app [OF o'] 2 f ps show ?thesis by (subst eq) (simp add: Let_def)
  next
    case 3
    then obtain o' where o': "render txt f' ?ap = Some o'" "out = map (Pair Computed) (number_text z w l spec (ap 0)) @ o'"
      using out by auto
    from app [OF o'] 3 f ps show ?thesis by (subst eq) (auto simp: Let_def out_number_fold emit_computed)
  next
    case 4
    then have "render txt f' ap = Some out" using out by simp
    with rest [OF st this kept] 4 f ps show ?thesis by (subst eq) (simp add: Let_def)
  qed
qed

text \<open>What the rest of the formatter must do for all shorter formats.\<close>

definition formats :: "ptr \<Rightarrow> u64 \<Rightarrow> memory \<Rightarrow> (ptr \<Rightarrow> u8 list option) \<Rightarrow> u8 list \<Rightarrow> bool" where
  "formats buf maxlen m txt f \<longleftrightarrow>
     (\<forall>fmt ap st out. sink_of buf maxlen m st \<longrightarrow> fstr (span buf (unat maxlen)) m fmt f \<longrightarrow> render txt f ap = Some out \<longrightarrow>
        kept maxlen st out \<longrightarrow> fmt_loop buf maxlen fmt ap st = emit buf maxlen out st)"

lemma formatsD:
  "formats buf maxlen m txt f \<Longrightarrow> sink_of buf maxlen m st \<Longrightarrow> fstr (span buf (unat maxlen)) m fmt f \<Longrightarrow> render txt f ap = Some out \<Longrightarrow>
     kept maxlen st out \<Longrightarrow> fmt_loop buf maxlen fmt ap st = emit buf maxlen out st"
  unfolding formats_def by blast

lemma fmt_percent:
  assumes st: "sink_of buf maxlen m st" and fs: "fst st fmt = 0x25" "fstr (span buf (unat maxlen)) (fst st) (fmt + 1) (d # h)" "d \<noteq> 0x25"
    and out: "render txt (0x25 # d # h) ap = Some out" "kept maxlen st out"
    and strs: "\<And>q t. txt q = Some t \<Longrightarrow> q \<noteq> 0 \<and> fstr (span buf (unat maxlen)) m q t"
    and IH: "\<And>f'. length f' \<le> length h \<Longrightarrow> formats buf maxlen m txt f'"
  shows "fmt_loop buf maxlen fmt ap st = emit buf maxlen out st"
proof -
  obtain z w l f5 where pl: "parse_list (d # h) = (z, w, l, f5)" by (cases "parse_list (d # h)")
  obtain p where p: "parse_spec (fst st) (fmt + 1) = Some (z, w, l, p)" "fstr (span buf (unat maxlen)) (fst st) p f5"
    using parse_spec_list [OF fs(2) pl] by blast
  have r: "(case f5 of [] \<Rightarrow> None | spec # f' \<Rightarrow>
      if spec = 0x63 then map_option ((#) (Fetched, ucast (ap 0))) (render txt f' (\<lambda>i. ap (Suc i)))
      else if spec = 0x73 then
        Option.bind (if ap 0 = 0 then Some [0x28, 0x6E, 0x75, 0x6C, 0x6C, 0x29] else txt (ap 0)) (\<lambda>t.
          map_option ((@) (map (Pair Copied) t)) (render txt f' (\<lambda>i. ap (Suc i))))
      else if spec \<in> {0x64, 0x69, 0x75, 0x78, 0x58} then
        map_option ((@) (map (Pair Computed) (number_text z w l spec (ap 0)))) (render txt f' (\<lambda>i. ap (Suc i)))
      else render txt f' ap) = Some out"
    using out(1) pl fs(3) by (subst (asm) render.simps) simp
  then obtain spec f' where f5: "f5 = spec # f'" by (cases f5) auto
  have len: "length f' \<le> length h" using parse_list_length [OF pl] by (simp add: f5)
  have sp: "fst st p = spec" and fp: "fstr (span buf (unat maxlen)) (fst st) (p + 1) f'"
    using fstr_Cons [OF p(2) [unfolded f5]] by simp_all
  have mp: "fstr (span buf (unat maxlen)) m (p + 1) f'" using fp by (rule fstr_cong) (use st in \<open>simp add: sink_of_def\<close>)
  show ?thesis
  proof (rule fmt_conversion [OF st _ _ _ p(1) sp strs r [unfolded f5 list.case] out(2)])
    show "fst st fmt = 0x25" "fst st (fmt + 1) \<noteq> 0" "fst st (fmt + 1) \<noteq> 0x25" using fs fstr_Cons [OF fs(2)] by simp_all
  qed (assumption | rule formatsD [OF IH [OF len] _ mp])+
qed

lemma fmt_loop_render:
  assumes strs: "\<And>q t. txt q = Some t \<Longrightarrow> q \<noteq> 0 \<and> fstr (span buf (unat maxlen)) m q t"
  shows "formats buf maxlen m txt f"
proof (induction f rule: length_induct)
  case (1 f)
  show ?case unfolding formats_def
  proof (intro allI impI)
    fix fmt ap st out
    assume st: "sink_of buf maxlen m st" and mf: "fstr (span buf (unat maxlen)) m fmt f" and out: "render txt f ap = Some out"
      and kept: "kept maxlen st out"
    note fs = sink_of_fstr [OF st mf]
    consider "f = []" | c g where "f = c # g" "c \<noteq> 0x25" | "f = [0x25]" | h where "f = 0x25 # 0x25 # h"
      | d h where "f = 0x25 # d # h" "d \<noteq> 0x25" by (metis neq_Nil_conv)
    then show "fmt_loop buf maxlen fmt ap st = emit buf maxlen out st"
    proof cases
      case 1
      then show ?thesis using fs out by (subst fmt_loop.simps) (auto simp: render.simps dest: fstr_Nil)
    next
      case (2 c g)
      then obtain o' where o': "render txt g ap = Some o'" "out = (Copied, c) # o'" using out by (subst (asm) render.simps) auto
      note c = fstr_Cons [OF fs [unfolded 2(1)]] and k = kept_Cons(1) [OF sink_of_ok [OF st] kept [unfolded o'(2)]]
      have "fmt_loop buf maxlen (fmt + 1) ap (OUT buf maxlen c st) = emit buf maxlen o' (OUT buf maxlen c st)"
        using 1 2 fstr_Cons [OF mf [unfolded 2(1)]] by (intro formatsD [OF _ sink_of_OUT [OF st] _ o'(1) k]) simp_all
      then show ?thesis using 2(2) o'(2) c fmt_loop_stuck [of maxlen st fmt buf ap]
        by (cases "room maxlen st") (subst fmt_loop.simps, simp_all)
    next
      case 3
      then show ?thesis using out fstr_Cons [OF fs [unfolded 3]] by (subst fmt_loop.simps) (auto simp: render.simps dest: fstr_Nil)
    next
      case (4 h)
      then obtain o' where o': "render txt h ap = Some o'" "out = (Computed, 0x25) # o'" using out by (subst (asm) render.simps) auto
      note k = kept_Cons(1) [OF sink_of_ok [OF st] kept [unfolded o'(2)]]
      note m1 = fstr_Cons [OF mf [unfolded 4], THEN conjunct2, THEN conjunct2] and s1 = fstr_Cons [OF fs [unfolded 4]]
      have "fmt_loop buf maxlen (fmt + 1 + 1) ap (OUT buf maxlen 0x25 st) = emit buf maxlen o' (OUT buf maxlen 0x25 st)"
        using 1 4 fstr_Cons [OF m1] by (intro formatsD [OF _ sink_of_OUT [OF st] _ o'(1) k]) simp_all
      then show ?thesis using o'(2) s1 fstr_Cons [OF s1 [THEN conjunct2, THEN conjunct2]] by (subst fmt_loop.simps) (simp add: add.assoc)
    next
      case (5 d h)
      show ?thesis
        by (rule fmt_percent [OF st _ _ 5(2) out [unfolded 5(1)] kept strs]) (use 1 5 fstr_Cons [OF fs [unfolded 5(1)]] in simp_all)
    qed
  qed
qed

lemma fmt_vsnprintf_render:
  assumes "cstr m fmt f" and "span fmt (Suc (length f)) \<inter> span buf (unat maxlen) = {}"
    and "\<And>q t. txt q = Some t \<Longrightarrow> q \<noteq> 0 \<and> cstr m q t \<and> span q (Suc (length t)) \<inter> span buf (unat maxlen) = {}"
    and "render txt f ap = Some out" and "Fetched \<notin> fst ` set (drop (unat maxlen - 1) out)"
  shows "fmt_vsnprintf buf maxlen fmt ap m =
    (if Copied \<in> fst ` set (drop (unat maxlen - 1) out) then None
     else Some (of_nat (min (length out) (unat maxlen - 1)),
       if maxlen = 0 then m else poke buf (take (unat maxlen - 1) (map snd out) @ [0]) m))"
proof -
  let ?n = "unat maxlen - 1" let ?k = "min (length out) ?n" let ?o = "map snd out"
  have k: "unat (of_nat ?k :: u64) = ?k" using unat_bound [of maxlen] by (simp add: unat_of_nat min_def)
  have strs: "q \<noteq> 0 \<and> fstr (span buf (unat maxlen)) m q t" if "txt q = Some t" for q t
    using assms(3) [OF that] by (simp add: fstr_def)
  have "fmt_loop buf maxlen fmt ap (m, 0) = emit buf maxlen out (m, 0)"
    using assms(1,2,4,5) by (intro formatsD [OF fmt_loop_render [OF strs]])
      (simp_all add: sink_of_def sink_ok_def fstr_def kept_def left_def)
  also have "\<dots> = (if Copied \<in> fst ` set (drop ?n out) then None else Some (fold (OUT buf maxlen) ?o (m, 0)))"
    by (subst emit_fold) (simp_all add: sink_ok_def left_def)
  finally have run: "fmt_loop buf maxlen fmt ap (m, 0) = \<dots>" .
  have "fold (OUT buf maxlen) ?o (m, 0) = (if maxlen = 0 then m else poke buf (take ?n ?o) m, of_nat ?k)"
    using fold_OUT_zero [of buf ?o m] fold_OUT_poke [of 0 maxlen buf ?o m] by (auto simp: unat_gt_0)
  moreover have "(of_nat ?k :: u64) < maxlen" if "maxlen \<noteq> 0"
    using that k by (simp add: word_less_nat_alt unat_gt_0 [symmetric] del: unat_gt_0)
  moreover have "ucast (of_nat ?k :: u64) = (of_nat ?k :: u32)" 
    by (rule word_unat_eq_iff [THEN iffD2]) (simp add: unsigned_ucast_eq take_bit_eq_mod unat_of_nat mod_mod_cancel)
  moreover have "length (take ?n ?o) = ?k" by simp
  ultimately show ?thesis using run by (auto simp: fmt_vsnprintf_def poke_append simp del: length_take)
qed

lemma span_unat:
  assumes "x \<in> span a n" and "unat a + n \<le> 2 ^ 64"
  shows "unat a \<le> unat x \<and> unat x < unat a + n"
proof -
  obtain i where i: "i < n" "x = a + of_nat i" using assms(1) by (auto simp: span_def)
  then have "unat (of_nat i :: u64) = i" using assms(2) by (simp add: unat_of_nat)
  then have "unat x = unat a + i" unfolding i(2) using assms(2) i(1) by (subst unat_add_no_ovf) simp_all
  with i(1) show ?thesis by simp
qed

lemma span_disjoint: "unat a + n \<le> unat b \<Longrightarrow> unat b + k \<le> 2 ^ 64 \<Longrightarrow> span a n \<inter> span b k = {}"
  using span_unat [of _ a n] span_unat [of _ b k] by fastforce

section \<open>Numbers as text\<close>

definition decval :: "u64 \<Rightarrow> u8 list \<Rightarrow> u64" where
  "decval = foldl (\<lambda>v c. v * 10 + word_of_int (uint c - 0x30))"

lemma strtol_loop_dec:
  "cstr m p ds \<Longrightarrow> list_all is_dec ds \<Longrightarrow> strtol_loop m 10 p v = Some (decval v ds, p + of_nat (length ds))"
proof (induction ds arbitrary: p v)
  case (Cons c ds)
  have "digit_value c = Some (uint c - 0x30)" "\<not> 10 \<le> uint c - 0x30"
    using Cons.prems(2) by (simp_all add: is_dec_def digit_value_def word_le_def)
  with Cons show ?case by (subst strtol_loop.simps) (simp add: decval_def add.assoc)
qed (subst strtol_loop.simps, simp add: decval_def)

lemma digit_char_dec:
  assumes "d < 10"
  shows "is_dec (digit_char False d)" and "word_of_int (uint (digit_char False d) - 0x30) = (d :: u64)"
proof -
  have "unat d < 10" using assms by (simp add: word_less_nat_alt)
  moreover from this have "unat (ucast d :: u8) = unat d" by (simp add: unsigned_ucast_eq take_bit_eq_mod)
  ultimately have u: "unat (0x30 + ucast d :: u8) = 0x30 + unat d" by (subst unat_add_no_ovf) simp_all
  show "is_dec (digit_char False d)"
    using assms u \<open>unat d < 10\<close> by (simp add: is_dec_def digit_char_def word_le_nat_alt)
  have "uint (0x30 + ucast d :: u8) = 0x30 + uint d" using arg_cong [OF u, of int] by simp
  then show "word_of_int (uint (digit_char False d) - 0x30) = (d :: u64)" using assms by (simp add: digit_char_def)
qed

lemma tmp_digits_dec:
  "list_all is_dec (rev (tmp_digits False False v)) \<and> decval 0 (rev (tmp_digits False False v)) = v"
proof (induction "False" "False" v rule: tmp_digits.induct)
  case (1 v)
  show ?case
  proof (cases "v = 0")
    case False
    have "v mod 10 < 10" by (simp add: word_less_nat_alt unat_mod)
    note d = digit_char_dec [OF this]
    from 1 [OF False refl] False d show ?thesis
      by (subst (1 2) tmp_digits.simps) (simp add: decval_def div_mult_mod_eq)
  qed (simp add: tmp_digits.simps decval_def)
qed

lemma tmp_digits_length: "unat v < 10 ^ k \<Longrightarrow> length (tmp_digits False upper v) \<le> k"
proof (induction k arbitrary: v)
  case (Suc k)
  have "unat (v div 10) < 10 ^ k" using Suc.prems by (simp add: unat_div less_mult_imp_div_less mult.commute)
  from Suc.IH [OF this] show ?case by (subst tmp_digits.simps) simp
qed (simp add: tmp_digits.simps unat_eq_0)

lemma dec_text:
  "list_all is_dec (if v = 0 then [0x30] else rev (tmp_digits False False v))"
  "decval 0 (if v = 0 then [0x30] else rev (tmp_digits False False v)) = v"
  using tmp_digits_dec [of v] by (auto simp: is_dec_def decval_def)

lemma number_text_d:
  obtains ds neg where "number_text False 0 False 0x64 a = (if neg then [0x2D] else []) @ ds" and "ds \<noteq> []" and "list_all is_dec ds"
    and "length ds \<le> 10" and "(if neg then - decval 0 ds else decval 0 ds) = word_of_int (sint (ucast a :: u32))"
proof -
  let ?s = "sint (ucast a :: u32)"
  let ?v = "word_of_int (if ?s < 0 then - ?s else ?s) :: u64"
  let ?ds = "if ?v = 0 then [0x30] else rev (tmp_digits False False ?v)"
  have r: "- 2147483648 \<le> ?s" "?s < 2147483648"
    using sint_greater_eq [of "ucast a :: u32"] sint_less [of "ucast a :: u32"] by simp_all
  then have "uint ?v = (if ?s < 0 then - ?s else ?s)" by (simp add: unsigned_of_int take_bit_int_eq_self)
  then have "unat ?v \<le> 2147483648" using r by (simp add: unat_eq_nat_uint nat_le_iff)
  then have len: "length (tmp_digits False False ?v) \<le> 10" by (intro tmp_digits_length) simp
  show thesis
  proof (rule that [of "?s < 0" ?ds])
    show "number_text False 0 False 0x64 a = (if ?s < 0 then [0x2D] else []) @ ?ds"
      by (simp add: number_text_def int_arg_def Let_def)
    show "?ds \<noteq> []" by (simp add: tmp_digits.simps [of _ _ ?v])
    show "list_all is_dec ?ds" by (rule dec_text)
    show "length ?ds \<le> 10" using len by simp
    show "(if ?s < 0 then - decval 0 ?ds else decval 0 ?ds) = word_of_int ?s" unfolding dec_text by simp
  qed
qed

lemma atoi_text:
  assumes "cstr m p ((if neg then [0x2D] else []) @ ds)" and "ds \<noteq> []" and dec: "list_all is_dec ds"
  shows "atoi m p = Some (ucast (if neg then - decval 0 ds else decval 0 ds))"
proof -
  obtain c ds' where ds: "ds = c # ds'" using assms(2) by (cases ds) auto
  have c: "c \<noteq> 0x20" "c \<noteq> 0x09" "c \<noteq> 0x2D" "c \<noteq> 0x2B" using dec by (auto simp: ds is_dec_def)
  let ?q = "if neg then p + 1 else p"
  have q: "cstr m ?q ds" using assms(1) by (cases neg) simp_all
  have mp: "m p = (if neg then 0x2D else c)" using assms(1) by (cases neg) (simp_all add: ds)
  then have "skip_blanks m p = Some p" using c by (subst skip_blanks.simps) auto
  then show ?thesis
    using strtol_loop_dec [OF q dec, of 0] mp c by (cases neg) (simp_all add: atoi_def strtol_def Let_def)
qed

section \<open>Where the functions depart from the standard\<close>

text \<open>A format that ends inside a conversion: the terminating zero is taken for the conversion, and formatting goes on behind it.\<close>

lemma fmt_runs_past_end:
  assumes "fst st fmt = 0x25" and "fst st (fmt + 1) = 0x35" and "fst st (fmt + 2) = 0"
  shows "fmt_loop buf maxlen fmt ap st = fmt_loop buf maxlen (fmt + 3) ap st"
proof -
  have n: "fmt + 1 + 1 = fmt + 2" "fmt + 2 + 1 = fmt + 3" by simp_all
  have "read_int (fst st) (fmt + 1) 0 = read_int (fst st) (fmt + 1 + 1) 5"
    using assms(2) by (subst read_int.simps) (simp add: is_dec_def)
  also have "\<dots> = Some (5, fmt + 2)" unfolding n using assms(3) by (subst read_int.simps) (simp add: is_dec_def)
  finally have "read_int (fst st) (fmt + 1) 0 = Some (5, fmt + 2)" .
  then have "parse_spec (fst st) (fmt + 1) = Some (False, 5, False, fmt + 2)"
    using assms by (simp add: parse_spec_def)
  then show ?thesis using assms by (subst fmt_loop.simps) (simp add: Let_def add.commute [of 3])
qed

text \<open>\<open>%d\<close> lets the text choose the base, so that a leading zero makes \<open>sscanf\<close> read octal: \<open>010\<close> is stored as 8.\<close>

lemma sscanf_octal:
  assumes s: "cstr m s [0x30, 0x31, 0x30]" and fmt: "cstr m fmt [0x25, 0x64]" and "\<not> fmt + 2 - ap 0 < 4"
  shows "vsscanf_impl s fmt ap 0 m = Some (1, write32 m (ap 0) 8)"
proof -
  have sb: "skip_blanks m s = Some s" "skip_ws m s = Some s"
    using s by (subst skip_blanks.simps skip_ws.simps; simp add: is_blank_def)+
  have "strtol_loop m 8 s 0 = strtol_loop m 8 (s + 1) 0" using s by (subst strtol_loop.simps) (simp add: digit_value_def)
  also have "\<dots> = strtol_loop m 8 (s + 1 + 1) 1" using s by (subst strtol_loop.simps) (simp add: digit_value_def)
  also have "\<dots> = strtol_loop m 8 (s + 1 + 1 + 1) 8" using s by (subst strtol_loop.simps) (simp add: digit_value_def)
  also have "\<dots> = Some (8, s + 3)" using s by (subst strtol_loop.simps) (simp add: digit_value_def)
  finally have "strtol m s 0 = Some (8, s + 3)" using sb s by (simp add: strtol_def)
  then have c: "scan_conversion 0x64 False (ap 0) s m = Some (Some (s + 3, write32 m (ap 0) 8))"
    using sb by (simp add: scan_conversion_def scan_base_def scan_store_def)
  have "vsscanf_impl (s + 3) (fmt + 2) (\<lambda>i. ap (Suc i)) 1 (write32 m (ap 0) 8) = Some (1, write32 m (ap 0) 8)"
    using fmt assms(3) by (subst vsscanf_impl.simps) (simp add: write32_def add.assoc)
  with c fmt show ?thesis by (subst vsscanf_impl.simps) (simp add: scan_size_def is_blank_def add.assoc)
qed

section \<open>Properties\<close>

text \<open>
  C18. Formatted output is what the format says, if it fits. For every format string without a cut-off conversion,
  whose strings lie in memory apart from the buffer, the formatter writes exactly the rendered text cut to
  the buffer and a terminating zero, touches no other byte, and returns the number of characters
  written, as long as no character of the format or of a string argument lies behind the end of the buffer. If
  one does, the call never returns: the macro that writes a character then no longer advances the pointer
  it is read from. (The text of \<open>%c\<close> is to lie inside the buffer.)
\<close>

theorem vsnprintf_correct:
  assumes "cstr m fmt f" and "span fmt (Suc (length f)) \<inter> span buf (unat maxlen) = {}"
    and "\<And>q t. txt q = Some t \<Longrightarrow> q \<noteq> 0 \<and> cstr m q t \<and> span q (Suc (length t)) \<inter> span buf (unat maxlen) = {}"
    and "render txt f ap = Some out" and "Fetched \<notin> fst ` set (drop (unat maxlen - 1) out)"
  shows "fmt_vsnprintf buf maxlen fmt ap m =
    (if Copied \<in> fst ` set (drop (unat maxlen - 1) out) then None
     else Some (of_nat (min (length out) (unat maxlen - 1)),
       if maxlen = 0 then m else poke buf (take (unat maxlen - 1) (map snd out) @ [0]) m))"
  using assms by (rule fmt_vsnprintf_render)

text \<open>
  C20. Numbers survive the trip through text. For every 32-bit number, printing it with \<open>%d\<close> into a buffer of at
  least twelve bytes and reading the buffer with \<open>atoi\<close> gives the number back, the least one included.
\<close>

theorem printf_atoi:
  assumes "cstr m fmt [0x25, 0x64]" and "span fmt 3 \<inter> span buf (unat maxlen) = {}" and "12 \<le> unat maxlen"
  shows "\<exists>r m'. fmt_vsnprintf buf maxlen fmt ap m = Some (r, m') \<and> atoi m' buf = Some (ucast (ap 0))"
proof -
  obtain ds neg where nt: "number_text False 0 False 0x64 (ap 0) = (if neg then [0x2D] else []) @ ds" and ds: "ds \<noteq> []" "list_all is_dec ds"
    "length ds \<le> 10" and v: "(if neg then - decval 0 ds else decval 0 ds) = word_of_int (sint (ucast (ap 0) :: u32))"
    by (rule number_text_d)
  let ?o = "(if neg then [0x2D] else []) @ ds"
  have len: "length ?o \<le> unat maxlen - 1" "length ?o < 2 ^ 64" using ds(3) assms(3) by auto
  have "render (\<lambda>_. None) [0x25, 0x64] ap = Some (map (Pair Computed) ?o)"
    by (simp add: render.simps parse_list_def opt_drop_def is_dec_def int_of_def nt)
  then have f: "fmt_vsnprintf buf maxlen fmt ap m = (if Copied \<in> fst ` set (drop (unat maxlen - 1) (map (Pair Computed) ?o)) then None
      else Some (of_nat (min (length (map (Pair Computed) ?o)) (unat maxlen - 1)),
        if maxlen = 0 then m else poke buf (take (unat maxlen - 1) (map snd (map (Pair Computed) ?o)) @ [0]) m))"
    using assms len(1) by (intro fmt_vsnprintf_render) (simp_all add: numeral_3_eq_3)
  have "0 \<notin> set ?o" using ds(2) by (auto simp: list_all_iff is_dec_def)
  with len(2) have "cstr (poke buf (?o @ [0]) m) buf ?o" by (intro cstr_poke)
  from atoi_text [OF this ds(1,2)] have "atoi (poke buf (?o @ [0]) m) buf = Some (ucast (word_of_int (sint (ucast (ap 0) :: u32)) :: u64))"
    unfolding v .
  moreover have "ucast (word_of_int (sint x) :: u64) = x" for x :: u32
  proof -
    have "ucast (word_of_int k :: u64) = (word_of_int k :: u32)" for k
      by (rule bit_word_eqI) (simp add: bit_ucast_iff bit_word_of_int_iff)
    then have "ucast (word_of_int (sint x) :: u64) = (word_of_int (sint x) :: u32)" .
    also have "\<dots> = x" by simp
    finally show ?thesis .
  qed
  moreover have "maxlen \<noteq> 0" using assms(3) by auto
  ultimately show ?thesis using f len(1) by (simp add: comp_def)
qed

text \<open>The format \<open>%s=%04d\<close> at 100, the string \<open>hp\<close> at 200, and a buffer of 7 bytes at 300, which the last digit misses, or of
  3 bytes, which the equals sign misses.\<close>

definition demo_mem :: memory where
  "demo_mem = poke 200 [0x68, 0x70, 0] (poke 100 [0x25, 0x73, 0x3D, 0x25, 0x30, 0x34, 0x64, 0] (\<lambda>_. 0xFF))"

definition demo_args :: "nat \<Rightarrow> u64" where
  "demo_args i = (if i = 0 then 200 else - 42)"

definition demo_text :: "(origin \<times> u8) list" where
  "demo_text = [(Copied, 0x68), (Copied, 0x70), (Copied, 0x3D), (Computed, 0x2D), (Computed, 0x30), (Computed, 0x34), (Computed, 0x32)]"

theorem vsnprintf_correct_witness:
  "fmt_vsnprintf 300 7 100 demo_args demo_mem = Some (6, poke 300 [0x68, 0x70, 0x3D, 0x2D, 0x30, 0x34, 0] demo_mem)
   \<and> fmt_vsnprintf 300 3 100 demo_args demo_mem = None"
proof -
  let ?txt = "\<lambda>q. if q = 200 then Some [0x68, 0x70] else None"
  let ?f = "[0x25, 0x73, 0x3D, 0x25, 0x30, 0x34, 0x64]"
  have n: "number_text True 4 False 0x64 (- 42) = [0x2D, 0x30, 0x34, 0x32]"
    by (simp add: number_text_def int_arg_def tmp_digits.simps digit_char_def)
  have r: "render ?txt ?f demo_args = Some demo_text"
    by (simp add: render.simps parse_list_def opt_drop_def is_dec_def int_of_def demo_args_def demo_text_def n)
  have c: "cstr demo_mem 100 ?f" "cstr demo_mem 200 [0x68, 0x70]" by (simp_all add: demo_mem_def)
  have s: "span 100 (Suc (length ?f)) \<inter> span 300 (unat k) = {}" "span 200 (Suc (length [0x68, 0x70 :: u8])) \<inter> span 300 (unat k) = {}"
    if "k < 1000" for k :: u64
    using that by (intro span_disjoint; simp add: word_less_nat_alt)+
  have run: "fmt_vsnprintf 300 k 100 demo_args demo_mem =
    (if Copied \<in> fst ` set (drop (unat k - 1) demo_text) then None
     else Some (of_nat (min (length demo_text) (unat k - 1)),
       if k = 0 then demo_mem else poke 300 (take (unat k - 1) (map snd demo_text) @ [0]) demo_mem))" if "k < 1000" for k
    using c(2) s(2) [OF that] by (intro vsnprintf_correct [OF c(1) s(1) [OF that] _ r]) (auto simp: demo_text_def drop_Cons' split: if_splits)
  show ?thesis using run [of 7] run [of 3] by (simp add: demo_text_def)
qed

theorem printf_atoi_witness:
  "\<exists>r m'. fmt_vsnprintf 300 12 100 (\<lambda>_. 0x80000000) (poke 100 [0x25, 0x64, 0] (\<lambda>_. 0xFF)) = Some (r, m') \<and> atoi m' 300 = Some 0x80000000"
proof -
  have "span 100 3 \<inter> span 300 (unat (12 :: u64)) = {}" by (rule span_disjoint) simp_all
  from printf_atoi [OF _ this, of "poke 100 [0x25, 0x64, 0] (\<lambda>_. 0xFF)" "\<lambda>_. 0x80000000"] show ?thesis by simp
qed

end
