(* ===== verification/C_Stdio.thy ===== *)
theory C_Stdio
  imports C_Heap C_Format Cxfs
begin

text \<open>
  Files and console output for the Doom engine (\<open>src/ffi/stubs.c\<close>, with \<open>rust_fs_open\<close> and \<open>rust_serial_write\<close> of
  \<open>src/ffi/mod.rs\<close>). A \<open>FILE\<close> is three words in memory that \<open>malloc\<close> hands out: the address of the file's bytes
  inside the loaded archive, their number and the position. The archive is an allocation of the kernel on
  the same heap. The serial port is the list of bytes sent so far.
\<close>

section \<open>Files\<close>

definition bytes_at :: "memory \<Rightarrow> ptr \<Rightarrow> nat \<Rightarrow> u8 list" where
  "bytes_at m p n = map (\<lambda>i. m (p + of_nat i)) [0..<n]"

text \<open>
  The pointer and the value of \<open>*out_size\<close>, which the caller has set to zero. The archive is the address and
  the contents of the vector in \<open>ARCHIVE\<close>.
\<close>

definition rust_fs_open :: "(ptr \<times> u8 list) option \<Rightarrow> memory \<Rightarrow> ptr \<Rightarrow> (ptr \<times> u64) res option" where
  "rust_fs_open archive m s =
     map_option (\<lambda>n.
       let name = bytes_at m s (unat n) in
       if \<not> utf8_valid name then Inr (0, 0)
       else rbind (fs_open_slice (map_option snd archive) name) (\<lambda>f.
         case (f, archive) of
           (Some (off, file), Some (base, _)) \<Rightarrow> Inr (base + of_nat off, of_nat (length file))
         | _ \<Rightarrow> Inr (0, 0))) (strlen m s)"

definition fopen :: "(Layout \<Rightarrow> 'h \<Rightarrow> usize option \<times> 'h) \<Rightarrow> (ptr \<times> u8 list) option \<Rightarrow> ptr \<Rightarrow> 'h cheap \<Rightarrow> (ptr \<times> 'h cheap) res option" where
  "fopen aff archive path st =
     map_option (\<lambda>r. rbind r (\<lambda>(data, sz).
       if data = 0 then Inr (0, st)
       else rbind (malloc aff 24 st) (\<lambda>(f, h, m).
         if f = 0 then Inr (0, h, m)
         else Inr (f, h, write64 (write64 (write64 m f data) (f + 8) sz) (f + 16) 0)))) (rust_fs_open archive (snd st) path)"

definition fclose :: "(usize \<Rightarrow> Layout \<Rightarrow> 'h \<Rightarrow> 'h) \<Rightarrow> ptr \<Rightarrow> 'h cheap \<Rightarrow> 'h cheap res" where
  "fclose dea f st = free dea f st"

text \<open>A division by zero is an exception of the processor.\<close>

definition fread :: "ptr \<Rightarrow> u64 \<Rightarrow> u64 \<Rightarrow> ptr \<Rightarrow> memory \<Rightarrow> (u64 \<times> memory) res" where
  "fread buf sz nmemb f m =
     (if f = 0 \<or> read64 m f = 0 then Inr (0, m)
      else let bytes = sz * nmemb;
               avail = read64 m (f + 8) - read64 m (f + 16);
               bytes = (if avail < bytes then avail else bytes);
               m = copy_bytes (read64 m f + read64 m (f + 16)) buf bytes m;
               m = write64 m (f + 16) (read64 m (f + 16) + bytes)
           in if sz = 0 then Inl DivideByZero else Inr (bytes div sz, m))"

definition fseek :: "ptr \<Rightarrow> u64 \<Rightarrow> int \<Rightarrow> memory \<Rightarrow> int \<times> memory" where
  "fseek f offset whence m =
     (if f = 0 then (- 1, m)
      else let pos = (if whence = 0 then offset
                      else if whence = 1 then read64 m (f + 16) + offset
                      else read64 m (f + 8) + offset)
           in if read64 m (f + 8) < pos then (- 1, m) else (0, write64 m (f + 16) pos))"

definition ftell :: "ptr \<Rightarrow> memory \<Rightarrow> u64" where
  "ftell f m = (if f \<noteq> 0 then read64 m (f + 16) else - 1)"

section \<open>Console output\<close>

definition rust_serial_write :: "memory \<Rightarrow> ptr \<Rightarrow> u64 \<Rightarrow> u8 list \<Rightarrow> u8 list" where
  "rust_serial_write m s len out = (let bytes = bytes_at m s (unat len) in if utf8_valid bytes then out @ bytes else out)"

definition serial_puts :: "memory \<Rightarrow> ptr \<Rightarrow> u8 list \<Rightarrow> u8 list option" where
  "serial_puts m s out = map_option (\<lambda>n. rust_serial_write m s n out) (strlen m s)"

definition puts :: "memory \<Rightarrow> ptr \<Rightarrow> u8 list \<Rightarrow> u8 list option" where
  "puts m s out = map_option (\<lambda>out. out @ [0x0A]) (serial_puts m s out)"

text \<open>\<open>buf\<close> is the address of the local buffer of 512 bytes.\<close>

definition vprintf_impl :: "ptr \<Rightarrow> ptr \<Rightarrow> (nat \<Rightarrow> u64) \<Rightarrow> memory \<Rightarrow> u8 list \<Rightarrow> (u32 \<times> memory \<times> u8 list) option" where
  "vprintf_impl buf fmt ap m out =
     Option.bind (fmt_vsnprintf buf 512 fmt ap m) (\<lambda>(r, m).
       Option.bind (serial_puts m buf out) (\<lambda>out. Some (r, m, out)))"

definition sprintf :: "ptr \<Rightarrow> ptr \<Rightarrow> (nat \<Rightarrow> u64) \<Rightarrow> memory \<Rightarrow> (u32 \<times> memory) option" where
  "sprintf buf fmt ap m = fmt_vsnprintf buf 4096 fmt ap m"

section \<open>A file in memory\<close>

definition file_rep :: "memory \<Rightarrow> ptr \<Rightarrow> ptr \<Rightarrow> u64 \<Rightarrow> u64 \<Rightarrow> bool" where
  "file_rep m f data sz pos \<longleftrightarrow> f \<noteq> 0 \<and> data \<noteq> 0 \<and> read64 m f = data \<and> read64 m (f + 8) = sz \<and> read64 m (f + 16) = pos \<and> pos \<le> sz"

lemma file_sep [simp]: "sep8 0 8" "sep8 8 0" "sep8 0 16" "sep8 16 0" "sep8 8 16" "sep8 16 8"
  by (simp_all add: sep8_def)

lemma file_rep_new:
  "f \<noteq> 0 \<Longrightarrow> data \<noteq> 0 \<Longrightarrow> file_rep (write64 (write64 (write64 m f data) (f + 8) sz) (f + 16) 0) f data sz 0"
  by (simp add: file_rep_def read64_write64_sep)

lemma file_rep_pos: "file_rep m f data sz pos \<Longrightarrow> pos' \<le> sz \<Longrightarrow> file_rep (write64 m (f + 16) pos') f data sz pos'"
  by (simp add: file_rep_def read64_write64_sep)

text \<open>Seeking moves the position inside the file, or fails and changes nothing.\<close>

lemma fseek_spec:
  assumes "file_rep m f data sz pos"
  shows "fseek f offset whence m =
    (let pos' = (if whence = 0 then offset else if whence = 1 then pos + offset else sz + offset)
     in if pos' \<le> sz then (0, write64 m (f + 16) pos') else (- 1, m))"
  using assms by (auto simp: fseek_def file_rep_def Let_def not_less)

text \<open>Reading copies what the file still has, and advances by as much.\<close>

lemma fread_spec:
  assumes rep: "file_rep m f data sz pos" and "elem \<noteq> 0"
    and apart: "\<And>a. a - f < 24 \<Longrightarrow> copy_bytes (data + pos) buf (min (elem * n) (sz - pos)) m a = m a"
  shows "fread buf elem n f m =
    Inr (min (elem * n) (sz - pos) div elem,
      write64 (copy_bytes (data + pos) buf (min (elem * n) (sz - pos)) m) (f + 16) (pos + min (elem * n) (sz - pos)))"
proof -
  let ?k = "min (elem * n) (sz - pos)" let ?m = "copy_bytes (data + pos) buf ?k m"
  have k: "(if sz - pos < elem * n then sz - pos else elem * n) = ?k" by (auto simp: min_def)
  have "read64 ?m (f + 16) = read64 m (f + 16)"
  proof (rule read64_cong)
    fix i :: nat assume "i < 8"
    then have "unat (16 + of_nat i :: u64) = 16 + i" by (subst unat_add_no_ovf) (simp_all add: unat_of_nat)
    then show "?m (f + 16 + of_nat i) = m (f + 16 + of_nat i)"
      using \<open>i < 8\<close> by (intro apart) (simp add: word_less_nat_alt add.assoc)
  qed
  then show ?thesis using rep assms(2) k by (simp add: fread_def file_rep_def Let_def)
qed

lemma bytes_at_cong: "(\<And>i. i < n \<Longrightarrow> m (p + of_nat i) = m' (p' + of_nat i)) \<Longrightarrow> bytes_at m p n = bytes_at m' p' n"
  by (simp add: bytes_at_def)

lemma bytes_at_part: "bytes_at m p n = xs \<Longrightarrow> off + k \<le> n \<Longrightarrow> bytes_at m (p + of_nat off) k = take k (drop off xs)"
  by (auto simp: bytes_at_def intro!: nth_equalityI simp: add.assoc)

lemma bytes_at_nth: "bytes_at m p n = xs \<Longrightarrow> i < n \<Longrightarrow> m (p + of_nat i) = xs ! i"
  by (auto simp: bytes_at_def)

lemma bytes_at_cstr: "cstr m p s \<Longrightarrow> bytes_at m p (unat (of_nat (length s) :: u64)) = s"
  using cstr_nth [of m p s] unat_cstr_length [of m p s] by (auto simp: bytes_at_def intro!: nth_equalityI)

lemma write64_outside:
  assumes "\<not> x - r < n" and "unat k + 8 \<le> unat n"
  shows "write64 m (r + k) v x = m x"
proof -
  have "\<not> x - (r + k) < 8"
  proof
    assume lt: "x - (r + k) < 8"
    then have "unat (x - (r + k) + k) = unat (x - (r + k)) + unat k"
      using assms(2) unat_bound [of n] by (intro unat_add_no_ovf) (simp add: word_less_nat_alt)
    moreover have "x - (r + k) + k = x - r" by simp
    ultimately show False using lt assms by (simp add: word_less_nat_alt)
  qed
  then show ?thesis by (simp add: write64_def)
qed

lemma pos_min: "pos \<le> sz \<Longrightarrow> pos + min k (sz - pos) \<le> (sz :: u64)"
proof -
  assume "pos \<le> sz"
  then have "unat (sz - pos) = unat sz - unat pos" by (rule unat_sub)
  moreover have "unat (min k (sz - pos)) \<le> unat (sz - pos)" by (simp add: word_le_nat_alt [symmetric])
  moreover have "unat pos \<le> unat sz" using \<open>pos \<le> sz\<close> by (simp add: word_le_nat_alt)
  ultimately have "unat pos + unat (min k (sz - pos)) \<le> unat sz" by simp
  moreover from this have "unat (pos + min k (sz - pos)) = unat pos + unat (min k (sz - pos))"
    using unat_bound [of sz] by (intro unat_add_no_ovf) simp
  ultimately show ?thesis by (simp add: word_le_nat_alt)
qed

definition FILE_layout :: Layout where
  "FILE_layout = \<lparr>lay_size = 24, lay_align = 8\<rparr>"

context c_heap
begin

text \<open>The kernel's own allocations are apart from the blocks of the C code and their headers.\<close>

lemma rest_apart:
  assumes inv: "c_inv hinv rest st live" and q: "(q, l) \<in> set live" and b: "(b, lb) \<in> set rest" and x: "unat x \<in> bytes (b, lay_size lb)"
  shows "\<not> x - (q - MALLOC_HDR) < lay_size l + MALLOC_HDR"
proof (rule bytes_word)
  have "disjoint_in H (map live_block (map raw_of live @ rest))"
    using fixed_inv_live [OF inv [unfolded c_inv_def, THEN conjunct1]] by blast
  then have "bytes (live_block (raw_of (q, l))) \<inter> bytes (live_block (b, lb)) = {}"
    using q b unfolding map_append disjoint_in_append by (auto simp del: live_block_simps)
  then show "unat x \<notin> bytes (q - MALLOC_HDR, lay_size l + MALLOC_HDR)" using x by (auto simp: raw_of_def raw_layout_def)
  show "unat (q - MALLOC_HDR) + unat (lay_size l + MALLOC_HDR) \<le> 2 ^ 64" using c_block(2) [OF inv q] by simp
qed

lemma rest_block:
  assumes inv: "c_inv hinv rest st live" and b: "(b, lb) \<in> set rest" and "n \<le> unat (lay_size lb)"
  shows "b \<noteq> 0" and "unat b + unat (lay_size lb) \<le> 2 ^ 63" and "i < n \<Longrightarrow> unat (b + of_nat i) \<in> bytes (b, lay_size lb)"
proof -
  note live = fixed_inv_live [OF inv [unfolded c_inv_def, THEN conjunct1]]
  have ok: "live_ok (b, lb)" using live b by (auto simp: list_all_iff)
  then show "b \<noteq> 0" by (simp add: live_ok_def)
  have "0 < unat (lay_size lb)" using ok valid_size(2) by (simp add: live_ok_def)
  then have "unat b + unat (lay_size lb) - 1 \<in> bytes (b, lay_size lb)" by (auto simp: bytes_def)
  moreover have "(b, lay_size lb) \<in> set (map live_block (map raw_of live @ rest))" using b by force
  then have "bytes (b, lay_size lb) \<subseteq> H" using live unfolding disjoint_in_def by blast
  ultimately have "unat b + unat (lay_size lb) - 1 < 2 ^ 63" using H_bound by blast
  then show e: "unat b + unat (lay_size lb) \<le> 2 ^ 63" by simp
  assume i: "i < n"
  then have "unat (of_nat i :: u64) = i" using e assms(3) by (simp add: unat_of_nat)
  then have "unat (b + of_nat i) = unat b + i" using e i assms(3) by (subst unat_add_no_ovf) simp_all
  then show "unat (b + of_nat i) \<in> bytes (b, lay_size lb)" using i assms(3) by (simp add: bytes_def)
qed

text \<open>Opening a file that the archive has.\<close>

lemma fopen_found:
  assumes inv: "c_inv hinv rest (h, m) live" and req: "c_request request FILE_layout"
    and arch: "(base, al) \<in> set rest" "length img \<le> unat (lay_size al)" "bytes_at m base (length img) = img"
    and path: "cstr m path name" "utf8_valid name" and found: "fs_open_slice (Some img) name = Inr (Some (off, file))"
  obtains f h' m' where "fopen aff (Some (base, img)) path (h, m) = Some (Inr (f, h', m'))"
    and "f = 0 \<Longrightarrow> c_inv hinv rest (h', m') live"
    and "f \<noteq> 0 \<Longrightarrow> c_inv hinv rest (h', m') ((f, FILE_layout) # live)"
    and "f \<noteq> 0 \<Longrightarrow> file_rep m' f (base + of_nat off) (of_nat (length file)) 0"
    and "f \<noteq> 0 \<Longrightarrow> bytes_at m' base (length img) = img"
proof -
  let ?d = "base + of_nat off" and ?n = "of_nat (length file) :: u64"
  have part: "off + length file \<le> length img" using fs_open_slice_part [OF found] by blast
  note blk = rest_block [OF inv arch(1,2)]
  have off: "unat (of_nat off :: u64) = off" using part arch(2) blk(2) by (simp add: unat_of_nat)
  have "unat ?d = unat base + off" using off part arch(2) blk(2) by (subst unat_add_no_ovf) simp_all
  then have d0: "?d \<noteq> 0" using blk(1) by (metis add_is_0 unat_eq_zero)
  have ro: "rust_fs_open (Some (base, img)) m path = Some (Inr (?d, ?n))"
    using path strlen_cstr [OF path(1)] bytes_at_cstr [OF path(1)] found by (simp add: rust_fs_open_def)
  have sz: "lay_size FILE_layout = 24" by (simp add: FILE_layout_def)
  obtain f h1 m1 where a: "malloc aff 24 (h, m) = Inr (f, h1, m1)" "c_inv hinv rest (h1, m1) (if f = 0 then live else (f, FILE_layout) # live)"
    "m1 = (if f = 0 then m else write64 m (f - MALLOC_HDR) 24)"
    using malloc_spec [OF inv req] unfolding sz by (metis surj_pair snd_conv)
  show thesis
  proof (cases "f = 0")
    case True
    show thesis by (rule that [of f h1 m1]) (use True a ro d0 in \<open>simp_all add: fopen_def\<close>)
  next
    case False
    let ?m = "write64 (write64 (write64 m1 f ?d) (f + 8) ?n) (f + 16) 0"
    have inv1: "c_inv hinv rest (h1, m1) ((f, FILE_layout) # live)" using a(2) False by simp
    have keep: "?m x = m1 x" if "\<not> x - f < 24" for x
      using write64_outside [OF that, of 0] write64_outside [OF that, of 8] write64_outside [OF that, of 16] by simp
    have "?m (base + of_nat i) = m (base + of_nat i)" if "i < length img" for i
    proof -
      have ap: "\<not> base + of_nat i - (f - MALLOC_HDR) < 40"
        using rest_apart [OF inv1 _ arch(1) blk(3) [OF that], of f FILE_layout] by (simp add: sz MALLOC_HDR_def)
      have w: "write64 mm (f - MALLOC_HDR + k) v (base + of_nat i) = mm (base + of_nat i)" if "k \<in> {0, 16, 24, 32}" for mm k v
        using that by (intro write64_outside [OF ap]) auto
      have e: "f - MALLOC_HDR + 0 = f - MALLOC_HDR" "f - MALLOC_HDR + 16 = f" "f - MALLOC_HDR + 24 = f + 8" "f - MALLOC_HDR + 32 = f + 16"
        by (simp_all add: MALLOC_HDR_def)
      show ?thesis using w [of 0] w [of 16] w [of 24] w [of 32] a(3) False unfolding e by simp
    qed
    then have "bytes_at ?m base (length img) = img" using arch(3) bytes_at_cong by metis
    moreover have "c_inv hinv rest (h1, ?m) ((f, FILE_layout) # live)" using c_inv_mem [OF inv1, of ?m] keep by (simp add: sz)
    ultimately show thesis
      by (intro that [of f h1 ?m]) (use False a(1) ro d0 in \<open>simp_all add: fopen_def file_rep_new\<close>)
  qed
qed

text \<open>Reading into a block of the C code.\<close>

lemma fread_block:
  assumes inv: "c_inv hinv rest (h, m) ((f, FILE_layout) # live)" and rep: "file_rep m f data sz pos" and buf: "(buf, lb) \<in> set live"
    and n: "elem \<noteq> 0" "unat elem * unat n \<le> unat (lay_size lb)"
  obtains m' where "fread buf elem n f m = Inr (min (elem * n) (sz - pos) div elem, m')"
    and "c_inv hinv rest (h, m') ((f, FILE_layout) # live)" and "file_rep m' f data sz (pos + min (elem * n) (sz - pos))"
    and "bytes_at m' buf (unat (min (elem * n) (sz - pos))) = bytes_at m (data + pos) (unat (min (elem * n) (sz - pos)))"
proof -
  let ?k = "min (elem * n) (sz - pos)" let ?c = "copy_bytes (data + pos) buf ?k m" let ?m = "write64 ?c (f + 16) (pos + ?k)"
  have sz: "lay_size FILE_layout = 24" by (simp add: FILE_layout_def)
  have "unat elem * unat n < 2 ^ 64" using n(2) unat_bound [of "lay_size lb"] by simp
  then have "unat (elem * n) = unat elem * unat n" by (simp add: unat_word_ariths)
  then have "elem * n \<le> lay_size lb" using n(2) by (simp add: word_le_nat_alt)
  then have k: "?k \<le> lay_size lb" by (rule min.coboundedI1)
  have ap: "\<not> buf + i - f < 24" if "i < ?k" for i
    using block_apart [OF inv buf, of i] that k by (simp add: sz less_le_trans)
  have same: "?c a = m a" if "a - f < 24" for a
    using ap [of "a - buf"] that by (auto simp: copy_bytes_def)
  have run: "fread buf elem n f m = Inr (?k div elem, ?m)" by (rule fread_spec [OF rep n(1) same])
  have "?m a = m a" if "\<not> a - f < 24" "\<not> a - buf < lay_size lb" for a
    using write64_outside [OF that(1), of 16] less_le_trans [OF _ k, of "a - buf"] that(2) by (auto simp: copy_bytes_def simp del: min_less_iff_conj)
  then have c: "c_inv hinv rest (h, ?m) ((f, FILE_layout) # live)"
    using buf by (intro c_inv_mem [OF inv]) (auto simp: sz list_ex_iff)
  have cells: "read64 ?c (f + of_nat j) = read64 m (f + of_nat j)" if "j \<le> 16" for j
  proof (rule read64_cong)
    fix i :: nat assume "i < 8"
    with that have "unat (of_nat j + of_nat i :: u64) = j + i" by (simp add: unat_word_ariths unat_of_nat)
    then show "?c (f + of_nat j + of_nat i) = m (f + of_nat j + of_nat i)"
      using that \<open>i < 8\<close> by (intro same) (simp add: word_less_nat_alt add.assoc)
  qed
  have "file_rep ?c f data sz pos" using rep cells [of 0] cells [of 8] cells [of 16] by (simp add: file_rep_def)
  moreover have "pos + ?k \<le> sz" using rep by (simp add: file_rep_def pos_min)
  ultimately have r: "file_rep ?m f data sz (pos + ?k)" by (rule file_rep_pos)
  have "?m (buf + of_nat i) = m (data + pos + of_nat i)" if "i < unat ?k" for i
  proof -
    have i: "(of_nat i :: u64) < ?k" using that unat_bound [of ?k] by (simp add: word_less_nat_alt unat_of_nat)
    then show ?thesis using write64_outside [OF ap [OF i], of 16] copy_bytes_spec(1) [OF i] by simp
  qed
  then have "bytes_at ?m buf (unat ?k) = bytes_at m (data + pos) (unat ?k)" by (rule bytes_at_cong)
  with run c r show thesis by (rule that)
qed

text \<open>Seeking to a place inside the file.\<close>

lemma fseek_block:
  assumes inv: "c_inv hinv rest (h, m) ((f, FILE_layout) # live)" and rep: "file_rep m f data sz pos" and off: "off \<le> sz"
    and arch: "(base, al) \<in> set rest" "n \<le> unat (lay_size al)"
  obtains m' where "fseek f off 0 m = (0, m')" and "c_inv hinv rest (h, m') ((f, FILE_layout) # live)"
    and "file_rep m' f data sz off" and "bytes_at m' base n = bytes_at m base n"
proof -
  let ?m = "write64 m (f + 16) off"
  have sz: "lay_size FILE_layout = 24" by (simp add: FILE_layout_def)
  have "?m x = m x" if "\<not> x - f < 24" for x using write64_outside [OF that, of 16] by simp
  then have c: "c_inv hinv rest (h, ?m) ((f, FILE_layout) # live)" using c_inv_mem [OF inv, of ?m] by (simp add: sz)
  have "?m (base + of_nat i) = m (base + of_nat i)" if "i < n" for i
  proof -
    have e: "f - MALLOC_HDR + 32 = f + 16" by (simp add: MALLOC_HDR_def)
    have "\<not> base + of_nat i - (f - MALLOC_HDR) < 40"
      using rest_apart [OF inv _ arch(1) rest_block(3) [OF inv arch that], of f FILE_layout] by (simp add: sz MALLOC_HDR_def)
    from write64_outside [OF this, of 32] show ?thesis unfolding e by simp
  qed
  then have "bytes_at ?m base n = bytes_at m base n" by (rule bytes_at_cong)
  with fseek_spec [OF rep, of off 0] off c file_rep_pos [OF rep off] show thesis by (intro that [of ?m]) simp_all
qed

text \<open>Reading from a place in a file of the archive.\<close>

lemma file_read:
  assumes inv: "c_inv hinv rest (h, m) ((f, FILE_layout) # live)" and rep: "file_rep m f (base + of_nat off) (of_nat (length file)) 0"
    and arch: "(base, al) \<in> set rest" "length img \<le> unat (lay_size al)" "bytes_at m base (length img) = img"
    and part: "off + length file \<le> length img" "file = take (length file) (drop off img)"
    and buf: "(buf, lb) \<in> set live" "elem \<noteq> 0" "unat elem * unat n \<le> unat (lay_size lb)" and pos: "unat pos \<le> length file"
  shows "\<exists>m1 m2. fseek f pos 0 m = (0, m1)
    \<and> fread buf elem n f m1 = Inr (of_nat (min (unat elem * unat n) (length file - unat pos) div unat elem), m2)
    \<and> bytes_at m2 buf (min (unat elem * unat n) (length file - unat pos)) = take (unat elem * unat n) (drop (unat pos) file)
    \<and> c_inv hinv rest (h, m2) ((f, FILE_layout) # live)"
proof -
  let ?L = "of_nat (length file) :: u64" let ?k = "min (elem * n) (?L - pos)"
  have "length file < 2 ^ 64" using part(1) arch(2) unat_bound [of "lay_size al"] by simp
  then have L: "unat ?L = length file" by (simp add: unat_of_nat)
  then have le: "pos \<le> ?L" using pos by (simp add: word_le_nat_alt)
  have "unat elem * unat n < 2 ^ 64" using buf(3) unat_bound [of "lay_size lb"] by simp
  then have k: "unat ?k = min (unat elem * unat n) (length file - unat pos)"
    using unat_sub [OF le] L by (simp add: min_def word_le_nat_alt unat_word_ariths)
  obtain m1 where 1: "fseek f pos 0 m = (0, m1)" "c_inv hinv rest (h, m1) ((f, FILE_layout) # live)"
    "file_rep m1 f (base + of_nat off) ?L pos" "bytes_at m1 base (length img) = img"
    using fseek_block [OF inv rep le arch(1,2)] arch(3) by metis
  obtain m2 where 2: "fread buf elem n f m1 = Inr (?k div elem, m2)" "c_inv hinv rest (h, m2) ((f, FILE_layout) # live)"
    "bytes_at m2 buf (unat ?k) = bytes_at m1 (base + of_nat off + pos) (unat ?k)"
    using fread_block [OF 1(2,3) buf] by metis
  have e: "base + of_nat off + pos = base + of_nat (off + unat pos)" by simp
  have kl: "unat ?k \<le> length file - unat pos" using k by simp
  have "bytes_at m1 (base + of_nat (off + unat pos)) (unat ?k) = take (unat ?k) (drop (off + unat pos) img)"
    using part(1) pos kl by (intro bytes_at_part [OF 1(4)]) simp
  also have "\<dots> = take (unat ?k) (drop (unat pos) file)"
    using kl by (subst part(2)) (simp add: drop_take min_def add.commute)
  also have "\<dots> = take (unat elem * unat n) (drop (unat pos) file)" unfolding k by (simp add: min_def)
  finally have "bytes_at m2 buf (unat ?k) = take (unat elem * unat n) (drop (unat pos) file)" using 2(3) unfolding e by (rule trans [rotated])
  moreover have "?k div elem = of_nat (unat ?k div unat elem)" unfolding unat_div [symmetric] by simp
  ultimately show ?thesis using 1(1) 2(1,2) unfolding k by metis
qed

end

section \<open>Output\<close>

text \<open>What fits the buffer of \<open>printf\<close> and is UTF-8 reaches the serial port.\<close>

lemma printf_prints:
  assumes "cstr m fmt f" and "span fmt (Suc (length f)) \<inter> span buf 512 = {}"
    and "\<And>q t. txt q = Some t \<Longrightarrow> q \<noteq> 0 \<and> cstr m q t \<and> span q (Suc (length t)) \<inter> span buf 512 = {}"
    and "render txt f ap = Some tx" and "length tx < 512" and "0 \<notin> snd ` set tx" and "utf8_valid (map snd tx)"
  shows "\<exists>m'. vprintf_impl buf fmt ap m out = Some (of_nat (length tx), m', out @ map snd tx)"
proof -
  let ?t = "map snd tx" let ?m = "poke buf (?t @ [0]) m"
  have "fmt_vsnprintf buf 512 fmt ap m = Some (of_nat (length tx), ?m)"
    using fmt_vsnprintf_render [of m fmt f buf 512 "txt" ap tx] assms(1-5) by simp
  moreover have c: "cstr ?m buf ?t" using assms(5,6) by (intro cstr_poke) auto
  ultimately show ?thesis
    using strlen_cstr [OF c] bytes_at_cstr [OF c] assms(7) by (simp add: vprintf_impl_def serial_puts_def rust_serial_write_def)
qed

section \<open>Properties\<close>


text \<open>
  The archive of \<open>doom1.wad\<close> at the start of the heap, behind it a block of eight bytes, and the path at address 100.
\<close>

definition demo_stdio :: "LinkedListAllocator FixedSizeBlockAllocator" where
  "demo_stdio = fixed_new
     \<lparr>ll_head = \<lparr>node_size = 0, node_next = Some (HEAP_START + 70176)\<rparr>,
      ll_nodes = (\<lambda>a. if a = HEAP_START + 70176 then \<lparr>node_size = HEAP_SIZE - 70176, node_next = None\<rparr> else node_new 0)\<rparr> (\<lambda>_. None)"

definition demo_archive :: live where
  "demo_archive = [(HEAP_START, \<lparr>lay_size = 70144, lay_align = 1\<rparr>)]"

definition demo_block :: live where
  "demo_block = [(HEAP_START + 70160, \<lparr>lay_size = 8, lay_align = 8\<rparr>)]"

definition demo_stdio_mem :: memory where
  "demo_stdio_mem = write64 (\<lambda>a. if a - HEAP_START < 70144 then demo_img ! unat (a - HEAP_START)
     else poke 100 (map of_char ''doom1.wad'' @ [0]) (\<lambda>_. 0xFF) a) (HEAP_START + 70144) 8"

lemma demo_stdio_inv: "c_inv (ll_inv (heap_range HEAP_START HEAP_SIZE)) demo_archive (demo_stdio, demo_stdio_mem) demo_block"
proof -
  let ?a = "\<lparr>lay_size = 70144, lay_align = 1\<rparr>" let ?l = "\<lparr>lay_size = 32, lay_align = 32\<rparr>"
  have c: "class_layout (raw_layout 8) = ?l" "class_layout ?a = ?a" by code_simp+
  have req: "ll_request ?l" "ll_request ?a" "valid_request ?l" "valid_request ?a" "valid_request (raw_layout 8)"
    "valid_request \<lparr>lay_size = 8, lay_align = 8\<rparr>" by code_simp+
  have bs: "block_size ?l = 32" by code_simp
  have "block_align ?a = 8" by code_simp
  then have bs2: "block_size ?a = 70144" by (simp add: block_size_def round_up_def)
  have "free_inv (heap_range HEAP_START HEAP_SIZE) [(HEAP_START + 70176, HEAP_SIZE - 70176)] [(HEAP_START + 70144, ?l), (HEAP_START, ?a)]"
    using req by (simp add: free_inv_def region_ok_def disjoint_in_Cons ll_block_def bytes_def heap_range_def live_ok_def bs bs2
        HEAP_START_def HEAP_SIZE_def)
  moreover have "ll_rep (fallback_allocator demo_stdio) [(HEAP_START + 70176, HEAP_SIZE - 70176)]"
    by (simp add: ll_rep_def demo_stdio_def fixed_new_def)
  ultimately have "ll_inv (heap_range HEAP_START HEAP_SIZE) (fallback_allocator demo_stdio) [(HEAP_START + 70144, ?l), (HEAP_START, ?a)]"
    by (auto simp: ll_inv_def)
  moreover have r: "raw_of (HEAP_START + 70160, \<lparr>lay_size = 8, lay_align = 8\<rparr>) = (HEAP_START + 70144, raw_layout 8)"
    by (simp add: raw_of_def MALLOC_HDR_def)
  ultimately have "fixed_inv (ll_inv (heap_range HEAP_START HEAP_SIZE)) demo_stdio (map raw_of demo_block @ demo_archive)"
    unfolding fixed_inv_def
    by (intro exI [of _ "replicate 9 []"] exI [of _ "[(HEAP_START + 70144, ?l), (HEAP_START, ?a)]"])
      (simp add: heads_rep_def demo_stdio_def fixed_new_def demo_block_def demo_archive_def free_blocks_def class_of_def c req)
  then show ?thesis using req(6) by (simp add: c_inv_def demo_block_def demo_stdio_mem_def MALLOC_HDR_def add.commute [of 70144])
qed

lemma demo_stdio_mem_facts:
  "bytes_at demo_stdio_mem HEAP_START (length demo_img) = demo_img" "cstr demo_stdio_mem 100 (map of_char ''doom1.wad'')"
proof -
  have "demo_stdio_mem (HEAP_START + of_nat i) = demo_img ! i" if "i < 70144" for i
  proof -
    have i: "unat (of_nat i :: u64) = i" using that by (simp add: unat_of_nat)
    then have lt: "(of_nat i :: u64) < 70144" using that by (simp add: word_less_nat_alt)
    have "\<not> HEAP_START + of_nat i - (HEAP_START + 70144) < 8"
      using bytes_word [of 70144 8 "of_nat i"] that i by (simp add: bytes_def)
    then show ?thesis using lt i by (simp add: demo_stdio_mem_def write64_def)
  qed
  then show "bytes_at demo_stdio_mem HEAP_START (length demo_img) = demo_img"
    by (auto simp: bytes_at_def length_demo_img intro!: nth_equalityI)
  show "cstr demo_stdio_mem 100 (map of_char ''doom1.wad'')"
    by (simp add: demo_stdio_mem_def write64_def HEAP_START_def)
qed


end
