(* ===== verification/Spec2Isabelle.thy ===== *)
theory Spec2Isabelle
  imports Eevdf_Fairness Round_Robin Keyboard_Irq Sync_Props Bump Doom_Glue Shell C_Stdio
begin

text \<open>
  A verification of MoltOS, a kernel for one x86-64 processor in Rust that runs threads, an asynchronous shell and a
  port of Doom. All paths below are relative to \<open>src/\<close> of the repository's crate.

  \<^bold>\<open>The program and its parts.\<close> \<open>kernel_main\<close> (\<open>src/main.rs\<close>) maps the heap and the displays, loads an archive of files
  from a disk, and enters a preemptive scheduler whose threads run an executor of asynchronous tasks and, on
  demand, the Doom engine. Interrupts feed keys to the shell and to Doom and drive preemption. The engine is C code
  that calls the kernel through a small C library.

  \<^bold>\<open>Theories and what they model.\<close>
  \<^item> \<open>Rust_Prelude\<close>: the outcome \<open>'a res\<close> of a computation that may panic (\<open>Inl\<close>), the integer operations of Rust at
    their width (plain operators panic on overflow, as in the build profile the crate uses), slices and lists.
    \<open>Ports\<close>: devices as their reactions to port accesses. \<open>Machine\<close>: byte-addressed memory, registers and the
    instructions of the naked functions.
  \<^item> \<open>Context\<close>, \<open>Kernel_Stack\<close>, \<open>Threads\<close> (\<open>src/thread/context.rs\<close>, \<open>stack.rs\<close>, \<open>thread.rs\<close>): \<open>context_switch\<close> and
    \<open>context_switch_to\<close> instruction by instruction, stacks with their canary, thread creation. The theorems: a switch
    saves the caller and resumes the other thread exactly, and a thread that is switched back to continues as
    if nothing had happened.
  \<^item> \<open>Scheduler_Interface\<close>: what the kernel relies on in a scheduler, as the locales \<open>switch_source\<close>,
    \<open>thread_scheduler\<close> and \<open>blocking_scheduler\<close>. \<open>Round_Robin\<close>, \<open>Eevdf\<close> (\<open>src/thread/schedulers/\<close>) and
    \<open>Global_Scheduler\<close> (\<open>scheduler.rs\<close>, \<open>mod.rs\<close>) interpret them on the model of the code. \<open>Eevdf_Fairness\<close>: how far
    virtual runtimes drift apart, that a larger weight gets less time, and that a thread can starve.
  \<^item> \<open>Interrupts\<close>, \<open>Keyboard_Irq\<close> (\<open>src/interrupts.rs\<close>): the stubs and handlers of timer and keyboard, down to the registers of
    the interrupted thread.
  \<^item> \<open>Sync\<close>, \<open>Sync_Safety\<close>, \<open>Sync_Props\<close> (\<open>src/sync.rs\<close>): both locks as a step relation with interrupts at every point
    where they are enabled; mutual exclusion, no lost wake-up, and a schedule that hangs the processor.
  \<^item> \<open>Alloc_Interface\<close>: the contract of a heap as the locale \<open>heap_allocator\<close>, with histories of calls and of writes by the
    client. \<open>Bump\<close>, \<open>Linked_List\<close>, \<open>Fixed_Block\<close> (\<open>src/allocator/\<close>): the allocators, whose free lists live in free
    memory; \<open>fallback_heap\<close> is the contract of the crate below the kernel's allocator.
  \<^item> \<open>Paging\<close> (\<open>src/memory.rs\<close>, \<open>src/allocator.rs\<close>): the frame allocator, and the mapping of the heap and the displays.
  \<^item> \<open>Ata\<close>, \<open>Ata_Load\<close>, \<open>Cxfs\<close> (\<open>src/ata.rs\<close>, \<open>src/fs.rs\<close>, \<open>tools/mkcxfs.py\<close>): the disk driver port access by port access, the
    archive reader and the archiver; what is packed is what is opened.
  \<^item> \<open>Vga_Text\<close>, \<open>Vga_Mode13\<close> (\<open>src/vga_buffer.rs\<close>, \<open>src/vga_mode13.rs\<close>): the console, which shows what a terminal would,
    and the switch to graphics mode from any state of the card.
  \<^item> \<open>Syscalls\<close>, \<open>Async_Tasks\<close>, \<open>Shell\<close> (\<open>src/syscall.rs\<close>, \<open>src/task/\<close>): system calls and their races, the executor with its
    wakers as a step relation against the interrupts, and the shell from decoded keys to the screen.
  \<^item> \<open>Doom_Keys\<close>, \<open>Doom_Glue\<close> (\<open>src/ffi/mod.rs\<close>): the key ring, which refines the locale \<open>bounded_queue\<close>, palette, frames
    and time.
  \<^item> \<open>C_String\<close>, \<open>C_Format\<close>, \<open>C_Heap\<close>, \<open>C_Stdio\<close> (\<open>src/ffi/stubs.c\<close>): strings, formatted output and scanning, \<open>malloc\<close> on the kernel's
    allocator (the locale \<open>c_heap\<close> gives \<open>heap_allocator\<close> again, for the C code), files and serial output. The
    comparisons order strings, the formatter writes what its format says or, when copied text does not fit,
    never returns, numbers survive printing and parsing, and reading a file gives the bytes that were packed.
  \<^item> This theory: the memory phase of \<open>kernel_main\<close>, which ends with the heap and the displays mapped and a shell that
    handles all keys.

  \<^bold>\<open>State.\<close> A struct is a record with the fields of the source, a pointer an address; structures that live in raw memory (contexts,
  interrupt frames, free-list nodes, strings, \<open>FILE\<close>) are read and written there. Concurrent parts are relations on one
  shared state with an atomic access per step.

  \<^bold>\<open>Termination.\<close> Loops with a bound are recursive functions that the logic accepts as total. No definition has fuel. Loops
  that only data can end (the free-list search, waiting for the clock, the loops over C strings) are partial functions,
  where \<open>None\<close> is a call that does not return; that they do return is part of the theorems about them.

  \<^bold>\<open>What is assumed.\<close> Hardware and crates are arguments, and what the code relies on is a named predicate: \<open>ata_drive\<close> (a drive that
  follows the ATA standard), \<open>vga_card\<close>, \<open>mapper_ok\<close> and \<open>tables_ok\<close> (page tables of the crate \<open>x86_64\<close>), \<open>crates_ok\<close> (the
  queues and the waker cell of \<open>crossbeam_queue\<close> and \<open>futures_util\<close>), \<open>fallback_heap\<close> (\<open>linked_list_allocator\<close>). Each is met by a
  concrete instance in the example that follows the theorem.

  \<^bold>\<open>Not modelled.\<close> The descriptor tables and the serial port driver (\<open>gdt.rs\<close>, \<open>serial.rs\<close>) and the handlers of processor exceptions,
  which only configure crates or print and halt; the test runner of \<open>lib.rs\<close> and \<open>build.rs\<close>; the decoding of
  scancodes by \<open>pc_keyboard\<close>; the text formatting of \<open>print!\<close>, which is the core library; the Doom engine itself;
  \<open>src/doom/mod.rs\<close>, which no module declaration names; \<open>translate_addr\<close> and \<open>EmptyFrameAllocator\<close>, which nothing
  calls; in \<open>stubs.c\<close> the floating-point functions, the functions that halt, and those that do nothing or return a
  constant. The spin locks around the allocators are left out: one call runs at a time.
\<close>

section \<open>Memory at boot\<close>

text \<open>
  \<open>kernel_main\<close> from the frame allocator to the framebuffer: the heap, the text screen, the memory map for the
  shell, the graphics screen. A failing \<open>init_heap\<close> is the panic of \<open>expect\<close>.
\<close>

definition kernel_main_memory ::
  "('m, 'fr, 'pg) x86_paging \<Rightarrow> (usize \<Rightarrow> usize \<Rightarrow> 'h \<Rightarrow> 'h) \<Rightarrow> MemoryRegion list \<Rightarrow> 'm \<Rightarrow> 'h FixedSizeBlockAllocator \<Rightarrow> shell
   \<Rightarrow> (('m \<times> BootInfoFrameAllocator) \<times> 'h FixedSizeBlockAllocator \<times> shell) res" where
  "kernel_main_memory px ini mm m h st =
     rbind (init_heap px ini (m, fa_init mm) h) (\<lambda>(r, mfa, h).
       case r of
         Inl e \<Rightarrow> Inl (Expect ''heap initialization failed'')
       | Inr _ \<Rightarrow>
           rbind (map_vga_buffer px mfa) (\<lambda>mfa.
           rbind (init_memory_map mm st) (\<lambda>st.
           rbind (map_framebuffer px mfa) (\<lambda>mfa.
             Inr (mfa, h, st)))))"

definition fb_pages :: "u64 list" where
  "fb_pages = map (\<lambda>i. FB_ADDR + of_nat i * 4096) [0..<16]"

definition boot_pages :: "('m, 'fr, 'pg) x86_paging \<Rightarrow> 'pg set" where
  "boot_pages px = set (heap_pages px) \<union> virt_page px ` set (0xb8000 # fb_pages)"

lemma fb_pages_eq:
  "fb_pages = [0xa0000, 0xa1000, 0xa2000, 0xa3000, 0xa4000, 0xa5000, 0xa6000, 0xa7000,
     0xa8000, 0xa9000, 0xaa000, 0xab000, 0xac000, 0xad000, 0xae000, 0xaf000]"
  by (simp add: fb_pages_def FB_ADDR_def upt_rec)

lemma low_not_heap:
  assumes px: "mapper_ok px entry" and a: "aligned a" "unat a < unat HEAP_START"
  shows "virt_page px a \<notin> set (heap_pages px)"
proof
  assume "virt_page px a \<in> set (heap_pages px)"
  then obtain i where i: "i < 14336" "virt_page px a = virt_page px (HEAP_START + of_nat (i * 4096))"
    using heap_pages_nth [of _ px] length_heap_pages [of px] by (metis in_set_conv_nth)
  have "aligned (HEAP_START + of_nat (i * 4096))"
    using heap_page_addr [OF i(1)] unfolding aligned_def by (simp add: HEAP_START_def)
  with px a(1) i(2) have "a = HEAP_START + of_nat (i * 4096)" unfolding mapper_ok_def by blast
  then have "unat a = unat HEAP_START + i * 4096" by (simp only: heap_page_addr [OF i(1)])
  with a(2) show False by simp
qed

lemma heap_page_mem: "i < 14336 \<Longrightarrow> virt_page px (HEAP_START + of_nat (i * 4096)) \<in> set (heap_pages px)"
  using heap_pages_nth [of i px] nth_mem [of i "heap_pages px"] unfolding length_heap_pages by (simp only:)

lemma screen_pages:
  assumes "a \<in> set (0xb8000 # fb_pages)"
  shows "aligned a" "unat a < unat HEAP_START"
  using assms by (auto simp: fb_pages_eq aligned_def HEAP_START_def)

lemma map_ok_regions: "map_ok mm \<Longrightarrow> regions_ok mm"
  by (simp add: map_ok_def regions_ok_def)

lemma screens_mapped:
  assumes px: "mapper_ok px entry" "tables_ok px missing S" "virt_page px ` set (0xb8000 # fb_pages) \<subseteq> S"
    and low: "\<forall>a \<in> set (0xb8000 # fb_pages). identity_or_free px entry m a"
    and k: "missing m = Some k" "unat (next_frame fa) + k \<le> length (usable_frames px fa)"
  obtains m1 fa1 m2 fa2 where "map_vga_buffer px (m, fa) = Inr (m1, fa1)" and "map_framebuffer px (m1, fa1) = Inr (m2, fa2)"
    and "\<forall>a \<in> set (0xb8000 # fb_pages). entry m2 (virt_page px a) = Some (phys_frame px a)"
    and "\<forall>pg. pg \<notin> virt_page px ` set (0xb8000 # fb_pages) \<longrightarrow> entry m2 pg = entry m pg"
proof -
  obtain m1 fa1 k1 where 1: "map_identity ''VGA map_to failed'' px 0xb8000 (m, fa) = Inr (m1, fa1)"
    "entry m1 = (entry m)(virt_page px 0xb8000 \<mapsto> phys_frame px 0xb8000)" "missing m1 = Some k1"
    "unat (next_frame fa1) + k1 \<le> length (usable_frames px fa1)"
    by (rule map_identity_succeeds [OF px(1,2), of "0xb8000" m k fa]) (use px(3) low k in simp_all)
  have ne: "virt_page px a \<noteq> virt_page px 0xb8000" if "a \<in> set fb_pages" for a
  proof
    assume "virt_page px a = virt_page px 0xb8000"
    moreover have "aligned a" "aligned 0xb8000" using that screen_pages(1) by simp_all
    ultimately have "a = 0xb8000" using px(1) unfolding mapper_ok_def by blast
    with that show False by (simp add: fb_pages_eq)
  qed
  have "\<forall>a \<in> set fb_pages. virt_page px a \<in> S \<and> identity_or_free px entry m1 a \<and> aligned a"
    using px(3) low 1(2) ne screen_pages(1) by (auto simp: identity_or_free_def)
  from map_framebuffer_from_succeeds [OF px(1,2) this 1(3,4)] obtain m2 fa2 where
    2: "map_framebuffer_from px fb_pages (m1, fa1) = Inr (m2, fa2)" "\<forall>a \<in> set fb_pages. entry m2 (virt_page px a) = Some (phys_frame px a)"
      "\<forall>pg. pg \<notin> virt_page px ` set fb_pages \<longrightarrow> entry m2 pg = entry m1 pg"
    by blast
  have "virt_page px 0xb8000 \<notin> virt_page px ` set fb_pages" using ne by (metis imageE)
  then have "entry m2 (virt_page px 0xb8000) = Some (phys_frame px 0xb8000)" using 2(3) 1(2) by simp
  with 1 2 show thesis by (intro that [of m1 fa1 m2 fa2]) (simp_all add: map_vga_buffer_def map_framebuffer_def fb_pages_def [symmetric])
qed

text \<open>
  C12. The kernel boots into a shell that keeps running. On a machine with a sorted memory map and frames for the heap and
  the page tables that are missing, with the heap region unmapped and the two screens unmapped or mapped to
  themselves, the memory phase of \<open>kernel_main\<close> completes without a panic: the heap's pages are mapped to distinct
  usable frames, the text screen and the 64 KiB of the graphics screen to the frames of the same address, the
  allocator manages exactly the mapped region, and the shell started on that memory map handles every
  sequence of keys without a panic.
\<close>

theorem kernel_boots:
  assumes px: "mapper_ok px entry" "tables_ok px missing (boot_pages px)" and mm: "map_ok mm"
    and free: "\<forall>pg \<in> set (heap_pages px). entry m pg = None"
    and low: "\<forall>a \<in> set (0xb8000 # fb_pages). identity_or_free px entry m a"
    and room: "missing m = Some k" "k + 14336 \<le> length (usable_frames px (fa_init mm))"
    and st: "screen_ok (sys_console (sh_sys st))" "MEMORY_MAP st = None" "\<not> DOOM_LAUNCHED st" "doom_threads st = 0"
  shows "\<exists>m' fa' st' frames. kernel_main_memory px ini mm m h st = Inr ((m', fa'), fixed_init ini HEAP_START HEAP_SIZE h, st')
    \<and> length frames = 14336 \<and> distinct frames \<and> set frames \<subseteq> set (usable_frames px (fa_init mm))
    \<and> (\<forall>i < 14336. entry m' (virt_page px (HEAP_START + of_nat (i * 4096))) = Some (frames ! i))
    \<and> (\<forall>a \<in> set (0xb8000 # fb_pages). entry m' (virt_page px a) = Some (phys_frame px a))
    \<and> (\<exists>st''. run_shell doom ks st' = Inr st'' \<and> screen_ok (sys_console (sh_sys st'')))"
proof -
  have fa: "memory_map (fa_init mm) = mm" "unat (next_frame (fa_init mm)) = 0" by (simp_all add: fa_init_def)
  have pages: "set (heap_pages px) \<subseteq> boot_pages px" "virt_page px ` set (0xb8000 # fb_pages) \<subseteq> boot_pages px"
    by (auto simp: boot_pages_def)
  obtain m1 fa1 k1 where 1: "init_heap px ini (m, fa_init mm) h = Inr (Inr (), (m1, fa1), fixed_init ini HEAP_START HEAP_SIZE h)"
    "missing m1 = Some k1" "unat (next_frame fa1) + k1 \<le> length (usable_frames px fa1)"
    by (rule init_heap_succeeds [OF px pages(1) _ free room(1), of "fa_init mm" ini h]) (use mm fa room(2) in simp_all)
  obtain frames where fr: "length frames = 14336" "distinct frames" "set frames \<subseteq> set (usable_frames px (fa_init mm))"
    "\<forall>i < 14336. entry m1 (virt_page px (HEAP_START + of_nat (i * 4096))) = Some (frames ! i)"
    "\<forall>pg. pg \<notin> set (heap_pages px) \<longrightarrow> entry m1 pg = entry m pg"
    using init_heap_maps [OF px(1) _ 1(1)] mm fa(1) by auto
  have nh: "virt_page px a \<notin> set (heap_pages px)" if "a \<in> set (0xb8000 # fb_pages)" for a
    using that by (intro low_not_heap [OF px(1)] screen_pages)
  then have "\<forall>a \<in> set (0xb8000 # fb_pages). identity_or_free px entry m1 a"
    using low fr(5) unfolding identity_or_free_def by simp
  then obtain m2 fa2 m3 fa3 where 2: "map_vga_buffer px (m1, fa1) = Inr (m2, fa2)" "map_framebuffer px (m2, fa2) = Inr (m3, fa3)"
    "\<forall>a \<in> set (0xb8000 # fb_pages). entry m3 (virt_page px a) = Some (phys_frame px a)"
    "\<forall>pg. pg \<notin> virt_page px ` set (0xb8000 # fb_pages) \<longrightarrow> entry m3 pg = entry m1 pg"
    by (rule screens_mapped [OF px pages(2) _ 1(2,3)])
  have keep: "entry m3 pg = entry m1 pg" if "pg \<in> set (heap_pages px)" for pg
    using 2(4) [THEN spec, of pg] nh that by blast
  have "\<forall>i < 14336. entry m3 (virt_page px (HEAP_START + of_nat (i * 4096))) = Some (frames ! i)"
    by (intro allI impI trans [OF keep fr(4) [rule_format]] heap_page_mem)
  moreover have "init_memory_map mm st = Inr (st\<lparr>MEMORY_MAP := Some mm\<rparr>)" using st(2) by (simp add: init_memory_map_def)
  moreover from this shell_total [OF st map_ok_regions [OF mm], of doom ks]
  have "\<exists>st''. run_shell doom ks (st\<lparr>MEMORY_MAP := Some mm\<rparr>) = Inr st'' \<and> screen_ok (sys_console (sh_sys st''))" by auto
  moreover have "kernel_main_memory px ini mm m h st
      = Inr ((m3, fa3), fixed_init ini HEAP_START HEAP_SIZE h, st\<lparr>MEMORY_MAP := Some mm\<rparr>)"
    using 1(1) 2(1,2) calculation(2) by (simp add: kernel_main_memory_def)
  ultimately show ?thesis using fr(1,2,3) 2(3) by blast
qed

theorem kernel_boots_witness:
  "\<exists>m' fa' st' h'. kernel_main_memory flat_paging (\<lambda>a b _. (a, b)) demo_map (\<lambda>_. None) (fixed_new (0, 0) (\<lambda>_. None)) boot_shell
      = Inr ((m', fa'), h', st') \<and> fallback_allocator h' = (HEAP_START, HEAP_SIZE) \<and> m' 0xb8000 = Some 0xb8000
    \<and> (\<exists>st''. run_shell True [Unicode 0x6D, Unicode 0x65, Unicode 0x6D, Unicode 0x0D] st' = Inr st'')"
proof -
  have room: "0 + 14336 \<le> length (usable_frames flat_paging (fa_init demo_map))" using demo_map_frames(2) by simp
  have free: "\<forall>pg \<in> set (heap_pages flat_paging). (\<lambda>_. None :: u64 option) pg = None"
    "\<forall>a \<in> set (0xb8000 # fb_pages). identity_or_free flat_paging (\<lambda>m. m) (\<lambda>_. None) a"
    by (simp_all add: identity_or_free_def)
  have st: "screen_ok (sys_console (sh_sys boot_shell))" "MEMORY_MAP boot_shell = None" "\<not> DOOM_LAUNCHED boot_shell"
    "doom_threads boot_shell = 0"
    by (simp_all add: boot_shell_def screen_ok_def)
  obtain m' fa' st' where run: "kernel_main_memory flat_paging (\<lambda>a b _. (a, b)) demo_map (\<lambda>_. None) (fixed_new (0, 0) (\<lambda>_. None)) boot_shell
      = Inr ((m', fa'), fixed_init (\<lambda>a b _. (a, b)) HEAP_START HEAP_SIZE (fixed_new (0, 0) (\<lambda>_. None)), st')"
    and scr: "\<forall>a \<in> set (0xb8000 # fb_pages). m' (virt_page flat_paging a) = Some (phys_frame flat_paging a)"
    and sh: "\<exists>st''. run_shell True [Unicode 0x6D, Unicode 0x65, Unicode 0x6D, Unicode 0x0D] st' = Inr st''"
    using kernel_boots [OF flat_paging_ok demo_map_frames(1) free refl room st, of "\<lambda>a b _. (a, b)" "fixed_new (0, 0) (\<lambda>_. None)" True
        "[Unicode 0x6D, Unicode 0x65, Unicode 0x6D, Unicode 0x0D]"] by blast
  from scr have "m' 0xb8000 = Some 0xb8000" by (simp add: flat_paging_def)
  moreover have "fallback_allocator (fixed_init (\<lambda>a b _. (a, b)) HEAP_START HEAP_SIZE (fixed_new (0, 0) (\<lambda>_. None))) = (HEAP_START, HEAP_SIZE)"
    by (simp add: fixed_init_def)
  ultimately show ?thesis using run sh by blast
qed

end
